(* ===== verification/Prelude.thy ===== *)
theory Prelude
  imports Main "HOL-Library.Word"
begin

text \<open>
  What every component shares: the outcomes of a C function that can go wrong
  (\<open>fault\<close>, \<open>res\<close>), sequencing of such functions (\<open>rbind\<close>), the arithmetic of
  \<open>size_t\<close> on natural numbers with its wrap-around written out (\<open>sz_add\<close>, \<open>sz_sub\<close>),
  the conversion of a \<open>size_t\<close> to \<open>int\<close> (\<open>c_int\<close>), and generic lemmas on lists.
\<close>

section \<open>Outcomes of C functions\<close>

text \<open>
  \<open>Segv\<close>: a read or write through a null or dangling pointer. \<open>Exit n\<close>: the program called
  \<open>exit(n)\<close>. \<open>Ub\<close>: another behaviour the C standard leaves undefined (a signed overflow, an
  index outside an array, a call through an uninitialised pointer). \<open>Fuel\<close>: the loop was
  still running when the fuel of the model ended; the lemmas on enough fuel exclude it.
\<close>

datatype fault = Segv | Exit int | Ub | Fuel

type_synonym 'a res = "fault + 'a"

named_theorems res_simps "evaluation of sequenced C computations"

fun rbind :: "'a res \<Rightarrow> ('a \<Rightarrow> 'b res) \<Rightarrow> 'b res" where
  "rbind (Inl e) f = Inl e"
| "rbind (Inr x) f = f x"

declare rbind.simps [res_simps]

lemma rbind_Inr_iff [res_simps]:
  "rbind m f = Inr y \<longleftrightarrow> (\<exists>x. m = Inr x \<and> f x = Inr y)"
  by (cases m) auto

lemma rbind_Inl_iff:
  "rbind m f = Inl e \<longleftrightarrow> m = Inl e \<or> (\<exists>x. m = Inr x \<and> f x = Inl e)"
  by (cases m) auto

lemma rbind_assoc: "rbind (rbind m f) g = rbind m (\<lambda>x. rbind (f x) g)"
  by (cases m) auto

lemma rbind_cong [fundef_cong]:
  "m = m' \<Longrightarrow> (\<And>x. m' = Inr x \<Longrightarrow> f x = g x) \<Longrightarrow> rbind m f = rbind m' g"
  by (cases m') auto

text \<open>A pointer is an address; address 0 is the null pointer.\<close>

type_synonym ptr = nat

abbreviation (input) NULL :: ptr where "NULL \<equiv> 0"

definition deref :: "(ptr \<Rightarrow> 'a option) \<Rightarrow> ptr \<Rightarrow> 'a res" where
  "deref h p = (case h p of None \<Rightarrow> Inl Segv | Some x \<Rightarrow> Inr x)"

lemma deref_Some [simp, res_simps]: "h p = Some x \<Longrightarrow> deref h p = Inr x"
  by (simp add: deref_def)

lemma deref_None [simp, res_simps]: "h p = None \<Longrightarrow> deref h p = Inl Segv"
  by (simp add: deref_def)

lemma deref_Inr_iff [res_simps]: "deref h p = Inr x \<longleftrightarrow> h p = Some x"
  by (simp add: deref_def split: option.splits)

section \<open>Machine integers\<close>

type_synonym int32 = "32 word"
type_synonym size_t = "64 word"
type_synonym byte = "8 word"

text \<open>
  Sizes and addresses are natural numbers below \<open>2 ^ 64\<close>; addition and subtraction wrap
  around as they do on \<open>size_t\<close>.
\<close>

named_theorems sz_simps "size_t arithmetic that does not wrap"

definition sz_add :: "nat \<Rightarrow> nat \<Rightarrow> nat" where
  "sz_add a b = (a + b) mod 2 ^ 64"

definition sz_sub :: "nat \<Rightarrow> nat \<Rightarrow> nat" where
  "sz_sub a b = nat ((int a - int b) mod 2 ^ 64)"

lemma sz_add_exact [sz_simps]: "a + b < 2 ^ 64 \<Longrightarrow> sz_add a b = a + b"
  by (simp add: sz_add_def)

lemma sz_sub_exact [sz_simps]: "b \<le> a \<Longrightarrow> a < 2 ^ 64 \<Longrightarrow> sz_sub a b = a - b"
  by (simp add: sz_sub_def flip: of_nat_diff)

lemma sz_sub_wraps: "a < b \<Longrightarrow> b < 2 ^ 64 \<Longrightarrow> sz_sub a b = 2 ^ 64 + a - b"
proof -
  assume ab: "a < b" and b: "b < 2 ^ 64"
  have "(int a - int b) mod 2 ^ 64 = (int a - int b + 2 ^ 64) mod 2 ^ 64" by simp
  also have "\<dots> = int a - int b + 2 ^ 64"
    using ab b by (intro mod_pos_pos_trivial) auto
  finally show ?thesis using b by (simp add: sz_sub_def)
qed

text \<open>The conversion of a \<open>size_t\<close> to a 32-bit \<open>int\<close>: reduction to two's complement.\<close>

definition c_int :: "nat \<Rightarrow> int" where
  "c_int n = sint (of_nat n :: int32)"

lemma c_int_small [sz_simps]: "n < 2 ^ 31 \<Longrightarrow> c_int n = int n"
  by (simp add: c_int_def signed_of_nat signed_take_bit_int_eq_self)

text \<open>A subtraction of \<open>int\<close>s is undefined when the result leaves the range of \<open>int\<close>.\<close>

definition int_sub :: "int \<Rightarrow> int \<Rightarrow> int res" where
  "int_sub a b = (if - (2 ^ 31) \<le> a - b \<and> a - b < 2 ^ 31 then Inr (a - b) else Inl Ub)"

section \<open>Lists\<close>

lemma sum_list_concat: "sum_list (concat xss) = sum_list (map sum_list xss)"
  for xss :: "'a::monoid_add list list"
  by (induction xss) auto

end
