(* ===== verification/Weights.thy ===== *)
theory Weights
  imports Prelude
begin

text \<open>
  The weight system calls of \<^verbatim>\<open>process_weights/kernel/hw2.c\<close>: the process table is a map from the
  addresses of task structures to their contents. A task holds the address of its parent
  and, for the kernel's \<open>children\<close>/\<open>sibling\<close> lists, the addresses of its children in list
  order; \<open>list_for_each\<close> visits them in that order. The kernel is compiled so that \<open>int\<close>
  wraps around, so weights and sums are 32-bit words read through \<open>sint\<close>.
  The recursion and the loop over the ancestors take fuel; the lemmas give enough of it.
\<close>

section \<open>Tasks\<close>

record task_struct =
  pid :: int
  weight :: int32
  parent :: ptr
  children :: "ptr list"

record kernel =
  tasks :: "ptr \<Rightarrow> task_struct option"
  current :: ptr
  klog :: "string list"

definition EINVAL :: int where "EINVAL = 22"
definition ECHILD :: int where "ECHILD = 10"

text \<open>The initial task starts with weight 0.\<close>

definition INIT_TASK :: "ptr \<Rightarrow> task_struct" where
  "INIT_TASK self = \<lparr>pid = 0, weight = 0, parent = self, children = []\<rparr>"

section \<open>The system calls\<close>

definition sys_hello :: "kernel \<Rightarrow> (int \<times> kernel) res" where
  "sys_hello k = Inr (0, k\<lparr>klog := klog k @ [''Hello, World!'' @ [CHR 0x0A]]\<rparr>)"

definition sys_set_weight :: "int32 \<Rightarrow> kernel \<Rightarrow> (int \<times> kernel) res" where
  "sys_set_weight w k =
     (if sint w < 0 then Inr (- EINVAL, k)
      else rbind (deref (tasks k) (current k)) (\<lambda>t.
        Inr (0, k\<lparr>tasks := (tasks k)(current k \<mapsto> t\<lparr>weight := w\<rparr>)\<rparr>)))"

definition sys_get_weight :: "kernel \<Rightarrow> int res" where
  "sys_get_weight k = rbind (deref (tasks k) (current k)) (\<lambda>t. Inr (sint (weight t)))"

text \<open>The loop over a children list: the running sum and whether there was a child.\<close>

primrec sum_loop :: "(ptr \<Rightarrow> int32 res) \<Rightarrow> ptr list \<Rightarrow> int32 \<Rightarrow> bool \<Rightarrow> (int32 \<times> bool) res" where
  "sum_loop visit [] s flag = Inr (s, flag)"
| "sum_loop visit (c # cs) s flag =
     rbind (visit c) (\<lambda>w. sum_loop visit cs (s + w) True)"

primrec traverse_children_sum_weight ::
  "nat \<Rightarrow> (ptr \<Rightarrow> task_struct option) \<Rightarrow> ptr \<Rightarrow> int32 res" where
  "traverse_children_sum_weight 0 ts p = Inl Fuel"
| "traverse_children_sum_weight (Suc fuel) ts p =
     rbind (deref ts p) (\<lambda>root_task.
       rbind (sum_loop (\<lambda>c. traverse_children_sum_weight fuel ts c) (children root_task) 0 False)
         (\<lambda>(s, flag). if flag then Inr s else Inr (s + weight root_task)))"

definition sys_get_leaf_children_sum :: "nat \<Rightarrow> kernel \<Rightarrow> int res" where
  "sys_get_leaf_children_sum fuel k =
     rbind (deref (tasks k) (current k)) (\<lambda>cur.
       rbind (sum_loop (traverse_children_sum_weight fuel (tasks k)) (children cur) 0 False)
         (\<lambda>(sum_weight, parent). if parent then Inr (sint sum_weight) else Inr (- ECHILD)))"

text \<open>The \<open>do\<close> loop: it ends after the task whose pid is 0 has been looked at.\<close>

primrec heaviest_loop ::
  "nat \<Rightarrow> (ptr \<Rightarrow> task_struct option) \<Rightarrow> ptr \<Rightarrow> int32 \<Rightarrow> int \<Rightarrow> int res" where
  "heaviest_loop 0 ts task max_weight max_weight_pid = Inl Fuel"
| "heaviest_loop (Suc fuel) ts task max_weight max_weight_pid =
     rbind (deref ts task) (\<lambda>t.
       let (mw, mp) = (if sint (weight t) > sint max_weight then (weight t, pid t)
                       else (max_weight, max_weight_pid))
       in if pid t \<noteq> 0 then heaviest_loop fuel ts (parent t) mw mp else Inr mp)"

definition sys_get_heaviest_ancestor :: "nat \<Rightarrow> kernel \<Rightarrow> int res" where
  "sys_get_heaviest_ancestor fuel k =
     rbind (deref (tasks k) (current k)) (\<lambda>cur.
       heaviest_loop fuel (tasks k) (current k) (weight cur) (pid cur))"

section \<open>The process tree\<close>

text \<open>The tree a task roots, and what it means for the table to hold it.\<close>

datatype ptree = PNode (root: ptr) (subtrees: "ptree list")

fun tree_in :: "(ptr \<Rightarrow> task_struct option) \<Rightarrow> ptree \<Rightarrow> bool" where
  "tree_in ts (PNode p cs) \<longleftrightarrow>
     (case ts p of None \<Rightarrow> False | Some t \<Rightarrow> children t = map root cs) \<and> (\<forall>c \<in> set cs. tree_in ts c)"

fun leaves :: "ptree \<Rightarrow> ptr list" where
  "leaves (PNode p cs) = (if cs = [] then [p] else concat (map leaves cs))"

fun height :: "ptree \<Rightarrow> nat" where
  "height (PNode p cs) = (if cs = [] then 0 else Suc (Max (set (map height cs))))"

definition weight_of :: "(ptr \<Rightarrow> task_struct option) \<Rightarrow> ptr \<Rightarrow> int32" where
  "weight_of ts p = (case ts p of None \<Rightarrow> 0 | Some t \<Rightarrow> weight t)"

lemma weight_of_Some [simp]: "ts p = Some t \<Longrightarrow> weight_of ts p = weight t"
  by (simp add: weight_of_def)

lemma height_child: "c \<in> set cs \<Longrightarrow> height c < height (PNode p cs)"
  by (auto simp: less_Suc_eq_le)

lemma sum_loop_map:
  assumes "\<And>c. c \<in> set cs \<Longrightarrow> visit (root c) = Inr (val c)"
  shows "sum_loop visit (map root cs) s b = Inr (s + sum_list (map val cs), b \<or> cs \<noteq> [])"
  using assms by (induction cs arbitrary: s b) (auto simp: add.assoc)

lemma traverse_leaves:
  "tree_in ts t \<Longrightarrow> height t < fuel \<Longrightarrow>
   traverse_children_sum_weight fuel ts (root t) = Inr (sum_list (map (weight_of ts) (leaves t)))"
proof (induction t arbitrary: fuel rule: leaves.induct)
  case (1 p cs)
  from "1.prems" obtain f where f: "fuel = Suc f" by (cases fuel) auto
  from "1.prems" obtain t where t: "ts p = Some t" "children t = map root cs"
    by (auto split: option.splits)
  have sub: "traverse_children_sum_weight f ts (root c) = Inr (sum_list (map (weight_of ts) (leaves c)))"
    if "c \<in> set cs" for c
  proof (cases "cs = []")
    case False
    show ?thesis
      using False that "1.IH" "1.prems" height_child [OF that, of p] f by auto
  qed (use that in simp)
  show ?case
    using t f sum_loop_map [of cs "traverse_children_sum_weight f ts", OF sub]
    by (auto simp: res_simps map_concat sum_list_concat o_def)
qed

lemma leaf_children_sum_tree:
  assumes "tree_in (tasks k) (PNode (current k) cs)" and "height (PNode (current k) cs) \<le> fuel"
  shows "sys_get_leaf_children_sum fuel k =
    Inr (if cs = [] then - ECHILD
         else sint (sum_list (map (weight_of (tasks k)) (leaves (PNode (current k) cs)))))"
proof -
  from assms obtain t where t: "tasks k (current k) = Some t" "children t = map root cs"
    by (auto split: option.splits)
  have "traverse_children_sum_weight fuel (tasks k) (root c)
      = Inr (sum_list (map (weight_of (tasks k)) (leaves c)))" if "c \<in> set cs" for c
    using assms that height_child [OF that, of "current k"] by (intro traverse_leaves) auto
  from sum_loop_map [of cs "traverse_children_sum_weight fuel (tasks k)", OF this] t
  show ?thesis
    by (auto simp: sys_get_leaf_children_sum_def res_simps map_concat sum_list_concat o_def)
qed

text \<open>Without overflow the returned sum is the sum of the weights as integers.\<close>

lemma sint_sum_list:
  fixes ws :: "int32 list"
  assumes "\<forall>w \<in> set ws. 0 \<le> sint w" and "(\<Sum>w \<leftarrow> ws. sint w) < 2 ^ 31"
  shows "sint (sum_list ws) = (\<Sum>w \<leftarrow> ws. sint w)"
  using assms
proof (induction ws)
  case Nil
  show ?case by simp
next
  case (Cons w ws)
  have nn: "0 \<le> (\<Sum>w \<leftarrow> ws. sint w)"
    using Cons.prems(1) by (intro sum_list_nonneg) auto
  have w: "0 \<le> sint w" using Cons.prems by simp
  then have "(\<Sum>w \<leftarrow> ws. sint w) < 2 ^ 31" using Cons.prems by simp
  with Cons have IH: "sint (sum_list ws) = (\<Sum>w \<leftarrow> ws. sint w)" by simp
  have "sint (w + sum_list ws) = signed_take_bit 31 (sint w + sint (sum_list ws))"
    by (simp add: sint_word_ariths)
  also have "\<dots> = sint w + sint (sum_list ws)"
    using Cons.prems nn w IH by (intro signed_take_bit_int_eq_self) auto
  finally show ?case using IH by simp
qed

section \<open>Ancestors\<close>

text \<open>\<open>chain ts p ps\<close>: following \<open>parent\<close> from \<open>p\<close> visits exactly \<open>ps\<close>, the last one with pid 0.\<close>

fun chain :: "(ptr \<Rightarrow> task_struct option) \<Rightarrow> ptr \<Rightarrow> task_struct list \<Rightarrow> bool" where
  "chain ts p [] \<longleftrightarrow> False"
| "chain ts p (t # us) \<longleftrightarrow>
     ts p = Some t \<and> (if pid t = 0 then us = [] else chain ts (parent t) us)"

text \<open>The pid a left-to-right scan with a strict comparison ends with.\<close>

fun scan_max :: "task_struct list \<Rightarrow> int32 \<Rightarrow> int \<Rightarrow> int" where
  "scan_max [] w p = p"
| "scan_max (t # us) w p =
     (if sint (weight t) > sint w then scan_max us (weight t) (pid t) else scan_max us w p)"

lemma heaviest_loop_scan:
  "chain ts p us \<Longrightarrow> length us \<le> fuel \<Longrightarrow> heaviest_loop fuel ts p w mp = Inr (scan_max us w mp)"
proof (induction us arbitrary: fuel p w mp)
  case (Cons t us)
  then obtain f where "fuel = Suc f" by (cases fuel) auto
  with Cons show ?case
    by (cases "pid t = 0") (auto simp: res_simps)
qed simp

lemma scan_max_first:
  "\<exists>as x bs. t # us = as @ x # bs \<and> scan_max us (weight t) (pid t) = pid x \<and>
     (\<forall>y \<in> set as. sint (weight y) < sint (weight x)) \<and>
     (\<forall>y \<in> set bs. sint (weight y) \<le> sint (weight x))"
proof (induction us arbitrary: t)
  case Nil
  show ?case by (intro exI [of _ "[]"]) simp
next
  case (Cons u us)
  show ?case
  proof (cases "sint (weight u) > sint (weight t)")
    case True
    obtain as x bs where 1: "u # us = as @ x # bs" "scan_max us (weight u) (pid u) = pid x"
      "\<forall>y \<in> set as. sint (weight y) < sint (weight x)"
      "\<forall>y \<in> set bs. sint (weight y) \<le> sint (weight x)"
      using Cons.IH [of u] by blast
    then have "sint (weight u) \<le> sint (weight x)" by (cases as) auto
    moreover have "scan_max (u # us) (weight t) (pid t) = pid x" using True 1(2) by simp
    moreover have "t # u # us = (t # as) @ x # bs" using 1(1) by simp
    ultimately show ?thesis using True 1
      by (intro exI [of _ "t # as"] exI [of _ x] exI [of _ bs]) simp
  next
    case False
    obtain as x bs where 1: "t # us = as @ x # bs" "scan_max us (weight t) (pid t) = pid x"
      "\<forall>y \<in> set as. sint (weight y) < sint (weight x)"
      "\<forall>y \<in> set bs. sint (weight y) \<le> sint (weight x)"
      using Cons.IH [of t] by blast
    show ?thesis
    proof (cases as)
      case Nil
      with False 1 show ?thesis
        by (intro exI [of _ "[]"] exI [of _ x] exI [of _ "u # bs"]) auto
    next
      case (Cons a as')
      with False 1 show ?thesis
        by (intro exI [of _ "t # u # as'"] exI [of _ x] exI [of _ bs]) auto
    qed
  qed
qed

section \<open>Properties\<close>

text \<open>
  C19: setting a non-negative weight returns 0, changes the weight of the calling task alone,
  and \<open>get_weight\<close> then returns it; a negative weight is refused with \<open>-EINVAL\<close> and the
  kernel state is unchanged.
\<close>

theorem set_weight_get_weight:
  assumes "tasks k (current k) = Some t"
  shows "if sint w < 0 then sys_set_weight w k = Inr (-22, k)
    else \<exists>k'. sys_set_weight w k = Inr (0, k') \<and> sys_get_weight k' = Inr (sint w) \<and>
      (\<forall>p. p \<noteq> current k \<longrightarrow> tasks k' p = tasks k p) \<and> current k' = current k \<and>
      tasks k' (current k) = Some (t\<lparr>weight := w\<rparr>)"
  using assms by (auto simp: sys_set_weight_def sys_get_weight_def EINVAL_def res_simps)

definition demo_kernel :: kernel where
  "demo_kernel = \<lparr>tasks = [100 \<mapsto> INIT_TASK 100,
     200 \<mapsto> \<lparr>pid = 1, weight = 5, parent = 100, children = [300, 400]\<rparr>,
     300 \<mapsto> \<lparr>pid = 2, weight = 7, parent = 200, children = []\<rparr>,
     400 \<mapsto> \<lparr>pid = 3, weight = 4, parent = 200, children = [500]\<rparr>,
     500 \<mapsto> \<lparr>pid = 4, weight = 7, parent = 400, children = []\<rparr>],
     current = 200, klog = []\<rparr>"

theorem set_weight_get_weight_witness:
  "\<exists>k'. sys_set_weight 9 demo_kernel = Inr (0, k') \<and> sys_get_weight k' = Inr 9"
  using set_weight_get_weight [of demo_kernel "\<lparr>pid = 1, weight = 5, parent = 100, children = [300, 400]\<rparr>" 9]
  by (auto simp: demo_kernel_def)

text \<open>
  C20: on a process tree whose leaf weights are non-negative and sum to less than \<open>2 ^ 31\<close>,
  \<open>get_leaf_children_sum\<close> terminates and returns the sum of the weights of the leaves below
  the calling task, and \<open>-ECHILD\<close> exactly for a task without children.
\<close>

theorem leaf_children_sum_correct:
  assumes "tree_in (tasks k) t" and "root t = current k" and "height t \<le> fuel"
    and "\<forall>p \<in> set (leaves t). 0 \<le> sint (weight_of (tasks k) p)"
    and "(\<Sum>p \<leftarrow> leaves t. sint (weight_of (tasks k) p)) < 2 ^ 31"
  shows "sys_get_leaf_children_sum fuel k =
    Inr (if subtrees t = [] then -10 else (\<Sum>p \<leftarrow> leaves t. sint (weight_of (tasks k) p)))"
proof -
  have "sint (sum_list (map (weight_of (tasks k)) (leaves t)))
      = (\<Sum>p \<leftarrow> leaves t. sint (weight_of (tasks k) p))"
    using assms(4,5) sint_sum_list [of "map (weight_of (tasks k)) (leaves t)"] by (simp add: o_def)
  then show ?thesis
    using assms leaf_children_sum_tree [of k "subtrees t" fuel] by (cases t) (auto simp: ECHILD_def)
qed

theorem leaf_children_sum_correct_witness:
  "sys_get_leaf_children_sum 3 demo_kernel = Inr 14"
  using leaf_children_sum_correct
    [of demo_kernel "PNode 200 [PNode 300 [], PNode 400 [PNode 500 []]]" 3]
  by (simp add: demo_kernel_def weight_of_def)

definition overflow_kernel :: kernel where
  "overflow_kernel = \<lparr>tasks = [200 \<mapsto> \<lparr>pid = 1, weight = 0, parent = 100, children = [300, 400]\<rparr>,
     300 \<mapsto> \<lparr>pid = 2, weight = 2147483647, parent = 200, children = []\<rparr>,
     400 \<mapsto> \<lparr>pid = 3, weight = 2147483639, parent = 200, children = []\<rparr>],
     current = 200, klog = []\<rparr>"

text \<open>
  The sum is an \<open>int\<close>, so it can overflow: there are two children of non-negative weights
  for which the call returns \<open>-10\<close>, the very value of \<open>-ECHILD\<close> that means "no children".
\<close>

theorem leaf_children_sum_overflow:
  "tree_in (tasks overflow_kernel) (PNode 200 [PNode 300 [], PNode 400 []]) \<and>
   0 \<le> sint (weight_of (tasks overflow_kernel) 300) \<and>
   0 \<le> sint (weight_of (tasks overflow_kernel) 400) \<and>
   sys_get_leaf_children_sum 2 overflow_kernel = Inr (- ECHILD)"
  by (simp add: overflow_kernel_def sys_get_leaf_children_sum_def ECHILD_def res_simps
      numeral_2_eq_2)

text \<open>
  C21: on a chain of ancestors that ends at pid 0, \<open>get_heaviest_ancestor\<close> terminates and
  returns the pid of an ancestor (the task itself included) of maximal weight, the closest
  one when several have it.
\<close>

theorem heaviest_ancestor_correct:
  assumes "chain (tasks k) (current k) ts" and "length ts \<le> fuel"
  shows "\<exists>as x bs. ts = as @ x # bs \<and> sys_get_heaviest_ancestor fuel k = Inr (pid x) \<and>
     (\<forall>y \<in> set as. sint (weight y) < sint (weight x)) \<and>
     (\<forall>y \<in> set bs. sint (weight y) \<le> sint (weight x))"
proof -
  from assms obtain t us where us: "ts = t # us" and t: "tasks k (current k) = Some t"
    by (cases ts) auto
  have "sys_get_heaviest_ancestor fuel k = Inr (scan_max us (weight t) (pid t))"
    using assms t us heaviest_loop_scan [OF assms, of "weight t" "pid t"]
    by (simp add: sys_get_heaviest_ancestor_def)
  with scan_max_first [of t us] us show ?thesis by auto
qed

theorem heaviest_ancestor_correct_witness:
  "sys_get_heaviest_ancestor 4 (demo_kernel\<lparr>current := 500\<rparr>) = Inr 4"
  using heaviest_ancestor_correct [of "demo_kernel\<lparr>current := 500\<rparr>"
     "[\<lparr>pid = 4, weight = 7, parent = 400, children = []\<rparr>,
       \<lparr>pid = 3, weight = 4, parent = 200, children = [500]\<rparr>,
       \<lparr>pid = 1, weight = 5, parent = 100, children = [300, 400]\<rparr>,
       \<lparr>pid = 0, weight = 0, parent = 100, children = []\<rparr>]" 4]
  by (auto simp: demo_kernel_def INIT_TASK_def Cons_eq_append_conv)

end
