(* ===== verification/Memory.thy ===== *)
theory Memory
  imports Prelude
begin

text \<open>
  The memory the allocators of \<^verbatim>\<open>virtual_memory/\<close> work on, and what they use of the operating
  system. Memory holds metadata structures (\<open>mds\<close>, by address) and bytes (\<open>data\<close>). Storing a
  structure or bytes over another structure destroys that structure (its bytes are then
  not a structure any more: reading it faults), and a structure destroys the bytes under it.
  \<open>sbrk\<close> hands out the memory between the old and the new break; whether it grants a request
  is a parameter \<open>grant\<close> (break, increment). \<open>mmap\<close> returns a region the kernel chooses,
  a parameter too.
\<close>

section \<open>Metadata and the memory list\<close>

record MallocMetadata =
  msize :: nat
  is_free :: bool
  nxt :: ptr
  prv :: ptr

record 'm cmem =
  brk0 :: nat
  brk :: nat
  regions :: "(ptr \<times> nat) list"
  mds :: "ptr \<Rightarrow> 'm option"
  data :: "ptr \<Rightarrow> byte option"

record 'm heap = "'m cmem" +
  head :: ptr
  num_free_blocks :: size_t
  num_free_bytes :: size_t
  num_allocated_blocks :: size_t
  num_allocated_bytes :: size_t
  num_meta_data_bytes :: size_t

definition SIZE_LIMIT :: nat where "SIZE_LIMIT = 10 ^ 8"

type_synonym grants = "nat \<Rightarrow> nat \<Rightarrow> bool"

section \<open>Memory operations\<close>

definition in_mem :: "('m, 'z) cmem_scheme \<Rightarrow> ptr \<Rightarrow> nat \<Rightarrow> bool" where
  "in_mem s a n \<longleftrightarrow> brk0 s \<le> a \<and> a + n \<le> brk s \<or>
     (\<exists>(b, l) \<in> set (regions s). b \<le> a \<and> a + n \<le> b + l)"

definition overlaps :: "ptr \<Rightarrow> nat \<Rightarrow> ptr \<Rightarrow> nat \<Rightarrow> bool" where
  "overlaps a n b m \<longleftrightarrow> a < b + m \<and> b < a + n"

text \<open>\<open>sbrk\<close>: \<open>None\<close> stands for \<open>(void *)-1\<close>; fresh memory is zero.\<close>

definition sbrk :: "grants \<Rightarrow> nat \<Rightarrow> ('m, 'z) cmem_scheme \<Rightarrow> ptr option \<times> ('m, 'z) cmem_scheme" where
  "sbrk grant n s =
     (if grant (brk s) n
      then (Some (brk s), s\<lparr>brk := brk s + n,
              data := (\<lambda>x. if brk s \<le> x \<and> x < brk s + n then Some 0 else data s x)\<rparr>)
      else (None, s))"

text \<open>\<open>mmap\<close>: \<open>None\<close> stands for \<open>MAP_FAILED\<close>.\<close>

definition mmap :: "(nat \<Rightarrow> ptr option) \<Rightarrow> nat \<Rightarrow> ('m, 'z) cmem_scheme \<Rightarrow> ptr option \<times> ('m, 'z) cmem_scheme" where
  "mmap mm n s =
     (case mm n of None \<Rightarrow> (None, s)
      | Some a \<Rightarrow> (Some a, s\<lparr>regions := (a, n) # regions s,
              data := (\<lambda>x. if a \<le> x \<and> x < a + n then Some 0 else data s x)\<rparr>))"

definition munmap :: "nat \<Rightarrow> ptr \<Rightarrow> nat \<Rightarrow> ('m, 'z) cmem_scheme \<Rightarrow> ('m, 'z) cmem_scheme res" where
  "munmap hs a n s =
     (if (a, n) \<in> set (regions s)
      then Inr (s\<lparr>regions := remove1 (a, n) (regions s),
              mds := (\<lambda>q. if overlaps a n q hs then None else mds s q),
              data := (\<lambda>x. if a \<le> x \<and> x < a + n then None else data s x)\<rparr>)
      else Inl Ub)"

text \<open>Writing a whole structure of \<open>hs\<close> bytes at \<open>p\<close>.\<close>

definition store_md :: "nat \<Rightarrow> ptr \<Rightarrow> 'm \<Rightarrow> ('m, 'z) cmem_scheme \<Rightarrow> ('m, 'z) cmem_scheme res" where
  "store_md hs p m s =
     (if in_mem s p hs
      then Inr (s\<lparr>mds := (\<lambda>q. if q = p then Some m else if overlaps p hs q hs then None else mds s q),
              data := (\<lambda>x. if p \<le> x \<and> x < p + hs then None else data s x)\<rparr>)
      else Inl Segv)"

text \<open>Writing fields of the structure at \<open>p\<close>.\<close>

definition upd_md :: "ptr \<Rightarrow> ('m \<Rightarrow> 'm) \<Rightarrow> ('m, 'z) cmem_scheme \<Rightarrow> ('m, 'z) cmem_scheme res" where
  "upd_md p f s = rbind (deref (mds s) p) (\<lambda>m. Inr (s\<lparr>mds := (mds s)(p \<mapsto> f m)\<rparr>))"

definition memset0 :: "nat \<Rightarrow> ptr \<Rightarrow> nat \<Rightarrow> ('m, 'z) cmem_scheme \<Rightarrow> ('m, 'z) cmem_scheme res" where
  "memset0 hs a n s =
     (if n = 0 then Inr s
      else if in_mem s a n
      then Inr (s\<lparr>mds := (\<lambda>q. if overlaps a n q hs then None else mds s q),
              data := (\<lambda>x. if a \<le> x \<and> x < a + n then Some 0 else data s x)\<rparr>)
      else Inl Segv)"

definition memmove :: "nat \<Rightarrow> ptr \<Rightarrow> ptr \<Rightarrow> nat \<Rightarrow> ('m, 'z) cmem_scheme \<Rightarrow> ('m, 'z) cmem_scheme res" where
  "memmove hs d a n s =
     (if n = 0 then Inr s
      else if in_mem s d n \<and> in_mem s a n
      then Inr (s\<lparr>mds := (\<lambda>q. if overlaps d n q hs then None else mds s q),
              data := (\<lambda>x. if d \<le> x \<and> x < d + n then data s (a + (x - d)) else data s x)\<rparr>)
      else Inl Segv)"

section \<open>Facts\<close>

lemma in_mem_brk [intro]: "brk0 s \<le> a \<Longrightarrow> a + n \<le> brk s \<Longrightarrow> in_mem s a n"
  by (simp add: in_mem_def)

lemma upd_md_Some [res_simps]:
  "mds s p = Some m \<Longrightarrow> upd_md p f s = Inr (s\<lparr>mds := (mds s)(p \<mapsto> f m)\<rparr>)"
  by (simp add: upd_md_def)

lemma upd_md_None [res_simps]: "mds s p = None \<Longrightarrow> upd_md p f s = Inl Segv"
  by (simp add: upd_md_def)

lemma sbrk_granted [res_simps]:
  "grant (brk s) n \<Longrightarrow> sbrk grant n s = (Some (brk s), s\<lparr>brk := brk s + n,
     data := (\<lambda>x. if brk s \<le> x \<and> x < brk s + n then Some 0 else data s x)\<rparr>)"
  by (simp add: sbrk_def)

lemma sbrk_refused [res_simps]: "\<not> grant (brk s) n \<Longrightarrow> sbrk grant n s = (None, s)"
  by (simp add: sbrk_def)

section \<open>The contract of an allocator\<close>

text \<open>
  What the callers of \<open>smalloc\<close> and \<open>sfree\<close> rely on. \<open>live s\<close> is the set of blocks handed out
  and not freed (start of the payload, usable size). Distinct live blocks never share a
  byte, an allocation leaves the live blocks and their bytes alone, and so does freeing
  another block.
\<close>

definition disjoint_from :: "(ptr \<times> nat) set \<Rightarrow> ptr \<Rightarrow> nat \<Rightarrow> bool" where
  "disjoint_from L p n \<longleftrightarrow> (\<forall>(q, m) \<in> L. \<not> overlaps p n q m)"

definition separate :: "(ptr \<times> nat) set \<Rightarrow> bool" where
  "separate L \<longleftrightarrow> (\<forall>(p, n) \<in> L. disjoint_from (L - {(p, n)}) p n)"

definition same_bytes :: "(ptr \<times> nat) set \<Rightarrow> (ptr \<Rightarrow> byte option) \<Rightarrow> (ptr \<Rightarrow> byte option) \<Rightarrow> bool" where
  "same_bytes L d d' \<longleftrightarrow> (\<forall>(p, n) \<in> L. \<forall>x. p \<le> x \<and> x < p + n \<longrightarrow> d' x = d x)"

lemma same_bytesD: "same_bytes L d d' \<Longrightarrow> (p, n) \<in> L \<Longrightarrow> p \<le> x \<Longrightarrow> x < p + n \<Longrightarrow> d' x = d x"
  by (auto simp: same_bytes_def)

datatype request = Malloc nat | Free ptr

text \<open>A client runs requests; an honest one frees only null or live pointers.\<close>

fun run_requests :: "(nat \<Rightarrow> 's \<Rightarrow> (ptr \<times> 's) res) \<Rightarrow> (ptr \<Rightarrow> 's \<Rightarrow> 's res) \<Rightarrow> request list \<Rightarrow> 's \<Rightarrow> 's res" where
  "run_requests malloc free [] s = Inr s"
| "run_requests malloc free (Malloc n # rs) s = rbind (malloc n s) (\<lambda>(p, s'). run_requests malloc free rs s')"
| "run_requests malloc free (Free p # rs) s = rbind (free p s) (\<lambda>s'. run_requests malloc free rs s')"

fun honest :: "(nat \<Rightarrow> 's \<Rightarrow> (ptr \<times> 's) res) \<Rightarrow> (ptr \<Rightarrow> 's \<Rightarrow> 's res) \<Rightarrow> ('s \<Rightarrow> (ptr \<times> nat) set) \<Rightarrow>
    request list \<Rightarrow> 's \<Rightarrow> bool" where
  "honest malloc free live [] s \<longleftrightarrow> True"
| "honest malloc free live (Malloc n # rs) s \<longleftrightarrow>
     (case malloc n s of Inl e \<Rightarrow> True | Inr (p, s') \<Rightarrow> honest malloc free live rs s')"
| "honest malloc free live (Free p # rs) s \<longleftrightarrow> (p = 0 \<or> p \<in> fst ` live s) \<and>
     (case free p s of Inl e \<Rightarrow> True | Inr s' \<Rightarrow> honest malloc free live rs s')"

lemma separate_insert:
  "separate L \<Longrightarrow> disjoint_from L p m \<Longrightarrow> separate (insert (p, m) L)"
  by (fastforce simp: separate_def disjoint_from_def overlaps_def)

lemma separate_subset: "separate L \<Longrightarrow> L' \<subseteq> L \<Longrightarrow> separate L'"
  by (fastforce simp: separate_def disjoint_from_def)

locale allocator =
  fixes ok :: "'s \<Rightarrow> bool"
    and live :: "'s \<Rightarrow> (ptr \<times> nat) set"
    and bytes :: "'s \<Rightarrow> ptr \<Rightarrow> byte option"
    and malloc :: "nat \<Rightarrow> 's \<Rightarrow> (ptr \<times> 's) res"
    and free :: "ptr \<Rightarrow> 's \<Rightarrow> 's res"
  assumes malloc_law: "ok s \<Longrightarrow> \<exists>p s'. malloc n s = Inr (p, s') \<and> ok s' \<and>
       same_bytes (live s) (bytes s) (bytes s') \<and>
       (if p = 0 then live s' = live s
        else \<exists>m. n \<le> m \<and> 0 < n \<and> disjoint_from (live s) p m \<and> live s' = insert (p, m) (live s))"
    and free_law: "ok s \<Longrightarrow> (p, m) \<in> live s \<Longrightarrow> \<exists>s'. free p s = Inr s' \<and> ok s' \<and>
       live s' = live s - {(p, m)} \<and> same_bytes (live s') (bytes s) (bytes s')"
    and free_null: "ok s \<Longrightarrow> free 0 s = Inr s"
    and live_nonempty: "ok s \<Longrightarrow> (p, m) \<in> live s \<Longrightarrow> 0 < m \<and> 0 < p"
begin

lemma run_separate:
  "ok s \<Longrightarrow> separate (live s) \<Longrightarrow> honest malloc free live rs s \<Longrightarrow>
   \<exists>s'. run_requests malloc free rs s = Inr s' \<and> ok s' \<and> separate (live s')"
proof (induction rs arbitrary: s)
  case Nil
  then show ?case by simp
next
  case (Cons r rs)
  show ?case
  proof (cases r)
    case (Malloc n)
    from malloc_law [OF Cons.prems(1), of n] obtain p s' where s': "malloc n s = Inr (p, s')" "ok s'"
      "if p = 0 then live s' = live s
       else \<exists>m. n \<le> m \<and> 0 < n \<and> disjoint_from (live s) p m \<and> live s' = insert (p, m) (live s)"
      by blast
    then have "separate (live s')"
      using Cons.prems(2) by (auto intro: separate_insert split: if_splits)
    with Cons s' Malloc show ?thesis by simp
  next
    case (Free p)
    show ?thesis
    proof (cases "p = 0")
      case True
      with Cons Free free_null [OF Cons.prems(1)] show ?thesis by simp
    next
      case False
      with Cons.prems(3) Free obtain m where "(p, m) \<in> live s" by auto
      from free_law [OF Cons.prems(1) this] obtain s' where s': "free p s = Inr s'" "ok s'"
        "live s' = live s - {(p, m)}" by blast
      then have "separate (live s')" using Cons.prems(2) by (auto intro: separate_subset)
      with Cons s' Free show ?thesis by simp
    qed
  qed
qed

text \<open>
  What a reallocation does with an allocator: a block \<open>q\<close> obtained by \<open>malloc\<close>, the \<open>m\<close> bytes of
  the old block \<open>p\<close> copied there, and \<open>p\<close> freed.
\<close>

lemma move_block:
  assumes s: "ok s" "(p, m) \<in> live s" and s1: "same_bytes (live s) (bytes s) (bytes s1)"
    and q: "disjoint_from (live s) q k" "live s1 = insert (q, k) (live s)" "m \<le> k"
    and s2: "ok s2" "live s2 = live s1"
      "\<forall>x. bytes s2 x = (if q \<le> x \<and> x < q + m then bytes s1 (p + (x - q)) else bytes s1 x)"
  shows "\<exists>s3. free p s2 = Inr s3 \<and> ok s3 \<and> live s3 = insert (q, k) (live s - {(p, m)}) \<and>
    disjoint_from (live s - {(p, m)}) q k \<and> (\<forall>i < m. bytes s3 (q + i) = bytes s (p + i)) \<and>
    same_bytes (live s - {(p, m)}) (bytes s) (bytes s3)"
proof -
  have in1: "(q, k) \<in> live s1" "(p, m) \<in> live s1" using q(2) s(2) by auto
  with free_law [OF s2(1), of p m] s2(2) obtain s3 where s3: "free p s2 = Inr s3" "ok s3"
    "live s3 = live s1 - {(p, m)}" "same_bytes (live s3) (bytes s2) (bytes s3)" by auto
  have qp: "(q, k) \<noteq> (p, m)"
    using q(1) s(2) live_nonempty [OF s] by (auto simp: disjoint_from_def overlaps_def)
  have live3: "live s3 = insert (q, k) (live s - {(p, m)})" using s3(3) q(2) qp by auto
  have "bytes s3 (q + x) = bytes s (p + x)" if "x < m" for x
  proof -
    have "bytes s3 (q + x) = bytes s2 (q + x)"
      using same_bytesD [OF s3(4), of q k "q + x"] live3 that q(3) by simp
    also have "\<dots> = bytes s1 (p + x)" using s2(3) that by simp
    finally show ?thesis using same_bytesD [OF s1 s(2), of "p + x"] that by simp
  qed
  moreover have "bytes s3 x = bytes s x" if r: "(r, j) \<in> live s - {(p, m)}" and x: "r \<le> x" "x < r + j" for r j x
  proof -
    have "\<not> (q \<le> x \<and> x < q + m)"
      using q(1,3) r x by (fastforce simp: disjoint_from_def overlaps_def)
    then have "bytes s2 x = bytes s1 x" using s2(3) by auto
    moreover have "bytes s3 x = bytes s2 x" using same_bytesD [OF s3(4), of r j x] live3 r x by auto
    ultimately show ?thesis using same_bytesD [OF s1, of r j x] r x by auto
  qed
  then have "same_bytes (live s - {(p, m)}) (bytes s) (bytes s3)" by (auto simp: same_bytes_def)
  moreover have "disjoint_from (live s - {(p, m)}) q k" using q(1) by (auto simp: disjoint_from_def)
  ultimately show ?thesis using s3(1,2) live3 by blast
qed

end

end
