(* ===== verification/Linked.thy ===== *)
theory Linked
  imports Memory
begin

text \<open>
  Doubly linked lists of metadata structures. A list in memory is abstracted to the list of
  its node addresses: \<open>dll L pr xs e\<close> says that the nodes \<open>xs\<close> are linked in this order, that
  the first has the previous pointer \<open>pr\<close> and the last the next pointer \<open>e\<close>. The links \<open>L\<close>
  are read off the metadata, so updates of other fields do not matter.
\<close>

named_theorems dll_simps "links and doubly linked lists"

definition links :: "(ptr \<Rightarrow> 'z MallocMetadata_scheme option) \<Rightarrow> ptr \<Rightarrow> (ptr \<times> ptr) option" where
  "links h a = map_option (\<lambda>m. (nxt m, prv m)) (h a)"

definition info :: "(ptr \<Rightarrow> 'z MallocMetadata_scheme option) \<Rightarrow> ptr \<Rightarrow> (nat \<times> bool) option" where
  "info h a = map_option (\<lambda>m. (msize m, is_free m)) (h a)"

fun hd_or :: "ptr list \<Rightarrow> ptr \<Rightarrow> ptr" where
  "hd_or [] e = e"
| "hd_or (x # xs) e = x"

fun last_or :: "ptr \<Rightarrow> ptr list \<Rightarrow> ptr" where
  "last_or e [] = e"
| "last_or e (x # xs) = last_or x xs"

fun dll :: "(ptr \<Rightarrow> (ptr \<times> ptr) option) \<Rightarrow> ptr \<Rightarrow> ptr list \<Rightarrow> ptr \<Rightarrow> bool" where
  "dll L pr [] e \<longleftrightarrow> True"
| "dll L pr (x # xs) e \<longleftrightarrow> L x = Some (hd_or xs e, pr) \<and> dll L x xs e"

lemma hd_or_append [simp]: "hd_or (xs @ ys) e = hd_or xs (hd_or ys e)"
  by (cases xs) auto

lemma last_or_append [simp]: "last_or e (xs @ ys) = last_or (last_or e xs) ys"
  by (induction xs arbitrary: e) auto

lemma hd_or_hd [simp]: "xs \<noteq> [] \<Longrightarrow> hd_or xs e = hd xs"
  by (cases xs) auto

lemma last_or_last [simp]: "xs \<noteq> [] \<Longrightarrow> last_or e xs = last xs"
  by (induction xs arbitrary: e) auto

lemma dll_append [dll_simps]:
  "dll L pr (xs @ ys) e \<longleftrightarrow> dll L pr xs (hd_or ys e) \<and> dll L (last_or pr xs) ys e"
  by (induction xs arbitrary: pr) auto

lemma dll_cong: "(\<And>x. x \<in> set xs \<Longrightarrow> L' x = L x) \<Longrightarrow> dll L' pr xs e = dll L pr xs e"
  by (induction xs arbitrary: pr) auto

lemma dll_other [dll_simps]: "x \<notin> set xs \<Longrightarrow> dll (L(x := v)) pr xs e = dll L pr xs e"
  by (rule dll_cong) auto

lemma dll_mem: "dll L pr xs e \<Longrightarrow> x \<in> set xs \<Longrightarrow> \<exists>n p. L x = Some (n, p)"
  by (induction xs arbitrary: pr) auto

lemma dll_split:
  assumes "dll L pr (xs @ x # ys) e"
  shows "L x = Some (hd_or ys e, last_or pr xs)"
  using assms by (simp add: dll_simps)

text \<open>Reading and writing fields.\<close>

lemma links_upd [dll_simps]:
  "links (h(a \<mapsto> m)) = (links h)(a \<mapsto> (nxt m, prv m))"
  by (auto simp: links_def)

lemma info_upd [dll_simps]:
  "info (h(a \<mapsto> m)) = (info h)(a \<mapsto> (msize m, is_free m))"
  by (auto simp: info_def)

lemma links_SomeD: "links h a = Some (n, p) \<Longrightarrow> \<exists>m. h a = Some m \<and> nxt m = n \<and> prv m = p"
  by (auto simp: links_def)

lemma info_SomeD: "info h a = Some (n, f) \<Longrightarrow> \<exists>m. h a = Some m \<and> msize m = n \<and> is_free m = f"
  by (auto simp: info_def)

lemma upd_same_links: "h a = Some m \<Longrightarrow> nxt m' = nxt m \<Longrightarrow> prv m' = prv m \<Longrightarrow> links (h(a \<mapsto> m')) = links h"
  by (auto simp: links_def)

lemma upd_same_info: "h a = Some m \<Longrightarrow> msize m' = msize m \<Longrightarrow> is_free m' = is_free m \<Longrightarrow> info (h(a \<mapsto> m')) = info h"
  by (auto simp: info_def)

text \<open>Changing the next pointer of the last node moves the end of a segment.\<close>

lemma dll_set_end:
  assumes "dll L pr (xs @ [x]) e" and "distinct (xs @ [x])" and "L x = Some (e, p)"
  shows "dll (L(x \<mapsto> (e', p))) pr (xs @ [x]) e'"
  using assms by (auto simp: dll_simps)

text \<open>Changing the previous pointer of the first node moves the start.\<close>

lemma dll_set_start:
  assumes "dll L pr (x # xs) e" and "x \<notin> set xs" and "L x = Some (n, pr)"
  shows "dll (L(x \<mapsto> (n, pr'))) pr' (x # xs) e"
  using assms by (auto simp: dll_simps)

section \<open>Blocks in address order\<close>

text \<open>A block is its metadata address, its payload size and whether it is free.\<close>

type_synonym block = "ptr \<times> nat \<times> bool"

definition blocks_in :: "(ptr \<Rightarrow> 'z MallocMetadata_scheme option) \<Rightarrow> block list \<Rightarrow> bool" where
  "blocks_in h bs \<longleftrightarrow> (\<forall>(a, n, f) \<in> set bs. info h a = Some (n, f))"

lemma blocks_in_append [simp]: "blocks_in h (us @ vs) \<longleftrightarrow> blocks_in h us \<and> blocks_in h vs"
  by (simp add: blocks_in_def ball_Un)

lemma blocks_in_Cons [simp]: "blocks_in h ((a, n, f) # bs) \<longleftrightarrow> info h a = Some (n, f) \<and> blocks_in h bs"
  by (auto simp: blocks_in_def)

lemma blocks_in_Nil [simp]: "blocks_in h []"
  by (simp add: blocks_in_def)

lemma blocks_in_cong:
  "(\<And>a. a \<in> fst ` set bs \<Longrightarrow> info h' a = info h a) \<Longrightarrow> blocks_in h' bs = blocks_in h bs"
  by (force simp: blocks_in_def)

lemma blocks_in_flag:
  assumes "blocks_in h (us @ (p, m, f) # vs)" and "distinct (map fst (us @ (p, m, f) # vs))"
    and "h p = Some md"
  shows "blocks_in (h(p \<mapsto> md\<lparr>is_free := g\<rparr>)) (us @ (p, m, g) # vs)"
proof -
  have eq: "blocks_in (h(p \<mapsto> md\<lparr>is_free := g\<rparr>)) cs = blocks_in h cs" if "p \<notin> fst ` set cs" for cs
    using that by (intro blocks_in_cong) (auto simp: dll_simps)
  have "p \<notin> fst ` set us" and "p \<notin> fst ` set vs" using assms(2) by auto
  moreover have "msize md = m" using assms(1,3) by (auto simp: info_def)
  ultimately show ?thesis using assms(1) eq by (simp add: dll_simps)
qed

text \<open>The blocks lie one after the other between \<open>lo\<close> and \<open>hi\<close>, with headers of \<open>hs\<close> bytes.\<close>

fun laid :: "nat \<Rightarrow> nat \<Rightarrow> nat \<Rightarrow> block list \<Rightarrow> bool" where
  "laid hs lo hi [] \<longleftrightarrow> lo \<le> hi"
| "laid hs lo hi ((a, n, f) # bs) \<longleftrightarrow> lo \<le> a \<and> 0 < n \<and> laid hs (a + hs + n) hi bs"

lemma laid_le: "laid hs lo hi bs \<Longrightarrow> lo \<le> hi"
  by (induction bs arbitrary: lo) fastforce+

lemma laid_bounds: "laid hs lo hi bs \<Longrightarrow> (a, n, f) \<in> set bs \<Longrightarrow> lo \<le> a \<and> a + hs + n \<le> hi"
proof (induction bs arbitrary: lo)
  case (Cons b bs)
  obtain a' n' f' where b: "b = (a', n', f')" by (cases b)
  have hi: "lo' \<le> hi" if "laid hs lo' hi bs" for lo'
    using that by (induction bs arbitrary: lo') fastforce+
  from Cons b show ?case
    by (fastforce dest: hi)
qed simp

lemma laid_size_pos: "laid hs lo hi bs \<Longrightarrow> (a, n, f) \<in> set bs \<Longrightarrow> 0 < n"
proof (induction bs arbitrary: lo)
  case (Cons b bs)
  then show ?case by (cases b) auto
qed simp

lemma laid_append:
  "laid hs lo hi (us @ vs) \<longleftrightarrow> (\<exists>mid. laid hs lo mid us \<and> laid hs mid hi vs)"
proof (induction us arbitrary: lo)
  case Nil
  have "laid hs mid hi vs \<Longrightarrow> lo \<le> mid \<Longrightarrow> laid hs lo hi vs" for mid
    by (cases vs) auto
  then show ?case by auto
next
  case (Cons u us)
  then show ?case by (cases u) auto
qed

lemma laid_sorted: "laid hs lo hi bs \<Longrightarrow> sorted_wrt (\<lambda>(a, n, f) (b, m, g). a + hs + n \<le> b) bs"
proof (induction bs arbitrary: lo)
  case (Cons b bs)
  obtain a n f where b: "b = (a, n, f)" by (cases b)
  with Cons.prems have "laid hs (a + hs + n) hi bs" by simp
  then show ?case using Cons.IH b by (auto dest: laid_bounds)
qed simp

lemma laid_distinct:
  assumes "laid hs lo hi bs"
  shows "distinct (map fst bs)"
  using assms
proof (induction bs arbitrary: lo)
  case (Cons b bs)
  obtain a n f where b: "b = (a, n, f)" by (cases b)
  with Cons.prems have "laid hs (a + hs + n) hi bs" and "0 < n" by auto
  with Cons.IH b show ?case by (fastforce dest: laid_bounds)
qed simp

text \<open>Two blocks of a laid-out heap do not overlap.\<close>

lemma laid_apart:
  assumes "laid hs lo hi bs" and "(a, n, f) \<in> set bs" and "(b, m, g) \<in> set bs" and "a \<noteq> b"
  shows "a + hs + n \<le> b \<or> b + hs + m \<le> a"
  using assms
proof (induction bs arbitrary: lo)
  case (Cons x xs)
  obtain c k e where x: "x = (c, k, e)" by (cases x)
  with Cons.prems(1) have l: "laid hs (c + hs + k) hi xs" by simp
  show ?case
    using Cons x l laid_bounds [OF l] by auto
qed simp

lemma laid_flag: "laid hs lo hi (us @ (a, n, f) # vs) \<longleftrightarrow> laid hs lo hi (us @ (a, n, g) # vs)"
  by (simp add: laid_append)

section \<open>Counters\<close>

definition free_of :: "block list \<Rightarrow> block list" where
  "free_of bs = filter (\<lambda>(a, n, f). f) bs"

definition bytes_of :: "block list \<Rightarrow> nat" where
  "bytes_of bs = (\<Sum>(a, n, f) \<leftarrow> bs. n)"

text \<open>The counters of the memory list say what the blocks \<open>bs\<close> say.\<close>

definition counters :: "nat \<Rightarrow> block list \<Rightarrow> ('m, 'z) heap_scheme \<Rightarrow> bool" where
  "counters hs bs s \<longleftrightarrow>
     num_free_blocks s = of_nat (length (free_of bs)) \<and>
     num_free_bytes s = of_nat (bytes_of (free_of bs)) \<and>
     num_allocated_blocks s = of_nat (length bs) \<and>
     num_allocated_bytes s = of_nat (bytes_of bs) \<and>
     num_meta_data_bytes s = of_nat (hs * length bs)"

lemma free_of_simps [simp]:
  "free_of [] = []"
  "free_of ((a, n, f) # bs) = (if f then (a, n, f) # free_of bs else free_of bs)"
  "free_of (us @ vs) = free_of us @ free_of vs"
  by (auto simp: free_of_def)

lemma bytes_of_simps [simp]:
  "bytes_of [] = 0"
  "bytes_of ((a, n, f) # bs) = n + bytes_of bs"
  "bytes_of (us @ vs) = bytes_of us + bytes_of vs"
  by (auto simp: bytes_of_def)

text \<open>The live blocks: payloads of the blocks in use.\<close>

definition live_of :: "nat \<Rightarrow> block list \<Rightarrow> (ptr \<times> nat) set" where
  "live_of hs bs = {(a + hs, n) | a n. (a, n, False) \<in> set bs}"

lemma live_of_iff: "(p, n) \<in> live_of hs bs \<longleftrightarrow> hs \<le> p \<and> (p - hs, n, False) \<in> set bs"
  by (force simp: live_of_def)

lemma live_of_simps [simp]:
  "live_of hs [] = {}"
  "live_of hs ((a, n, f) # bs) = (if f then live_of hs bs else insert (a + hs, n) (live_of hs bs))"
  "live_of hs (us @ vs) = live_of hs us \<union> live_of hs vs"
  by (auto simp: live_of_def)

lemma laid_length: "laid hs lo hi bs \<Longrightarrow> lo + length bs \<le> hi"
  by (induction bs arbitrary: lo) fastforce+

lemma laid_live_bounds:
  "laid hs lo hi bs \<Longrightarrow> (p, n) \<in> live_of hs bs \<Longrightarrow> lo + hs \<le> p \<and> p + n \<le> hi \<and> 0 < n"
proof (induction bs arbitrary: lo)
  case (Cons b bs)
  obtain a m f where b: "b = (a, m, f)" by (cases b)
  with Cons.prems have "laid hs (a + hs + m) hi bs" "lo \<le> a" "0 < m" by auto
  with Cons b laid_le [of hs "a + hs + m" hi bs] show ?case by (fastforce split: if_splits)
qed simp

text \<open>A block of a laid-out heap shares no byte with the other live blocks.\<close>

lemma laid_disjoint_from:
  assumes "laid hs lo hi (us @ (p, m, f) # vs)"
  shows "disjoint_from (live_of hs us \<union> live_of hs vs) (p + hs) m"
proof -
  from assms obtain mid where 1: "laid hs lo mid us" "mid \<le> p" "laid hs (p + hs + m) hi vs"
    by (auto simp: laid_append)
  then show ?thesis
    by (fastforce simp: disjoint_from_def overlaps_def dest: laid_live_bounds)
qed

lemma laid_notin_live:
  assumes "laid hs lo hi (us @ (p, m, f) # vs)"
  shows "(p + hs, n) \<notin> live_of hs us \<union> live_of hs vs"
  using laid_disjoint_from [OF assms] assms
  by (fastforce simp: disjoint_from_def overlaps_def laid_append dest: laid_live_bounds)

text \<open>Reading the list of blocks off the memory.\<close>

fun walk :: "nat \<Rightarrow> (ptr \<Rightarrow> 'z MallocMetadata_scheme option) \<Rightarrow> ptr \<Rightarrow> block list" where
  "walk fuel h p = (if fuel = 0 \<or> p = NULL then []
     else case h p of None \<Rightarrow> [] | Some m \<Rightarrow> (p, msize m, is_free m) # walk (fuel - 1) h (nxt m))"

declare walk.simps [simp del]

lemma walk_blocks:
  assumes "dll (links h) pr (map fst bs) NULL" and "blocks_in h bs"
    and "\<forall>b \<in> set bs. fst b \<noteq> NULL" and "length bs \<le> fuel"
  shows "walk fuel h (hd_or (map fst bs) NULL) = bs"
  using assms
proof (induction bs arbitrary: fuel pr)
  case Nil
  show ?case by (simp add: walk.simps)
next
  case (Cons b bs)
  obtain a m f where b: "b = (a, m, f)" by (cases b)
  with Cons.prems obtain md where "h a = Some md" "nxt md = hd_or (map fst bs) NULL"
    "msize md = m" "is_free md = f"
    by (auto dest!: links_SomeD info_SomeD)
  moreover have "walk (fuel - 1) h (hd_or (map fst bs) NULL) = bs"
    using Cons b by auto
  ultimately show ?case using b Cons.prems by (simp add: walk.simps [of fuel])
qed

end
