(* ===== verification/Malloc2.thy ===== *)
theory Malloc2
  imports Linked
begin

text \<open>
  The allocators of \<^verbatim>\<open>virtual_memory/malloc_1.cpp\<close> and \<^verbatim>\<open>virtual_memory/malloc_2.cpp\<close>. The first only moves
  the break. The second keeps a doubly linked list of blocks in address order, each a
  32-byte metadata structure before its payload, reuses the first free block that is large
  enough and appends a new block otherwise. The abstract heap is the list of blocks
  (address, payload size, free); every operation is shown to refine a function on it.
\<close>

section \<open>malloc_1.cpp\<close>

definition smalloc_1 :: "grants \<Rightarrow> nat \<Rightarrow> 'm cmem \<Rightarrow> ptr \<times> 'm cmem" where
  "smalloc_1 grant sz s =
     (if sz = 0 \<or> sz > SIZE_LIMIT then (NULL, s)
      else case sbrk grant sz s of (None, s') \<Rightarrow> (NULL, s') | (Some address, s') \<Rightarrow> (address, s'))"

section \<open>malloc_2.cpp\<close>

definition META_2 :: nat where "META_2 = 32"

lemma META_2_pos [simp]: "0 < META_2" "META_2 \<noteq> 0"
  by (simp_all add: META_2_def)

type_synonym heap_2 = "MallocMetadata heap"

definition empty_heap_2 :: "nat \<Rightarrow> heap_2" where
  "empty_heap_2 b = \<lparr>brk0 = b, brk = b, regions = [], mds = Map.empty, data = Map.empty, head = NULL,
     num_free_blocks = 0, num_free_bytes = 0, num_allocated_blocks = 0, num_allocated_bytes = 0,
     num_meta_data_bytes = 0\<rparr>"

definition newAllocAdjustment_2 :: "nat \<Rightarrow> heap_2 \<Rightarrow> heap_2" where
  "newAllocAdjustment_2 sz s = s\<lparr>num_allocated_blocks := num_allocated_blocks s + 1,
     num_allocated_bytes := num_allocated_bytes s + of_nat sz,
     num_meta_data_bytes := num_meta_data_bytes s + of_nat META_2\<rparr>"

definition firstAllocation_2 :: "grants \<Rightarrow> nat \<Rightarrow> heap_2 \<Rightarrow> (ptr \<times> heap_2) res" where
  "firstAllocation_2 grant sz s =
     (case sbrk grant (sz_add sz META_2) s of
        (None, s) \<Rightarrow> Inr (NULL, s)
      | (Some a, s) \<Rightarrow>
          rbind (store_md META_2 a \<lparr>msize = sz, is_free = False, nxt = NULL, prv = NULL\<rparr> (s\<lparr>head := a\<rparr>))
            (\<lambda>s. Inr (a + META_2, newAllocAdjustment_2 sz s)))"

text \<open>The search loop: the first block that fits (\<open>True\<close>), or the last block of the list.\<close>

fun search_2 :: "nat \<Rightarrow> (ptr \<Rightarrow> MallocMetadata option) \<Rightarrow> nat \<Rightarrow> ptr \<Rightarrow> (ptr \<times> bool) res" where
  "search_2 fuel h sz p =
     (if fuel = 0 then Inl Fuel
      else rbind (deref h p) (\<lambda>m.
        if is_free m \<and> msize m \<ge> sz then Inr (p, True)
        else if nxt m = NULL then Inr (p, False)
        else search_2 (fuel - 1) h sz (nxt m)))"

declare search_2.simps [simp del]

definition smalloc_2 :: "nat \<Rightarrow> grants \<Rightarrow> nat \<Rightarrow> heap_2 \<Rightarrow> (ptr \<times> heap_2) res" where
  "smalloc_2 fuel grant sz s =
     (if sz = 0 \<or> sz > SIZE_LIMIT then Inr (NULL, s)
      else if head s = NULL then firstAllocation_2 grant sz s
      else rbind (search_2 fuel (mds s) sz (head s)) (\<lambda>(p, found).
        if found then
          rbind (deref (mds s) p) (\<lambda>m.
          rbind (upd_md p (is_free_update (\<lambda>_. False)) s) (\<lambda>s.
            Inr (p + META_2, s\<lparr>num_free_blocks := num_free_blocks s - 1,
                               num_free_bytes := num_free_bytes s - of_nat (msize m)\<rparr>)))
        else case sbrk grant (sz_add sz META_2) s of
            (None, s) \<Rightarrow> Inr (NULL, s)
          | (Some a, s) \<Rightarrow>
              rbind (store_md META_2 a \<lparr>msize = sz, is_free = False, nxt = NULL, prv = p\<rparr> s) (\<lambda>s.
              rbind (upd_md p (nxt_update (\<lambda>_. a)) s) (\<lambda>s.
                Inr (a + META_2, newAllocAdjustment_2 sz s)))))"

definition scalloc_2 :: "nat \<Rightarrow> grants \<Rightarrow> nat \<Rightarrow> nat \<Rightarrow> heap_2 \<Rightarrow> (ptr \<times> heap_2) res" where
  "scalloc_2 fuel grant num sz s =
     (let n = (num * sz) mod 2 ^ 64 in
      rbind (smalloc_2 fuel grant n s) (\<lambda>(address, s).
        if address = NULL then Inr (NULL, s)
        else rbind (memset0 META_2 address n s) (\<lambda>s. Inr (address, s))))"

definition sfree_2 :: "ptr \<Rightarrow> heap_2 \<Rightarrow> heap_2 res" where
  "sfree_2 p s =
     (if p = NULL then Inr s
      else rbind (deref (mds s) (p - META_2)) (\<lambda>m.
        if is_free m = False then
          rbind (upd_md (p - META_2) (is_free_update (\<lambda>_. True)) s) (\<lambda>s.
            Inr (s\<lparr>num_free_blocks := num_free_blocks s + 1,
                   num_free_bytes := num_free_bytes s + of_nat (msize m)\<rparr>))
        else Inr s))"

definition srealloc_2 :: "nat \<Rightarrow> grants \<Rightarrow> ptr \<Rightarrow> nat \<Rightarrow> heap_2 \<Rightarrow> (ptr \<times> heap_2) res" where
  "srealloc_2 fuel grant oldp sz s =
     (if oldp = NULL then smalloc_2 fuel grant sz s
      else rbind (deref (mds s) (oldp - META_2)) (\<lambda>m.
        if msize m \<ge> sz then Inr (oldp, s)
        else rbind (smalloc_2 fuel grant sz s) (\<lambda>(newp, s).
          if newp = NULL then Inr (NULL, s)
          else rbind (deref (mds s) (oldp - META_2)) (\<lambda>m.
               rbind (memmove META_2 newp oldp (msize m) s) (\<lambda>s.
               rbind (sfree_2 oldp s) (\<lambda>s. Inr (newp, s)))))))"

definition num_free_blocks_2 :: "heap_2 \<Rightarrow> size_t" where "num_free_blocks_2 s = num_free_blocks s"
definition num_free_bytes_2 :: "heap_2 \<Rightarrow> size_t" where "num_free_bytes_2 s = num_free_bytes s"
definition num_allocated_blocks_2 :: "heap_2 \<Rightarrow> size_t" where "num_allocated_blocks_2 s = num_allocated_blocks s"
definition num_allocated_bytes_2 :: "heap_2 \<Rightarrow> size_t" where "num_allocated_bytes_2 s = num_allocated_bytes s"
definition num_meta_data_bytes_2 :: "heap_2 \<Rightarrow> size_t" where "num_meta_data_bytes_2 s = num_meta_data_bytes s"
definition size_meta_data_2 :: size_t where "size_meta_data_2 = of_nat META_2"

section \<open>The abstract heap\<close>

text \<open>The linked list of the heap holds the blocks \<open>bs\<close>, in address order.\<close>

definition shape_2 :: "heap_2 \<Rightarrow> block list \<Rightarrow> bool" where
  "shape_2 s bs \<longleftrightarrow> head s = hd_or (map fst bs) NULL \<and> dll (links (mds s)) NULL (map fst bs) NULL \<and>
     blocks_in (mds s) bs \<and> laid META_2 (brk0 s) (brk s) bs \<and> 0 < brk0 s"

definition rep_2 :: "heap_2 \<Rightarrow> block list \<Rightarrow> bool" where
  "rep_2 s bs \<longleftrightarrow> shape_2 s bs \<and> counters META_2 bs s"

text \<open>The abstract operations.\<close>

fun take_fit :: "nat \<Rightarrow> block list \<Rightarrow> (ptr \<times> block list) option" where
  "take_fit n [] = None"
| "take_fit n ((a, m, f) # bs) =
     (if f \<and> m \<ge> n then Some (a, (a, m, False) # bs)
      else map_option (\<lambda>(p, bs'). (p, (a, m, f) # bs')) (take_fit n bs))"

definition alloc_spec :: "nat \<Rightarrow> grants \<Rightarrow> nat \<Rightarrow> nat \<Rightarrow> block list \<Rightarrow> ptr \<times> nat \<times> block list" where
  "alloc_spec hs grant b n bs =
     (if n = 0 \<or> n > SIZE_LIMIT then (NULL, b, bs)
      else case take_fit n bs of
          Some (p, bs') \<Rightarrow> (p + hs, b, bs')
        | None \<Rightarrow> if grant b (n + hs) then (b + hs, b + (n + hs), bs @ [(b, n, False)]) else (NULL, b, bs))"

fun free_spec :: "nat \<Rightarrow> ptr \<Rightarrow> block list \<Rightarrow> block list" where
  "free_spec hs p [] = []"
| "free_spec hs p ((a, n, f) # bs) = (if a + hs = p then (a, n, True) # bs else (a, n, f) # free_spec hs p bs)"

section \<open>The code refines the abstract operations\<close>

lemma take_fit_Some:
  "take_fit n bs = Some (p, bs') \<Longrightarrow>
   \<exists>us m vs. bs = us @ (p, m, True) # vs \<and> n \<le> m \<and> bs' = us @ (p, m, False) # vs"
proof (induction bs arbitrary: bs')
  case (Cons b bs)
  obtain a m f where b: "b = (a, m, f)" by (cases b)
  show ?case
  proof (cases "f \<and> n \<le> m")
    case True
    with Cons.prems b show ?thesis by (intro exI [of _ "[]"]) auto
  next
    case False
    with Cons.prems b obtain cs where cs: "take_fit n bs = Some (p, cs)" "bs' = b # cs"
      by (auto split: if_splits)
    from Cons.IH [OF cs(1)] obtain us k vs where
      "bs = us @ (p, k, True) # vs" "n \<le> k" "cs = us @ (p, k, False) # vs" by auto
    with cs(2) show ?thesis by (intro exI [of _ "b # us"]) auto
  qed
qed simp

lemma search_2_spec:
  assumes "dll (links h) pr (map fst bs) NULL" and "blocks_in h bs" and "bs \<noteq> []"
    and "\<forall>b \<in> set bs. fst b \<noteq> NULL" and "length bs \<le> fuel"
  shows "search_2 fuel h n (fst (hd bs)) =
    Inr (case take_fit n bs of Some (p, bs') \<Rightarrow> (p, True) | None \<Rightarrow> (fst (last bs), False))"
  using assms
proof (induction bs arbitrary: fuel pr)
  case (Cons b bs)
  obtain a m f where b: "b = (a, m, f)" by (cases b)
  from Cons.prems b obtain md where md: "h a = Some md" "nxt md = hd_or (map fst bs) NULL"
    "msize md = m" "is_free md = f"
    by (auto dest!: links_SomeD info_SomeD simp: blocks_in_def)
  show ?case
  proof (cases "bs = []")
    case True
    with Cons.prems b md show ?thesis by (simp add: search_2.simps [of fuel])
  next
    case False
    then have nn: "0 < fst (hd bs)" and hd: "hd_or (map fst bs) NULL = fst (hd bs)"
      using Cons.prems(4) by (auto simp: hd_map)
    have "search_2 fuel h n a =
        (if f \<and> n \<le> m then Inr (a, True) else search_2 (fuel - 1) h n (fst (hd bs)))"
      using md nn hd Cons.prems(5) by (simp add: search_2.simps [of fuel])
    moreover have "search_2 (fuel - 1) h n (fst (hd bs)) =
        Inr (case take_fit n bs of Some (p, bs') \<Rightarrow> (p, True) | None \<Rightarrow> (fst (last bs), False))"
      using Cons.prems False b by (intro Cons.IH) (auto simp: blocks_in_def)
    ultimately show ?thesis
      using b False by (auto split: option.splits)
  qed
qed simp

lemma shape_2_block:
  assumes "shape_2 s (us @ (p, m, f) # vs)"
  obtains md where "mds s p = Some md" and "msize md = m" and "is_free md = f"
  using assms by (auto simp: shape_2_def blocks_in_def dest!: info_SomeD)

lemma shape_2_fst_pos: "shape_2 s bs \<Longrightarrow> b \<in> set bs \<Longrightarrow> fst b \<noteq> NULL"
  by (cases b) (auto simp: shape_2_def dest: laid_bounds)

lemma shape_2_set_flag:
  assumes "shape_2 s (us @ (p, m, f) # vs)" and "mds s p = Some md"
  shows "shape_2 (s\<lparr>mds := (mds s)(p \<mapsto> md\<lparr>is_free := g\<rparr>)\<rparr>) (us @ (p, m, g) # vs)"
proof -
  have d: "distinct (map fst (us @ (p, m, f) # vs))"
    using assms(1) laid_distinct [of META_2 "brk0 s" "brk s"] unfolding shape_2_def by blast
  have "links ((mds s)(p \<mapsto> md\<lparr>is_free := g\<rparr>)) = links (mds s)"
    using assms(2) by (intro upd_same_links) auto
  moreover have "blocks_in ((mds s)(p \<mapsto> md\<lparr>is_free := g\<rparr>)) (us @ (p, m, g) # vs)"
    by (rule blocks_in_flag [where f = f]) (use assms d in \<open>simp_all add: shape_2_def\<close>)
  ultimately show ?thesis
    using assms(1) laid_flag [of META_2 "brk0 s" "brk s" us p m f vs g]
    by (simp add: shape_2_def)
qed

lemma shape_2_counters_irrelevant [simp]:
  "shape_2 (s\<lparr>num_free_blocks := a, num_free_bytes := b\<rparr>) bs = shape_2 s bs"
  "shape_2 (newAllocAdjustment_2 n s) bs = shape_2 s bs"
  "brk (newAllocAdjustment_2 n s) = brk s" "brk0 (newAllocAdjustment_2 n s) = brk0 s"
  "data (newAllocAdjustment_2 n s) = data s" "mds (newAllocAdjustment_2 n s) = mds s"
  by (simp_all add: shape_2_def newAllocAdjustment_2_def)

text \<open>Appending a block at the break.\<close>

lemma shape_2_append:
  assumes sh: "shape_2 s bs" and n: "0 < n"
    and md: "bs \<noteq> [] \<Longrightarrow> mds s (fst (last bs)) = Some md"
    and h': "h' = (\<lambda>q. if q = brk s then Some \<lparr>msize = n, is_free = False, nxt = NULL, prv = last_or NULL (map fst bs)\<rparr>
                else if overlaps (brk s) META_2 q META_2 then None else mds s q)"
    and h'': "h'' = (if bs = [] then h' else h'(fst (last bs) \<mapsto> md\<lparr>nxt := brk s\<rparr>))"
    and s': "brk0 s' = brk0 s" "brk s' = brk s + (n + META_2)" "mds s' = h''"
      "head s' = (if bs = [] then brk s else head s)"
  shows "shape_2 s' (bs @ [(brk s, n, False)])"
proof -
  let ?as = "map fst bs"
  have laid: "laid META_2 (brk0 s) (brk s) bs" using sh by (simp add: shape_2_def)
  have below: "a + META_2 + k \<le> brk s" if "(a, k, f) \<in> set bs" for a k f
    using laid_bounds [OF laid that] by simp
  have keep: "h' a = mds s a" if "a \<in> set ?as" for a
    using that below by (fastforce simp: h' overlaps_def META_2_def)
  have notin: "brk s \<notin> set ?as" using below by (fastforce simp: META_2_def)
  have new: "h'' (brk s) = Some \<lparr>msize = n, is_free = False, nxt = NULL, prv = last_or NULL ?as\<rparr>"
    using notin by (auto simp: h'' h')
  have info_old: "info h'' a = info (mds s) a" if "a \<in> set ?as" for a
  proof (cases "bs \<noteq> [] \<and> a = fst (last bs)")
    case True
    with md show ?thesis by (simp add: h'' info_def)
  next
    case False
    with that keep show ?thesis by (auto simp: h'' info_def)
  qed
  have "dll (links h'') NULL (?as @ [brk s]) NULL"
  proof (cases "bs = []")
    case True
    with new show ?thesis by (simp add: links_def)
  next
    case False
    then obtain cs l where as: "?as = cs @ [l]" and l: "l = fst (last bs)"
      by (metis append_butlast_last_id last_map map_is_Nil_conv)
    have dist: "distinct (cs @ [l])" using laid_distinct [OF laid] as by simp
    have old: "dll (links (mds s)) NULL (cs @ [l]) NULL" using sh as by (simp add: shape_2_def)
    then have ll: "links (mds s) l = Some (NULL, last_or NULL cs)" by (simp add: dll_simps)
    have "dll ((links (mds s))(l \<mapsto> (brk s, last_or NULL cs))) NULL (cs @ [l]) (brk s)"
      by (rule dll_set_end [OF old dist ll])
    moreover have "dll (links h'') NULL (cs @ [l]) (brk s) =
        dll ((links (mds s))(l \<mapsto> (brk s, last_or NULL cs))) NULL (cs @ [l]) (brk s)"
    proof (rule dll_cong)
      fix x assume "x \<in> set (cs @ [l])"
      then show "links h'' x = ((links (mds s))(l \<mapsto> (brk s, last_or NULL cs))) x"
        using keep as md False ll l by (auto simp: h'' links_def)
    qed
    ultimately have "dll (links h'') NULL (cs @ [l]) (brk s)" by simp
    with new as show ?thesis by (simp add: dll_simps links_def)
  qed
  moreover have "blocks_in h'' (bs @ [(brk s, n, False)])"
    using sh info_old new by (fastforce simp: shape_2_def blocks_in_def info_def)
  moreover have "laid META_2 (brk0 s) (brk s + (n + META_2)) (bs @ [(brk s, n, False)])"
    using laid n by (auto simp: laid_append)
  ultimately show ?thesis
    using sh s' by (cases bs) (simp_all add: shape_2_def)
qed

text \<open>\<open>smalloc\<close> does what the abstract allocation says and leaves the bytes below the break alone.\<close>

lemma smalloc_2_refines:
  assumes rep: "rep_2 s bs" and fuel: "length bs \<le> fuel"
    and spec: "alloc_spec META_2 grant (brk s) n bs = (p, b', bs')"
  shows "\<exists>s'. smalloc_2 fuel grant n s = Inr (p, s') \<and> rep_2 s' bs' \<and> brk s' = b' \<and>
    brk0 s' = brk0 s \<and> (\<forall>x < brk s. data s' x = data s x)"
proof (cases "n = 0 \<or> n > SIZE_LIMIT")
  case True
  with assms show ?thesis by (auto simp: smalloc_2_def alloc_spec_def)
next
  case False
  then have n: "0 < n" "n \<le> SIZE_LIMIT" by auto
  then have add: "sz_add n META_2 = n + META_2"
    by (simp add: sz_simps SIZE_LIMIT_def META_2_def)
  from rep have sh: "shape_2 s bs" and cnt: "counters META_2 bs s" by (simp_all add: rep_2_def)
  have mem: "in_mem (s\<lparr>brk := brk s + (n + META_2), data := d\<rparr>) (brk s) META_2" for d
    using sh laid_append [of META_2 "brk0 s" "brk s" bs "[]"] laid_le [of META_2 "brk0 s" "brk s" bs]
    by (auto simp: shape_2_def in_mem_def)
  show ?thesis
  proof (cases "take_fit n bs")
    case (Some r)
    then obtain cs where r: "take_fit n bs = Some (fst r, cs)" by (cases r) auto
    from take_fit_Some [OF this] obtain us m vs where
      split: "bs = us @ (fst r, m, True) # vs" "cs = us @ (fst r, m, False) # vs" by blast
    obtain md where md: "mds s (fst r) = Some md" "msize md = m" "is_free md = True"
      using sh split by (auto elim: shape_2_block)
    have ne: "bs \<noteq> []" using split by simp
    then have hd: "head s = fst (hd bs)" "head s \<noteq> NULL"
      using sh shape_2_fst_pos [OF sh, of "hd bs"] by (auto simp: shape_2_def hd_map)
    have srch: "search_2 fuel (mds s) n (head s) = Inr (fst r, True)"
      using search_2_spec [of "mds s" NULL bs fuel n] sh ne fuel r hd shape_2_fst_pos [OF sh]
      by (auto simp: shape_2_def)
    have "shape_2 (s\<lparr>mds := (mds s)(fst r \<mapsto> md\<lparr>is_free := False\<rparr>)\<rparr>) cs"
      using shape_2_set_flag [of s us "fst r" m True vs md False] sh md split by simp
    moreover have "counters META_2 cs (s\<lparr>mds := h, num_free_blocks := num_free_blocks s - 1,
        num_free_bytes := num_free_bytes s - of_nat m\<rparr>)" for h
      using cnt split by (simp add: counters_def)
    ultimately show ?thesis
      using n r spec hd srch md
      by (auto simp: smalloc_2_def alloc_spec_def upd_md_def rep_2_def counters_def
          shape_2_def linorder_not_less)
  next
    case None
    let ?b = "brk s" and ?k = "n + META_2"
    let ?d = "\<lambda>x. if ?b \<le> x \<and> x < ?b + ?k then Some 0 else data s x"
    let ?d' = "\<lambda>x. if ?b \<le> x \<and> x < ?b + META_2 then None else ?d x"
    let ?h = "\<lambda>q. if q = ?b then Some \<lparr>msize = n, is_free = False, nxt = NULL, prv = last_or NULL (map fst bs)\<rparr>
                else if overlaps ?b META_2 q META_2 then None else mds s q"
    show ?thesis
    proof (cases "grant ?b ?k")
      case False
      then have p: "p = NULL" "b' = ?b" "bs' = bs" using spec n None by (auto simp: alloc_spec_def)
      have "smalloc_2 fuel grant n s = Inr (NULL, s)"
      proof (cases "bs = []")
        case True
        then show ?thesis using sh n False add
          by (simp add: smalloc_2_def firstAllocation_2_def shape_2_def res_simps)
      next
        case ne: False
        then have hd: "head s = fst (hd bs)" "head s \<noteq> NULL"
          using sh shape_2_fst_pos [OF sh, of "hd bs"] by (auto simp: shape_2_def hd_map)
        have "search_2 fuel (mds s) n (head s) = Inr (fst (last bs), False)"
          using search_2_spec [of "mds s" NULL bs fuel n] sh ne fuel None hd shape_2_fst_pos [OF sh]
          by (simp add: shape_2_def)
        then show ?thesis
          using hd(2) n False add by (simp add: smalloc_2_def res_simps)
      qed
      with rep p show ?thesis by simp
    next
      case True
      then have p: "p = ?b + META_2" "b' = ?b + ?k" "bs' = bs @ [(?b, n, False)]"
        using spec n None by (auto simp: alloc_spec_def)
      have cnt': "counters META_2 bs' (newAllocAdjustment_2 n s')"
        if "num_free_blocks s' = num_free_blocks s" "num_free_bytes s' = num_free_bytes s"
          "num_allocated_blocks s' = num_allocated_blocks s" "num_allocated_bytes s' = num_allocated_bytes s"
          "num_meta_data_bytes s' = num_meta_data_bytes s" for s'
        using that cnt p by (simp add: counters_def newAllocAdjustment_2_def algebra_simps)
      show ?thesis
      proof (cases "bs = []")
        case nil: True
        let ?s = "s\<lparr>brk := ?b + ?k, head := ?b, mds := ?h, data := ?d'\<rparr>"
        have "smalloc_2 fuel grant n s = Inr (p, newAllocAdjustment_2 n ?s)"
          using nil sh n True add p mem
          by (simp add: smalloc_2_def firstAllocation_2_def shape_2_def res_simps store_md_def in_mem_def
              cong: if_cong)
        moreover have "shape_2 ?s bs'"
          unfolding p by (rule shape_2_append [OF sh n(1) _ refl refl]) (simp_all add: nil)
        moreover have "counters META_2 bs' (newAllocAdjustment_2 n ?s)" by (rule cnt') simp_all
        ultimately show ?thesis using p by (simp add: rep_2_def)
      next
        case ne: False
        then have hd: "head s = fst (hd bs)" "head s \<noteq> NULL"
          using sh shape_2_fst_pos [OF sh, of "hd bs"] by (auto simp: shape_2_def hd_map)
        let ?l = "fst (last bs)"
        have lin: "(?l, snd (last bs)) \<in> set bs" using ne by simp
        then obtain md where md: "mds s ?l = Some md"
          using sh by (auto simp: shape_2_def blocks_in_def dest!: info_SomeD)
        have "?l + META_2 \<le> ?b"
          using laid_bounds [of META_2 "brk0 s" ?b bs ?l "fst (snd (last bs))" "snd (snd (last bs))"] sh lin
          by (simp add: shape_2_def)
        then have apart: "?l \<noteq> ?b" "\<not> overlaps ?b META_2 ?l META_2"
          by (auto simp: overlaps_def META_2_def)
        let ?s = "s\<lparr>brk := ?b + ?k, data := ?d', mds := ?h(?l \<mapsto> md\<lparr>nxt := ?b\<rparr>)\<rparr>"
        have "search_2 fuel (mds s) n (head s) = Inr (?l, False)"
          using search_2_spec [of "mds s" NULL bs fuel n] sh ne fuel None hd shape_2_fst_pos [OF sh]
          by (simp add: shape_2_def)
        then have "smalloc_2 fuel grant n s = Inr (p, newAllocAdjustment_2 n ?s)"
          using ne n True add p mem hd(2) md apart
          by (simp add: smalloc_2_def res_simps store_md_def last_map cong: if_cong)
        moreover have "shape_2 ?s bs'"
          unfolding p by (rule shape_2_append [OF sh n(1) md refl refl]) (simp_all add: ne)
        moreover have "counters META_2 bs' (newAllocAdjustment_2 n ?s)" by (rule cnt') simp_all
        ultimately show ?thesis using p by (simp add: rep_2_def)
      qed
    qed
  qed
qed

lemma sfree_2_refines:
  assumes rep: "rep_2 s bs" and p: "(p, m, f) \<in> set bs"
  shows "\<exists>s'. sfree_2 (p + META_2) s = Inr s' \<and> rep_2 s' (free_spec META_2 (p + META_2) bs) \<and>
    brk s' = brk s \<and> brk0 s' = brk0 s \<and> data s' = data s"
proof -
  from rep have sh: "shape_2 s bs" and cnt: "counters META_2 bs s" by (simp_all add: rep_2_def)
  from p obtain us vs where bs: "bs = us @ (p, m, f) # vs" by (auto dest: split_list)
  have dist: "distinct (map fst bs)"
    using sh laid_distinct [of META_2 "brk0 s" "brk s" bs] by (simp add: shape_2_def)
  then have fs: "free_spec META_2 (p + META_2) bs = us @ (p, m, True) # vs"
    unfolding bs by (induction us) auto
  obtain md where md: "mds s p = Some md" "msize md = m" "is_free md = f"
    using sh bs by (auto elim: shape_2_block)
  show ?thesis
  proof (cases f)
    case True
    with md fs bs rep show ?thesis
      by (simp add: sfree_2_def META_2_def)
  next
    case False
    have "shape_2 (s\<lparr>mds := (mds s)(p \<mapsto> md\<lparr>is_free := True\<rparr>)\<rparr>) (us @ (p, m, True) # vs)"
      using shape_2_set_flag [of s us p m f vs md True] sh md bs by simp
    moreover have "counters META_2 (us @ (p, m, True) # vs) (s\<lparr>mds := h,
        num_free_blocks := num_free_blocks s + 1, num_free_bytes := num_free_bytes s + of_nat m\<rparr>)" for h
      using cnt bs False by (simp add: counters_def)
    ultimately show ?thesis
      using md fs False by (simp add: sfree_2_def META_2_def upd_md_def rep_2_def shape_2_def counters_def)
  qed
qed

section \<open>malloc_2 is an allocator\<close>

definition blocks_2 :: "heap_2 \<Rightarrow> block list" where
  "blocks_2 s = walk (brk s) (mds s) (head s)"

definition ok_2 :: "heap_2 \<Rightarrow> bool" where
  "ok_2 s \<longleftrightarrow> rep_2 s (blocks_2 s)"

definition live_2 :: "heap_2 \<Rightarrow> (ptr \<times> nat) set" where
  "live_2 s = live_of META_2 (blocks_2 s)"

text \<open>\<open>smalloc\<close> with fuel for as many blocks as fit below the break.\<close>

definition smalloc_2' :: "grants \<Rightarrow> nat \<Rightarrow> heap_2 \<Rightarrow> (ptr \<times> heap_2) res" where
  "smalloc_2' grant n s = smalloc_2 (brk s) grant n s"

lemma rep_2_length: "rep_2 s bs \<Longrightarrow> length bs \<le> brk s"
  using laid_length [of META_2 "brk0 s" "brk s" bs] by (simp add: rep_2_def shape_2_def)

lemma rep_2_blocks: "rep_2 s bs \<Longrightarrow> blocks_2 s = bs"
  using walk_blocks [of "mds s" NULL bs "brk s"] rep_2_length [of s bs] shape_2_fst_pos [of s bs]
  by (simp add: rep_2_def shape_2_def blocks_2_def)

lemma ok_2_rep: "ok_2 s \<Longrightarrow> rep_2 s (blocks_2 s)"
  by (simp add: ok_2_def)

lemma rep_2_ok: "rep_2 s bs \<Longrightarrow> ok_2 s \<and> blocks_2 s = bs"
  using rep_2_blocks by (simp add: ok_2_def)

lemma ok_2_laid: "ok_2 s \<Longrightarrow> laid META_2 (brk0 s) (brk s) (blocks_2 s)"
  by (simp add: ok_2_def rep_2_def shape_2_def)

lemma empty_heap_2_rep: "0 < b \<Longrightarrow> rep_2 (empty_heap_2 b) []"
  by (simp add: rep_2_def shape_2_def empty_heap_2_def counters_def)

lemma same_bytes_below:
  assumes "ok_2 s" and "\<forall>x < brk s. d x = data s x"
  shows "same_bytes (live_2 s) (data s) d"
  using laid_live_bounds [OF ok_2_laid [OF assms(1)]] assms(2)
  by (fastforce simp: same_bytes_def live_2_def)

lemma alloc_spec_live:
  assumes "laid META_2 lo b bs" and "0 < lo" and "alloc_spec META_2 grant b n bs = (p, b', bs')"
  shows "if p = NULL then bs' = bs
    else \<exists>m. n \<le> m \<and> 0 < n \<and> disjoint_from (live_of META_2 bs) p m \<and>
      live_of META_2 bs' = insert (p, m) (live_of META_2 bs)"
proof (cases "take_fit n bs")
  case (Some r)
  then obtain q cs where q: "take_fit n bs = Some (q, cs)" by (cases r) auto
  from take_fit_Some [OF q] obtain us m vs where
    "bs = us @ (q, m, True) # vs" "n \<le> m" "cs = us @ (q, m, False) # vs" by blast
  with assms q laid_disjoint_from [of META_2 lo b us q m True vs] show ?thesis
    by (auto simp: alloc_spec_def split: if_splits)
next
  case None
  have "\<And>q m. (q, m) \<in> live_of META_2 bs \<Longrightarrow> q + m \<le> b"
    using laid_live_bounds [OF assms(1)] by blast
  then have "disjoint_from (live_of META_2 bs) (b + META_2) n"
    by (fastforce simp: disjoint_from_def overlaps_def)
  with None assms show ?thesis
    by (auto simp: alloc_spec_def META_2_def split: if_splits)
qed

lemma free_spec_live:
  assumes "laid META_2 lo b bs" and "(p, m) \<in> live_of META_2 bs"
  shows "live_of META_2 (free_spec META_2 p bs) = live_of META_2 bs - {(p, m)}"
proof -
  from assms(2) obtain us vs where bs: "bs = us @ (p - META_2, m, False) # vs" and p: "META_2 \<le> p"
    by (auto simp: live_of_iff dest: split_list)
  have "distinct (map fst bs)" by (rule laid_distinct [OF assms(1)])
  then have "free_spec META_2 p bs = us @ (p - META_2, m, True) # vs"
    unfolding bs using p by (induction us) auto
  with bs p laid_notin_live [of META_2 lo b us "p - META_2" m False vs m] assms(1) show ?thesis
    by auto
qed

interpretation m2: allocator ok_2 live_2 data "smalloc_2' grant" sfree_2 for grant
proof
  fix s n
  assume ok: "ok_2 s"
  obtain p b' bs' where spec: "alloc_spec META_2 grant (brk s) n (blocks_2 s) = (p, b', bs')"
    by (metis prod_cases3)
  from smalloc_2_refines [OF ok_2_rep [OF ok] rep_2_length [OF ok_2_rep [OF ok]] spec]
  obtain s' where s': "smalloc_2' grant n s = Inr (p, s')" "rep_2 s' bs'"
    "\<forall>x < brk s. data s' x = data s x" by (auto simp: smalloc_2'_def)
  have "0 < brk0 s" using ok by (simp add: ok_2_def rep_2_def shape_2_def)
  with s' rep_2_ok [OF s'(2)] same_bytes_below [OF ok, of "data s'"]
    alloc_spec_live [OF ok_2_laid [OF ok] _ spec]
  show "\<exists>p s'. smalloc_2' grant n s = Inr (p, s') \<and> ok_2 s' \<and>
       same_bytes (live_2 s) (data s) (data s') \<and>
       (if p = 0 then live_2 s' = live_2 s
        else \<exists>m\<ge>n. 0 < n \<and> disjoint_from (live_2 s) p m \<and> live_2 s' = insert (p, m) (live_2 s))"
    by (auto simp: live_2_def)
next
  fix s p m
  assume ok: "ok_2 s" and live: "(p, m) \<in> live_2 s"
  then have p: "META_2 \<le> p" "(p - META_2, m, False) \<in> set (blocks_2 s)"
    by (auto simp: live_2_def live_of_iff)
  from sfree_2_refines [OF ok_2_rep [OF ok] p(2)] p(1)
  obtain s' where s': "sfree_2 p s = Inr s'" "rep_2 s' (free_spec META_2 p (blocks_2 s))"
    "data s' = data s" by auto
  with rep_2_ok [OF s'(2)] free_spec_live [OF ok_2_laid [OF ok]] live
  show "\<exists>s'. sfree_2 p s = Inr s' \<and> ok_2 s' \<and> live_2 s' = live_2 s - {(p, m)} \<and>
       same_bytes (live_2 s') (data s) (data s')"
    by (auto simp: live_2_def same_bytes_def)
next
  fix s :: heap_2
  show "sfree_2 0 s = Inr s" by (simp add: sfree_2_def)
next
  fix s p m
  assume "ok_2 s" and "(p, m) \<in> live_2 s"
  then show "0 < m \<and> 0 < p"
    using laid_live_bounds [OF ok_2_laid] by (fastforce simp: live_2_def META_2_def)
qed

section \<open>Writing payloads\<close>

text \<open>A write inside a live payload touches no metadata of the heap.\<close>

lemma rep_2_write:
  assumes rep: "rep_2 s bs" and live: "(q, k) \<in> live_of META_2 bs" and j: "j \<le> k"
  shows "rep_2 (s\<lparr>mds := (\<lambda>x. if overlaps q j x META_2 then None else mds s x), data := d\<rparr>) bs"
proof -
  let ?h = "\<lambda>x. if overlaps q j x META_2 then None else mds s x"
  from rep have laid: "laid META_2 (brk0 s) (brk s) bs" by (simp add: rep_2_def shape_2_def)
  from live have q: "META_2 \<le> q" "(q - META_2, k, False) \<in> set bs" by (auto simp: live_of_iff)
  have keep: "?h a = mds s a" if "a \<in> set (map fst bs)" for a
  proof -
    from that obtain n f where "(a, n, f) \<in> set bs" by auto
    then have "a = q - META_2 \<or> a + META_2 + n \<le> q - META_2 \<or> q - META_2 + META_2 + k \<le> a"
      using laid_apart [OF laid _ q(2)] by blast
    then show ?thesis using q(1) j by (auto simp: overlaps_def)
  qed
  have "dll (links ?h) NULL (map fst bs) NULL = dll (links (mds s)) NULL (map fst bs) NULL"
    by (rule dll_cong) (simp only: links_def keep)
  moreover have "blocks_in ?h bs = blocks_in (mds s) bs"
    by (rule blocks_in_cong) (use keep in \<open>simp add: info_def\<close>)
  ultimately show ?thesis using rep by (simp add: rep_2_def shape_2_def counters_def)
qed

lemma rep_2_live_in_mem:
  assumes "rep_2 s bs" and "(q, k) \<in> live_of META_2 bs" and "j \<le> k"
  shows "in_mem s q j"
  using laid_live_bounds [of META_2 "brk0 s" "brk s" bs q k] assms
  by (auto simp: rep_2_def shape_2_def in_mem_def)

text \<open>\<open>memset\<close> and \<open>memmove\<close> into a live block.\<close>

lemma memset0_live_2:
  assumes rep: "rep_2 s bs" and live: "(q, k) \<in> live_of META_2 bs" and j: "j \<le> k"
  shows "\<exists>s'. memset0 META_2 q j s = Inr s' \<and> rep_2 s' bs \<and> brk s' = brk s \<and>
    (\<forall>x. data s' x = (if q \<le> x \<and> x < q + j then Some 0 else data s x))"
proof (cases "j = 0")
  case True
  with rep show ?thesis by (auto simp: memset0_def)
next
  case False
  with rep_2_live_in_mem [OF assms] rep_2_write [OF assms] show ?thesis
    by (simp add: memset0_def)
qed

lemma memmove_live_2:
  assumes rep: "rep_2 s bs" and live: "(q, k) \<in> live_of META_2 bs" and j: "j \<le> k"
    and src: "(p, m) \<in> live_of META_2 bs" and m: "j \<le> m"
  shows "\<exists>s'. memmove META_2 q p j s = Inr s' \<and> rep_2 s' bs \<and> brk s' = brk s \<and>
    (\<forall>x. data s' x = (if q \<le> x \<and> x < q + j then data s (p + (x - q)) else data s x))"
proof (cases "j = 0")
  case True
  with rep show ?thesis by (auto simp: memmove_def)
next
  case False
  with rep_2_live_in_mem [OF rep live j] rep_2_live_in_mem [OF rep src m] rep_2_write [OF rep live j]
  show ?thesis by (simp add: memmove_def)
qed

lemma live_2_header:
  assumes "rep_2 s bs" and "(p, m) \<in> live_of META_2 bs"
  shows "\<exists>md. mds s (p - META_2) = Some md \<and> msize md = m"
  using assms by (fastforce simp: rep_2_def shape_2_def blocks_in_def live_of_iff dest: info_SomeD)

section \<open>Properties\<close>

text \<open>The abstract run of a sequence of requests.\<close>

fun run_spec :: "grants \<Rightarrow> request list \<Rightarrow> nat \<Rightarrow> block list \<Rightarrow> nat \<times> block list" where
  "run_spec grant [] b bs = (b, bs)"
| "run_spec grant (Malloc n # rs) b bs =
     (case alloc_spec META_2 grant b n bs of (p, b', bs') \<Rightarrow> run_spec grant rs b' bs')"
| "run_spec grant (Free p # rs) b bs =
     (if p = NULL then run_spec grant rs b bs else run_spec grant rs b (free_spec META_2 p bs))"

text \<open>
  C9: every honest sequence of \<open>smalloc\<close> and \<open>sfree\<close> requests run by \<^verbatim>\<open>malloc_2.cpp\<close> ends without
  a fault in the heap that first-fit allocation on the list of blocks gives, and the six
  statistics functions report that list.
\<close>

theorem malloc_2_simulates:
  assumes "rep_2 s bs" and "honest (smalloc_2' grant) sfree_2 live_2 rs s"
  shows "\<exists>s'. run_requests (smalloc_2' grant) sfree_2 rs s = Inr s' \<and>
    (let (b, cs) = run_spec grant rs (brk s) bs in rep_2 s' cs \<and> brk s' = b \<and>
       num_free_blocks_2 s' = of_nat (length (free_of cs)) \<and>
       num_free_bytes_2 s' = of_nat (bytes_of (free_of cs)) \<and>
       num_allocated_blocks_2 s' = of_nat (length cs) \<and>
       num_allocated_bytes_2 s' = of_nat (bytes_of cs) \<and>
       num_meta_data_bytes_2 s' = size_meta_data_2 * of_nat (length cs))"
  using assms
proof (induction rs arbitrary: s bs)
  case Nil
  then show ?case
    by (simp add: num_free_blocks_2_def num_free_bytes_2_def num_allocated_blocks_2_def
        num_allocated_bytes_2_def num_meta_data_bytes_2_def size_meta_data_2_def rep_2_def counters_def)
next
  case (Cons r rs)
  show ?case
  proof (cases r)
    case (Malloc n)
    obtain p b' bs' where spec: "alloc_spec META_2 grant (brk s) n bs = (p, b', bs')"
      by (metis prod_cases3)
    from smalloc_2_refines [OF Cons.prems(1) rep_2_length [OF Cons.prems(1)] spec]
    obtain s' where "smalloc_2' grant n s = Inr (p, s')" "rep_2 s' bs'" "brk s' = b'"
      by (auto simp: smalloc_2'_def)
    with Cons.IH [of s' bs'] Cons.prems Malloc spec show ?thesis by simp
  next
    case (Free p)
    show ?thesis
    proof (cases "p = NULL")
      case True
      with Cons Free show ?thesis by (simp add: sfree_2_def)
    next
      case False
      with Cons.prems Free rep_2_ok [OF Cons.prems(1)]
      obtain m where "META_2 \<le> p" "(p - META_2, m, False) \<in> set bs"
        by (auto simp: live_2_def live_of_iff)
      with sfree_2_refines [OF Cons.prems(1), of "p - META_2" m False]
      obtain s' where "sfree_2 p s = Inr s'" "rep_2 s' (free_spec META_2 p bs)" "brk s' = brk s"
        by auto
      with Cons.IH [of s' "free_spec META_2 p bs"] Cons.prems Free False show ?thesis by simp
    qed
  qed
qed

lemmas eval_2 = smalloc_2'_def smalloc_2_def firstAllocation_2_def empty_heap_2_def SIZE_LIMIT_def
  META_2_def sz_add_def sbrk_def store_md_def in_mem_def newAllocAdjustment_2_def search_2.simps
  upd_md_def deref_def live_2_def blocks_2_def walk.simps sfree_2_def overlaps_def

definition demo_requests :: "request list" where
  "demo_requests = [Malloc 10, Malloc 20, Free 1032, Malloc 5]"

lemma demo_honest_2:
  "honest (smalloc_2' (\<lambda>_ _. True)) sfree_2 live_2 demo_requests (empty_heap_2 1000)"
  by (simp add: demo_requests_def eval_2)

theorem malloc_2_simulates_witness:
  "\<exists>s'. run_requests (smalloc_2' (\<lambda>_ _. True)) sfree_2 demo_requests (empty_heap_2 1000) = Inr s' \<and>
     rep_2 s' [(1000, 10, False), (1042, 20, False)]"
  using malloc_2_simulates [OF empty_heap_2_rep demo_honest_2]
  by (auto simp: demo_requests_def alloc_spec_def SIZE_LIMIT_def META_2_def empty_heap_2_def)

text \<open>
  C22: from an empty heap, an honest sequence of requests never faults and the live blocks
  never share a byte.
\<close>

theorem malloc_2_separate:
  assumes "0 < b" and "honest (smalloc_2' grant) sfree_2 live_2 rs (empty_heap_2 b)"
  shows "\<exists>s'. run_requests (smalloc_2' grant) sfree_2 rs (empty_heap_2 b) = Inr s' \<and> separate (live_2 s')"
proof -
  have "ok_2 (empty_heap_2 b)" "live_2 (empty_heap_2 b) = {}"
    using rep_2_ok [OF empty_heap_2_rep [OF assms(1)]] by (simp_all add: live_2_def)
  with m2.run_separate [OF _ _ assms(2)] show ?thesis by (auto simp: separate_def)
qed

theorem malloc_2_separate_witness:
  "\<exists>s'. run_requests (smalloc_2' (\<lambda>_ _. True)) sfree_2 demo_requests (empty_heap_2 1000) = Inr s' \<and>
     separate (live_2 s')"
  using malloc_2_separate [OF _ demo_honest_2] by simp

text \<open>
  C23: \<open>srealloc\<close> of a live block returns the block itself when it is large enough; otherwise
  it either fails and changes nothing that is live, or returns a block of at least the new
  size with the bytes of the old one, which is freed, and leaves every other live block alone.
\<close>

theorem srealloc_2_preserves:
  assumes ok: "ok_2 s" and live: "(p, m) \<in> live_2 s"
  shows "\<exists>q s'. srealloc_2 (brk s) grant p n s = Inr (q, s') \<and> ok_2 s' \<and>
    (if n \<le> m then q = p \<and> s' = s
     else if q = NULL then live_2 s' = live_2 s \<and> same_bytes (live_2 s) (data s) (data s')
     else \<exists>k \<ge> n. disjoint_from (live_2 s) q k \<and> live_2 s' = insert (q, k) (live_2 s - {(p, m)}) \<and>
       (\<forall>i < m. data s' (q + i) = data s (p + i)) \<and>
       same_bytes (live_2 s - {(p, m)}) (data s) (data s'))"
proof -
  have p0: "p \<noteq> NULL" using m2.live_nonempty [OF ok live] by simp
  obtain md where md: "mds s (p - META_2) = Some md" "msize md = m"
    using live_2_header [OF ok_2_rep [OF ok]] live by (auto simp: live_2_def)
  show ?thesis
  proof (cases "n \<le> m")
    case True
    with p0 md ok show ?thesis by (simp add: srealloc_2_def)
  next
    case False
    from m2.malloc_law [OF ok, of grant n] obtain q s1 where
      s1: "smalloc_2 (brk s) grant n s = Inr (q, s1)" "ok_2 s1" "same_bytes (live_2 s) (data s) (data s1)"
        "if q = 0 then live_2 s1 = live_2 s
         else \<exists>k\<ge>n. 0 < n \<and> disjoint_from (live_2 s) q k \<and> live_2 s1 = insert (q, k) (live_2 s)"
      unfolding smalloc_2'_def by blast
    show ?thesis
    proof (cases "q = NULL")
      case True
      with s1 p0 md False show ?thesis by (simp add: srealloc_2_def)
    next
      case q: False
      with s1 obtain k where k: "n \<le> k" "disjoint_from (live_2 s) q k" "live_2 s1 = insert (q, k) (live_2 s)"
        by auto
      have in1: "(q, k) \<in> live_2 s1" "(p, m) \<in> live_2 s1" using k live by auto
      obtain md1 where md1: "mds s1 (p - META_2) = Some md1" "msize md1 = m"
        using live_2_header [OF ok_2_rep [OF s1(2)]] in1(2) by (auto simp: live_2_def)
      have mk: "m \<le> k" using False k by simp
      from memmove_live_2 [OF ok_2_rep [OF s1(2)], of q k m p m] in1 this
      obtain s2 where s2: "memmove META_2 q p m s1 = Inr s2" "rep_2 s2 (blocks_2 s1)"
        "\<forall>x. data s2 x = (if q \<le> x \<and> x < q + m then data s1 (p + (x - q)) else data s1 x)"
        by (auto simp: live_2_def)
      have ok2: "ok_2 s2" "live_2 s2 = live_2 s1"
        using rep_2_ok [OF s2(2)] by (auto simp: live_2_def)
      obtain s3 where s3: "sfree_2 p s2 = Inr s3" "ok_2 s3" "live_2 s3 = insert (q, k) (live_2 s - {(p, m)})"
        "\<forall>i < m. data s3 (q + i) = data s (p + i)" "same_bytes (live_2 s - {(p, m)}) (data s) (data s3)"
        using m2.move_block [OF ok live s1(3) k(2,3) mk ok2 s2(3)] by blast
      have "srealloc_2 (brk s) grant p n s = Inr (q, s3)"
        using p0 md False s1(1) q md1 s2(1) s3(1) by (simp add: srealloc_2_def)
      with s3 k(1,2) q False show ?thesis by auto
    qed
  qed
qed

text \<open>A heap with one live block of ten bytes.\<close>

definition one_block_2 :: heap_2 where
  "one_block_2 = (case smalloc_2' (\<lambda>_ _. True) 10 (empty_heap_2 1000) of Inr (p, s) \<Rightarrow> s)"

lemma one_block_2_ok: "ok_2 one_block_2" "live_2 one_block_2 = {(1032, 10)}"
proof -
  have "alloc_spec META_2 (\<lambda>_ _. True) 1000 10 [] = (1032, 1042, [(1000, 10, False)])"
    by (simp add: alloc_spec_def SIZE_LIMIT_def META_2_def)
  with smalloc_2_refines [OF empty_heap_2_rep [of 1000], of 1000 "\<lambda>_ _. True" 10]
  obtain s where "smalloc_2' (\<lambda>_ _. True) 10 (empty_heap_2 1000) = Inr (1032, s)"
    "rep_2 s [(1000, 10, False)]"
    by (auto simp: smalloc_2'_def empty_heap_2_def)
  then have "rep_2 one_block_2 [(1000, 10, False)]" by (simp add: one_block_2_def)
  then show "ok_2 one_block_2" "live_2 one_block_2 = {(1032, 10)}"
    using rep_2_ok by (auto simp: live_2_def META_2_def)
qed

theorem srealloc_2_preserves_witness:
  "\<exists>q s'. srealloc_2 (brk one_block_2) (\<lambda>_ _. True) 1032 5 one_block_2 = Inr (q, s') \<and> ok_2 s' \<and> q = 1032"
  using srealloc_2_preserves [of one_block_2 1032 10 "\<lambda>_ _. True" 5] one_block_2_ok by auto

text \<open>
  A successful \<open>scalloc\<close> returns a new block of at least \<open>num * size\<close> bytes (the product
  as the code computes it, modulo \<open>2 ^ 64\<close>), all of which are zero, and leaves the live blocks
  alone; it never faults.
\<close>

theorem scalloc_2_zeroes:
  assumes ok: "ok_2 s"
  shows "\<exists>q s'. scalloc_2 (brk s) grant num sz s = Inr (q, s') \<and> ok_2 s' \<and>
    same_bytes (live_2 s) (data s) (data s') \<and>
    (if q = NULL then live_2 s' = live_2 s
     else \<exists>k \<ge> (num * sz) mod 2 ^ 64. disjoint_from (live_2 s) q k \<and>
       live_2 s' = insert (q, k) (live_2 s) \<and>
       (\<forall>i < (num * sz) mod 2 ^ 64. data s' (q + i) = Some 0))"
proof -
  let ?n = "(num * sz) mod 2 ^ 64"
  from m2.malloc_law [OF ok, of grant ?n] obtain q s1 where
    s1: "smalloc_2 (brk s) grant ?n s = Inr (q, s1)" "ok_2 s1" "same_bytes (live_2 s) (data s) (data s1)"
      "if q = 0 then live_2 s1 = live_2 s
       else \<exists>k\<ge>?n. 0 < ?n \<and> disjoint_from (live_2 s) q k \<and> live_2 s1 = insert (q, k) (live_2 s)"
    unfolding smalloc_2'_def by blast
  show ?thesis
  proof (cases "q = NULL")
    case True
    with s1 show ?thesis by (simp add: scalloc_2_def)
  next
    case False
    with s1(4) obtain k where k: "?n \<le> k" "disjoint_from (live_2 s) q k" "live_2 s1 = insert (q, k) (live_2 s)"
      by auto
    from memset0_live_2 [OF ok_2_rep [OF s1(2)], of q k ?n] k
    obtain s2 where s2: "memset0 META_2 q ?n s1 = Inr s2" "rep_2 s2 (blocks_2 s1)"
      "\<forall>x. data s2 x = (if q \<le> x \<and> x < q + ?n then Some 0 else data s1 x)"
      by (auto simp: live_2_def)
    have "same_bytes (live_2 s) (data s) (data s2)"
      unfolding same_bytes_def
    proof clarsimp
      fix a c x assume a: "(a, c) \<in> live_2 s" "a \<le> x" "x < a + c"
      then have "data s2 x = data s1 x"
        using s2(3) k(1,2) by (fastforce simp: disjoint_from_def overlaps_def)
      also have "\<dots> = data s x" using a by (intro same_bytesD [OF s1(3), of a c]) auto
      finally show "data s2 x = data s x" .
    qed
    moreover have "scalloc_2 (brk s) grant num sz s = Inr (q, s2)"
      using s1(1) s2(1) False by (simp add: scalloc_2_def Let_def)
    ultimately show ?thesis
      using rep_2_ok [OF s2(2)] s2(3) k False by (auto simp: live_2_def)
  qed
qed

theorem scalloc_2_zeroes_witness:
  "\<exists>q s'. scalloc_2 (brk one_block_2) (\<lambda>_ _. True) 3 4 one_block_2 = Inr (q, s') \<and> ok_2 s'"
  using scalloc_2_zeroes [of one_block_2 "\<lambda>_ _. True" 3 4] one_block_2_ok by auto

text \<open>
  The product in \<open>scalloc\<close> is not checked for overflow: a request for \<open>2 ^ 61 + 1\<close> objects
  of 8 bytes succeeds and returns a block of 8 bytes.
\<close>

theorem scalloc_2_overflow:
  "\<exists>s'. scalloc_2 1 (\<lambda>_ _. True) (2 ^ 61 + 1) 8 (empty_heap_2 1000) = Inr (1032, s') \<and>
     live_2 s' = {(1032, 8)}"
  by (simp add: scalloc_2_def memset0_def eval_2 Let_def)

text \<open>A sequence of \<open>malloc_1\<close> requests, with the regions of those that succeed.\<close>

fun allocs_1 :: "grants \<Rightarrow> nat list \<Rightarrow> 'm cmem \<Rightarrow> (ptr \<times> nat) list \<times> 'm cmem" where
  "allocs_1 grant [] s = ([], s)"
| "allocs_1 grant (n # ns) s =
     (case smalloc_1 grant n s of (p, s') \<Rightarrow> case allocs_1 grant ns s' of (rs, s'') \<Rightarrow>
        ((if p = NULL then rs else (p, n) # rs), s''))"

text \<open>
  C24: \<^verbatim>\<open>malloc_1.cpp\<close>: the regions a sequence of \<open>smalloc\<close> calls returns lie above the initial
  break, one after the other, each of the requested size, and end at or below the final break;
  a size of 0 or above \<open>10 ^ 8\<close> is refused.
\<close>

theorem smalloc_1_regions:
  assumes "0 < brk s" and "allocs_1 grant ns s = (rs, s')"
  shows "sorted_wrt (\<lambda>(p, n) (q, m). p + n \<le> q) rs \<and> brk s \<le> brk s' \<and>
    (\<forall>(p, n) \<in> set rs. brk s \<le> p \<and> p + n \<le> brk s' \<and> 0 < n \<and> n \<le> SIZE_LIMIT \<and> n \<in> set ns)"
  using assms
proof (induction ns arbitrary: s rs)
  case (Cons n ns)
  obtain p s1 where 1: "smalloc_1 grant n s = (p, s1)" by fastforce
  obtain rs1 where 2: "allocs_1 grant ns s1 = (rs1, s')" "rs = (if p = NULL then rs1 else (p, n) # rs1)"
    using Cons.prems(2) 1 by (auto split: prod.splits)
  have p: "brk s \<le> brk s1 \<and> (p \<noteq> NULL \<longrightarrow> p = brk s \<and> brk s1 = brk s + n \<and> 0 < n \<and> n \<le> SIZE_LIMIT)"
    using 1 by (auto simp: smalloc_1_def sbrk_def split: if_splits)
  then have "0 < brk s1" using Cons.prems(1) by simp
  from Cons.IH [OF this 2(1)] p 2(2) show ?case
    by (fastforce split: if_splits)
qed simp

definition empty_memory :: "unit cmem" where
  "empty_memory = \<lparr>brk0 = 1000, brk = 1000, regions = [], mds = Map.empty, data = Map.empty\<rparr>"

theorem smalloc_1_regions_witness:
  "\<exists>rs s'. allocs_1 (\<lambda>_ _. True) [10, 0, 20] empty_memory = (rs, s') \<and>
     sorted_wrt (\<lambda>(p, n) (q, m). p + n \<le> q) rs"
proof -
  obtain rs s' where eq: "allocs_1 (\<lambda>_ _. True) [10, 0, 20] empty_memory = (rs, s')" by fastforce
  have "0 < brk empty_memory" by (simp add: empty_memory_def)
  from smalloc_1_regions [OF this eq] eq show ?thesis by blast
qed

end
