(* ===== verification/Malloc3.thy ===== *)
theory Malloc3
  imports Linked "HOL-Library.Multiset"
begin

text \<open>
  The allocator of \<^verbatim>\<open>virtual_memory/malloc_3.cpp\<close>, function by function, on the memory of theory
  Memory. A metadata structure takes 40 bytes and carries a cookie; blocks obtained by
  \<open>sbrk\<close> are linked in a list sorted by size (\<open>head\<close>) and tile the memory from \<open>firsthead\<close> to
  the break, the last one being \<open>wilderness\<close>; large blocks are mapped and linked from
  \<open>mmhead\<close>. What the code takes from outside is in the environment: the cookie drawn at
  start, the answers of \<open>sbrk\<close> and \<open>mmap\<close>, and the fuel of the loops.
\<close>

section \<open>State\<close>

record MallocMetadata_3 = MallocMetadata +
  cookie :: int32

record heap_3 = "MallocMetadata_3 heap" +
  firsthead :: ptr
  wilderness :: ptr
  mmhead :: ptr

record env =
  MAIN_COOKIE :: int32
  grant :: grants
  mm :: "nat \<Rightarrow> ptr option"
  fuel :: nat

definition SPLIT_THRESHOLD :: nat where "SPLIT_THRESHOLD = 128"
definition MMAP_THRESHOLD :: nat where "MMAP_THRESHOLD = 128 * 1024"
definition META_3 :: nat where "META_3 = 40"

definition empty_heap_3 :: "nat \<Rightarrow> heap_3" where
  "empty_heap_3 b = \<lparr>brk0 = b, brk = b, regions = [], mds = Map.empty, data = Map.empty, head = NULL,
     num_free_blocks = 0, num_free_bytes = 0, num_allocated_blocks = 0, num_allocated_bytes = 0,
     num_meta_data_bytes = 0, firsthead = NULL, wilderness = NULL, mmhead = NULL\<rparr>"

definition set_nxt :: "ptr \<Rightarrow> ptr \<Rightarrow> heap_3 \<Rightarrow> heap_3 res" where
  "set_nxt p v s = upd_md p (nxt_update (\<lambda>_. v)) s"

definition set_prv :: "ptr \<Rightarrow> ptr \<Rightarrow> heap_3 \<Rightarrow> heap_3 res" where
  "set_prv p v s = upd_md p (prv_update (\<lambda>_. v)) s"

definition set_free :: "ptr \<Rightarrow> bool \<Rightarrow> heap_3 \<Rightarrow> heap_3 res" where
  "set_free p v s = upd_md p (is_free_update (\<lambda>_. v)) s"

definition set_size :: "ptr \<Rightarrow> nat \<Rightarrow> heap_3 \<Rightarrow> heap_3 res" where
  "set_size p v s = upd_md p (msize_update (\<lambda>_. v)) s"

section \<open>Cookies\<close>

definition DEADBEEF :: int where "DEADBEEF = c_int 0xdeadbeef"

definition validateCookie :: "env \<Rightarrow> ptr \<Rightarrow> heap_3 \<Rightarrow> unit res" where
  "validateCookie E alloc s =
     (if alloc = NULL then Inr ()
      else rbind (deref (mds s) alloc) (\<lambda>m.
        if cookie m \<noteq> MAIN_COOKIE E then Inl (Exit DEADBEEF) else Inr ()))"

section \<open>The memory list\<close>

definition newAllocAdjustment_3 :: "nat \<Rightarrow> heap_3 \<Rightarrow> heap_3" where
  "newAllocAdjustment_3 sz s = s\<lparr>num_allocated_blocks := num_allocated_blocks s + 1,
     num_allocated_bytes := num_allocated_bytes s + of_nat sz,
     num_meta_data_bytes := num_meta_data_bytes s + of_nat META_3\<rparr>"

definition firstAllocation_3 :: "env \<Rightarrow> nat \<Rightarrow> heap_3 \<Rightarrow> (ptr \<times> heap_3) res" where
  "firstAllocation_3 E sz s =
     (case sbrk (grant E) (sz_add sz META_3) s of
        (None, s) \<Rightarrow> Inr (NULL, s)
      | (Some a, s) \<Rightarrow>
          rbind (store_md META_3 a
                   \<lparr>msize = sz, is_free = False, nxt = NULL, prv = NULL, cookie = MAIN_COOKIE E\<rparr>
                   (s\<lparr>head := a\<rparr>)) (\<lambda>s.
            Inr (a + META_3, newAllocAdjustment_3 sz (s\<lparr>wilderness := a, firsthead := a\<rparr>))))"

text \<open>The link sequences of \<open>HeapListInsert\<close>, in the order of the code's assignments.\<close>

definition link_between :: "ptr \<Rightarrow> ptr \<Rightarrow> heap_3 \<Rightarrow> heap_3 res" where
  "link_between new p s =
     rbind (deref (mds s) p) (\<lambda>m.
     rbind (set_nxt new (nxt m) s) (\<lambda>s.
     rbind (set_prv new p s) (\<lambda>s.
     rbind (set_nxt p new s) (\<lambda>s.
     set_prv (nxt m) new s))))"

definition link_as_head :: "ptr \<Rightarrow> ptr \<Rightarrow> heap_3 \<Rightarrow> heap_3 res" where
  "link_as_head new p s =
     rbind (set_nxt new p (s\<lparr>head := new\<rparr>)) (\<lambda>s.
     rbind (set_prv new NULL s) (\<lambda>s.
     set_prv p new s))"

definition link_before :: "ptr \<Rightarrow> ptr \<Rightarrow> heap_3 \<Rightarrow> heap_3 res" where
  "link_before new p s =
     rbind (deref (mds s) p) (\<lambda>m.
     rbind (set_nxt new p s) (\<lambda>s.
     rbind (set_prv new (prv m) s) (\<lambda>s.
     rbind (set_prv p new s) (\<lambda>s.
     set_nxt (prv m) new s))))"

definition link_last :: "ptr \<Rightarrow> ptr \<Rightarrow> heap_3 \<Rightarrow> heap_3 res" where
  "link_last new p s =
     rbind (set_nxt p new s) (\<lambda>s.
     rbind (set_prv new p s) (\<lambda>s.
     set_nxt new NULL s))"

text \<open>The branch after the loop that the code takes to be "smaller than the head".\<close>

definition link_smallest :: "ptr \<Rightarrow> ptr \<Rightarrow> heap_3 \<Rightarrow> heap_3 res" where
  "link_smallest new p s =
     rbind (set_prv p new s) (\<lambda>s.
     rbind (set_nxt new p s) (\<lambda>s.
     rbind (set_prv new NULL s) (\<lambda>s.
     Inr (s\<lparr>head := new\<rparr>))))"

text \<open>Equal sizes: the higher address goes after (\<open>after\<close> is the code for it), the lower before.\<close>

definition insert_equal :: "(heap_3 \<Rightarrow> heap_3 res) \<Rightarrow> ptr \<Rightarrow> ptr \<Rightarrow> heap_3 \<Rightarrow> heap_3 res" where
  "insert_equal after new p s =
     (if new > p then after s
      else if p = head s then link_as_head new p s
      else link_before new p s)"

definition insert_end :: "ptr \<Rightarrow> ptr \<Rightarrow> heap_3 \<Rightarrow> heap_3 res" where
  "insert_end new p s =
     rbind (deref (mds s) p) (\<lambda>pm.
     rbind (deref (mds s) new) (\<lambda>nm.
       if msize pm \<le> msize nm then
         (if msize pm = msize nm then insert_equal (link_last new p) new p s else link_last new p s)
       else link_smallest new p s))"

fun insert_loop :: "nat \<Rightarrow> env \<Rightarrow> ptr \<Rightarrow> ptr \<Rightarrow> heap_3 \<Rightarrow> heap_3 res" where
  "insert_loop n E new p s =
     (if n = 0 then Inl Fuel
      else rbind (deref (mds s) p) (\<lambda>pm.
        if nxt pm = NULL then insert_end new p s
        else rbind (validateCookie E new s) (\<lambda>_.
          rbind (deref (mds s) new) (\<lambda>nm.
          rbind (if msize nm \<ge> msize pm
                 then rbind (deref (mds s) (nxt pm)) (\<lambda>xm. Inr (msize nm < msize xm))
                 else Inr False) (\<lambda>here.
            if here then
              (if msize nm = msize pm then insert_equal (link_between new p) new p s
               else link_between new p s)
            else rbind (validateCookie E (nxt pm) s) (\<lambda>_.
              insert_loop (n - 1) E new (nxt pm) s))))))"

declare insert_loop.simps [simp del]

definition HeapListInsert :: "env \<Rightarrow> ptr \<Rightarrow> heap_3 \<Rightarrow> heap_3 res" where
  "HeapListInsert E new s =
     (if head s \<noteq> NULL then
        rbind (validateCookie E (head s) s) (\<lambda>_. insert_loop (fuel E) E new (head s) s)
      else
        rbind (set_nxt new NULL (s\<lparr>head := new\<rparr>)) (\<lambda>s. set_prv new NULL s))"

definition HeapListRemove :: "env \<Rightarrow> ptr \<Rightarrow> heap_3 \<Rightarrow> heap_3 res" where
  "HeapListRemove E block s =
     rbind (validateCookie E block s) (\<lambda>_.
     rbind (validateCookie E (head s) s) (\<lambda>_.
     rbind (deref (mds s) block) (\<lambda>bm.
       if block = head s then
         (if nxt bm \<noteq> NULL then set_prv (nxt bm) NULL (s\<lparr>head := nxt bm\<rparr>)
          else Inr (s\<lparr>head := nxt bm\<rparr>))
       else
         rbind (if nxt bm \<noteq> NULL
                then rbind (set_prv (nxt bm) (prv bm) s) (\<lambda>s.
                     rbind (validateCookie E (nxt bm) s) (\<lambda>_. Inr s))
                else Inr s) (\<lambda>s.
         rbind (validateCookie E (prv bm) s) (\<lambda>_.
         set_nxt (prv bm) (nxt bm) s)))))"

section \<open>Splitting and merging\<close>

text \<open>
  The new header of a split; its links are indeterminate until \<open>HeapListInsert\<close> sets them,
  which never reads them first.
\<close>

definition split_header :: "env \<Rightarrow> nat \<Rightarrow> MallocMetadata_3" where
  "split_header E n = \<lparr>msize = n, is_free = True, nxt = NULL, prv = NULL, cookie = MAIN_COOKIE E\<rparr>"

definition splittable :: "nat \<Rightarrow> nat \<Rightarrow> bool res" where
  "splittable have_size new_size =
     rbind (int_sub (c_int have_size) (c_int new_size)) (\<lambda>d.
     rbind (int_sub d (c_int META_3)) (\<lambda>d. Inr (d \<ge> int SPLIT_THRESHOLD)))"

definition split_3 :: "env \<Rightarrow> ptr \<Rightarrow> nat \<Rightarrow> heap_3 \<Rightarrow> heap_3 res" where
  "split_3 E request new_size s =
     rbind (validateCookie E request s) (\<lambda>_.
     rbind (deref (mds s) request) (\<lambda>m.
     rbind (splittable (msize m) new_size) (\<lambda>big.
       if big then
         (let new_block = request + new_size + META_3;
              rest = sz_sub (sz_sub (msize m) new_size) META_3;
              s = (if request = wilderness s then s\<lparr>wilderness := new_block\<rparr> else s) in
          rbind (store_md META_3 new_block (split_header E rest) s) (\<lambda>s.
          let s = (if is_free m = False
                   then s\<lparr>num_free_blocks := num_free_blocks s + 1,
                          num_free_bytes := num_free_bytes s + of_nat rest\<rparr>
                   else s\<lparr>num_free_bytes := num_free_bytes s - of_nat (sz_add new_size META_3)\<rparr>) in
          rbind (set_free request False s) (\<lambda>s.
          rbind (set_size request new_size s) (\<lambda>s.
          let s = s\<lparr>num_allocated_blocks := num_allocated_blocks s + 1,
                    num_allocated_bytes := num_allocated_bytes s - of_nat META_3,
                    num_meta_data_bytes := num_meta_data_bytes s + of_nat META_3\<rparr> in
          rbind (HeapListRemove E request s) (\<lambda>s.
          rbind (HeapListInsert E request s) (\<lambda>s.
          HeapListInsert E new_block s))))))
       else if is_free m = True then
         rbind (set_free request False s) (\<lambda>s.
           Inr (s\<lparr>num_free_blocks := num_free_blocks s - 1,
                  num_free_bytes := num_free_bytes s - of_nat (msize m)\<rparr>))
       else Inr s)))"

fun smerge :: "nat \<Rightarrow> env \<Rightarrow> ptr \<Rightarrow> ptr \<Rightarrow> heap_3 \<Rightarrow> heap_3 res" where
  "smerge n E limit p s =
     (if n = 0 then Inl Fuel
      else if p = limit then Inr s
      else rbind (validateCookie E p s) (\<lambda>_.
        rbind (deref (mds s) p) (\<lambda>pm.
        let next = p + msize pm + META_3 in
        if next = limit then Inr s
        else rbind (validateCookie E next s) (\<lambda>_.
          rbind (deref (mds s) next) (\<lambda>nm.
          if is_free pm = False \<or> is_free nm = False then smerge (n - 1) E limit next s
          else
            rbind (set_size p (sz_add (msize pm) (sz_add (msize nm) META_3)) s) (\<lambda>s.
            let s = s\<lparr>num_free_blocks := num_free_blocks s - 1,
                      num_free_bytes := num_free_bytes s + of_nat META_3,
                      num_allocated_blocks := num_allocated_blocks s - 1,
                      num_allocated_bytes := num_allocated_bytes s + of_nat META_3,
                      num_meta_data_bytes := num_meta_data_bytes s - of_nat META_3\<rparr> in
            rbind (HeapListRemove E p s) (\<lambda>s.
            rbind (HeapListRemove E next s) (\<lambda>s.
            rbind (HeapListInsert E p s) (\<lambda>s.
            if next = wilderness s then Inr (s\<lparr>wilderness := p\<rparr>)
            else smerge (n - 1) E limit p s)))))))))"

declare smerge.simps [simp del]

definition merge_3 :: "env \<Rightarrow> heap_3 \<Rightarrow> heap_3 res" where
  "merge_3 E s = (if firsthead s = NULL then Inr s else smerge (fuel E) E (brk s) (firsthead s) s)"

section \<open>smalloc and scalloc\<close>

fun mm_last :: "nat \<Rightarrow> env \<Rightarrow> ptr \<Rightarrow> heap_3 \<Rightarrow> ptr res" where
  "mm_last n E p s =
     (if n = 0 then Inl Fuel
      else rbind (deref (mds s) p) (\<lambda>m.
        if nxt m = NULL then Inr p
        else rbind (validateCookie E p s) (\<lambda>_. mm_last (n - 1) E (nxt m) s)))"

declare mm_last.simps [simp del]

definition smalloc_mmap :: "env \<Rightarrow> nat \<Rightarrow> heap_3 \<Rightarrow> (ptr \<times> heap_3) res" where
  "smalloc_mmap E sz s =
     (case mmap (mm E) (sz_add sz META_3) s of
        (None, s) \<Rightarrow> Inr (NULL, s)
      | (Some a, s) \<Rightarrow>
          rbind (store_md META_3 a
                   \<lparr>msize = sz, is_free = False, nxt = NULL, prv = NULL, cookie = MAIN_COOKIE E\<rparr> s) (\<lambda>s.
          let s = newAllocAdjustment_3 sz s in
          if mmhead s = NULL then
            (let s = s\<lparr>mmhead := a\<rparr> in rbind (validateCookie E a s) (\<lambda>_. Inr (a + META_3, s)))
          else
            rbind (mm_last (fuel E) E (mmhead s) s) (\<lambda>p.
            rbind (set_nxt p a s) (\<lambda>s.
            rbind (set_prv a p s) (\<lambda>s. Inr (a + META_3, s))))))"

text \<open>The search: the block that fits, or \<open>None\<close> when the list is at its end.\<close>

fun search_3 :: "nat \<Rightarrow> env \<Rightarrow> nat \<Rightarrow> ptr \<Rightarrow> heap_3 \<Rightarrow> ptr option res" where
  "search_3 n E sz p s =
     (if n = 0 then Inl Fuel
      else rbind (validateCookie E p s) (\<lambda>_.
        rbind (deref (mds s) p) (\<lambda>m.
        if is_free m \<and> msize m \<ge> sz then Inr (Some p)
        else if nxt m = NULL then Inr None
        else search_3 (n - 1) E sz (nxt m) s)))"

declare search_3.simps [simp del]

text \<open>
  Growing the wilderness block in place by what it lacks to \<open>sz\<close> bytes: the list is left,
  the size changed and the list entered again.
\<close>

definition grow_wilderness :: "env \<Rightarrow> nat \<Rightarrow> heap_3 \<Rightarrow> heap_3 res" where
  "grow_wilderness E needed s =
     (let w = wilderness s in
      rbind (HeapListRemove E w s) (\<lambda>s.
      rbind (deref (mds s) w) (\<lambda>m.
      rbind (set_size w (sz_add (msize m) needed) s) (\<lambda>s.
      HeapListInsert E w s))))"

definition smalloc_wilderness :: "env \<Rightarrow> nat \<Rightarrow> heap_3 \<Rightarrow> (ptr \<times> heap_3) res" where
  "smalloc_wilderness E sz s =
     (let w = wilderness s in
      rbind (deref (mds s) w) (\<lambda>m.
      let needed = sz_sub sz (msize m); used = msize m in
      case sbrk (grant E) needed s of
        (None, s) \<Rightarrow> Inr (NULL, s)
      | (Some _, s) \<Rightarrow>
          rbind (HeapListRemove E w s) (\<lambda>s.
          rbind (set_free w False s) (\<lambda>s.
          rbind (deref (mds s) w) (\<lambda>m.
          rbind (set_size w (sz_add (msize m) needed) s) (\<lambda>s.
          rbind (HeapListInsert E w s) (\<lambda>s.
          Inr (w + META_3, s\<lparr>num_free_blocks := num_free_blocks s - 1,
                             num_free_bytes := num_free_bytes s - of_nat used,
                             num_allocated_bytes := num_allocated_bytes s + of_nat needed\<rparr>))))))))"

definition smalloc_sbrk :: "env \<Rightarrow> nat \<Rightarrow> heap_3 \<Rightarrow> (ptr \<times> heap_3) res" where
  "smalloc_sbrk E sz s =
     (case sbrk (grant E) (sz_add sz META_3) s of
        (None, s) \<Rightarrow> Inr (NULL, s)
      | (Some a, s) \<Rightarrow>
          rbind (store_md META_3 a
                   \<lparr>msize = sz, is_free = False, nxt = NULL, prv = NULL, cookie = MAIN_COOKIE E\<rparr>
                   (s\<lparr>wilderness := a\<rparr>)) (\<lambda>s.
          rbind (HeapListInsert E a (newAllocAdjustment_3 sz s)) (\<lambda>s. Inr (a + META_3, s))))"

definition smalloc_3 :: "env \<Rightarrow> nat \<Rightarrow> heap_3 \<Rightarrow> (ptr \<times> heap_3) res" where
  "smalloc_3 E sz s =
     (if sz = 0 \<or> sz > SIZE_LIMIT then Inr (NULL, s)
      else if sz \<ge> MMAP_THRESHOLD then smalloc_mmap E sz s
      else if head s = NULL then firstAllocation_3 E sz s
      else rbind (search_3 (fuel E) E sz (head s) s) (\<lambda>found.
        case found of
          Some p \<Rightarrow> rbind (split_3 E p sz s) (\<lambda>s. Inr (p + META_3, s))
        | None \<Rightarrow>
            rbind (validateCookie E (wilderness s) s) (\<lambda>_.
            rbind (deref (mds s) (wilderness s)) (\<lambda>wm.
              if is_free wm then smalloc_wilderness E sz s else smalloc_sbrk E sz s))))"

definition scalloc_3 :: "env \<Rightarrow> nat \<Rightarrow> nat \<Rightarrow> heap_3 \<Rightarrow> (ptr \<times> heap_3) res" where
  "scalloc_3 E num sz s =
     (let n = (num * sz) mod 2 ^ 64 in
      rbind (smalloc_3 E n s) (\<lambda>(address, s).
        if address = NULL then Inr (NULL, s)
        else rbind (memset0 META_3 address n s) (\<lambda>s. Inr (address, s))))"

section \<open>sfree\<close>

definition mm_unlink :: "env \<Rightarrow> ptr \<Rightarrow> heap_3 \<Rightarrow> heap_3 res" where
  "mm_unlink E p s =
     rbind (deref (mds s) p) (\<lambda>m.
       if p = mmhead s then
         (let s = s\<lparr>mmhead := nxt m\<rparr> in
          if nxt m \<noteq> NULL then rbind (validateCookie E (nxt m) s) (\<lambda>_. set_prv (nxt m) NULL s)
          else Inr s)
       else
         rbind (set_nxt (prv m) (nxt m) s) (\<lambda>s.
         rbind (validateCookie E (prv m) s) (\<lambda>_.
         if nxt m \<noteq> NULL then set_prv (nxt m) (prv m) s else Inr s)))"

definition sfree_3 :: "env \<Rightarrow> ptr \<Rightarrow> heap_3 \<Rightarrow> heap_3 res" where
  "sfree_3 E p s =
     (if p = NULL then Inr s
      else let P = p - META_3 in
        rbind (validateCookie E P s) (\<lambda>_.
        rbind (deref (mds s) P) (\<lambda>m.
          if msize m \<ge> MMAP_THRESHOLD then
            rbind (mm_unlink E P s) (\<lambda>s.
              munmap META_3 P (sz_add (msize m) META_3)
                (s\<lparr>num_allocated_blocks := num_allocated_blocks s - 1,
                   num_allocated_bytes := num_allocated_bytes s - of_nat (msize m),
                   num_meta_data_bytes := num_meta_data_bytes s - of_nat META_3\<rparr>))
          else if is_free m = False then
            rbind (set_free P True s) (\<lambda>s.
              merge_3 E (s\<lparr>num_free_blocks := num_free_blocks s + 1,
                           num_free_bytes := num_free_bytes s + of_nat (msize m)\<rparr>))
          else Inr s)))"

section \<open>srealloc\<close>

definition mmapsrealloc :: "env \<Rightarrow> ptr \<Rightarrow> nat \<Rightarrow> heap_3 \<Rightarrow> (ptr \<times> heap_3) res" where
  "mmapsrealloc E oldp sz s =
     (let ob = oldp - META_3 in
      rbind (validateCookie E ob s) (\<lambda>_.
      rbind (deref (mds s) ob) (\<lambda>m.
        if msize m = sz then Inr (oldp, s)
        else rbind (smalloc_3 E sz s) (\<lambda>(address, s).
          if address = NULL then Inr (NULL, s)
          else rbind (deref (mds s) ob) (\<lambda>m.
               rbind (memmove META_3 address oldp (if msize m < sz then msize m else sz) s) (\<lambda>s.
               rbind (sfree_3 E oldp s) (\<lambda>s. Inr (address, s))))))))"

text \<open>Marking the old block free, as the merging branches do first.\<close>

definition mark_free :: "ptr \<Rightarrow> heap_3 \<Rightarrow> heap_3 res" where
  "mark_free ob s =
     rbind (set_free ob True s) (\<lambda>s.
     rbind (deref (mds s) ob) (\<lambda>m.
       Inr (s\<lparr>num_free_blocks := num_free_blocks s + 1,
              num_free_bytes := num_free_bytes s + of_nat (msize m)\<rparr>)))"

text \<open>Merging with the block \<open>x\<close> taken out (its free flag cleared and restored), if there is one.\<close>

definition masked_merge :: "env \<Rightarrow> ptr \<Rightarrow> heap_3 \<Rightarrow> heap_3 res" where
  "masked_merge E x s =
     (if x = NULL then merge_3 E s
      else rbind (deref (mds s) x) (\<lambda>xm.
        rbind (set_free x False s) (\<lambda>s.
        rbind (merge_3 E s) (\<lambda>s. set_free x (is_free xm) s))))"

text \<open>\<open>memmove(address, oldp, oldp_meta_data->size)\<close>, the size read from the old header at this point.\<close>

definition move_old :: "ptr \<Rightarrow> ptr \<Rightarrow> heap_3 \<Rightarrow> heap_3 res" where
  "move_old address oldp s =
     rbind (deref (mds s) (oldp - META_3)) (\<lambda>m. memmove META_3 address oldp (msize m) s)"

definition realloc_prev :: "env \<Rightarrow> ptr \<Rightarrow> ptr \<Rightarrow> ptr \<Rightarrow> nat \<Rightarrow> heap_3 \<Rightarrow> (ptr \<times> heap_3) res" where
  "realloc_prev E oldp next prev sz s =
     rbind (mark_free (oldp - META_3) s) (\<lambda>s.
     rbind (masked_merge E next s) (\<lambda>s.
     rbind (split_3 E prev sz s) (\<lambda>s.
     rbind (merge_3 E s) (\<lambda>s.
     rbind (move_old (prev + META_3) oldp s) (\<lambda>s. Inr (prev + META_3, s))))))"

text \<open>Enlarging the wilderness to \<open>sz\<close> bytes at the end of several branches.\<close>

definition enlarge :: "env \<Rightarrow> ptr \<Rightarrow> nat \<Rightarrow> heap_3 \<Rightarrow> (ptr \<times> heap_3) res" where
  "enlarge E address needed s =
     rbind (grow_wilderness E needed s) (\<lambda>s.
       Inr (address, s\<lparr>num_allocated_bytes := num_allocated_bytes s + of_nat needed\<rparr>))"

definition realloc_prev_wild :: "env \<Rightarrow> ptr \<Rightarrow> ptr \<Rightarrow> nat \<Rightarrow> heap_3 \<Rightarrow> (ptr \<times> heap_3) res" where
  "realloc_prev_wild E oldp prev sz s =
     rbind (mark_free (oldp - META_3) s) (\<lambda>s.
     rbind (merge_3 E s) (\<lambda>s.
     rbind (split_3 E prev sz s) (\<lambda>s.
     rbind (deref (mds s) (wilderness s)) (\<lambda>wm.
     let needed = sz_sub sz (msize wm) in
     case sbrk (grant E) needed s of
       (None, s) \<Rightarrow> Inr (NULL, s)
     | (Some _, s) \<Rightarrow>
         rbind (move_old (prev + META_3) oldp s) (\<lambda>s. enlarge E (prev + META_3) needed s)))))"

definition realloc_wild :: "env \<Rightarrow> nat \<Rightarrow> heap_3 \<Rightarrow> (ptr \<times> heap_3) res" where
  "realloc_wild E sz s =
     rbind (deref (mds s) (wilderness s)) (\<lambda>wm.
     let needed = sz_sub sz (msize wm) in
     case sbrk (grant E) needed s of
       (None, s) \<Rightarrow> Inr (NULL, s)
     | (Some _, s) \<Rightarrow> enlarge E (wilderness s + META_3) needed s)"

definition realloc_next :: "env \<Rightarrow> ptr \<Rightarrow> ptr \<Rightarrow> nat \<Rightarrow> heap_3 \<Rightarrow> (ptr \<times> heap_3) res" where
  "realloc_next E oldp prev sz s =
     rbind (mark_free (oldp - META_3) s) (\<lambda>s.
     rbind (masked_merge E prev s) (\<lambda>s.
     rbind (split_3 E (oldp - META_3) sz s) (\<lambda>s. Inr (oldp - META_3 + META_3, s))))"

definition realloc_three :: "env \<Rightarrow> ptr \<Rightarrow> ptr \<Rightarrow> nat \<Rightarrow> heap_3 \<Rightarrow> (ptr \<times> heap_3) res" where
  "realloc_three E oldp prev sz s =
     rbind (mark_free (oldp - META_3) s) (\<lambda>s.
     rbind (merge_3 E s) (\<lambda>s.
     rbind (split_3 E prev sz s) (\<lambda>s.
     rbind (move_old (prev + META_3) oldp s) (\<lambda>s. Inr (prev + META_3, s)))))"

text \<open>Taking the merged block \<open>q\<close> out of the free blocks.\<close>

definition claim :: "ptr \<Rightarrow> heap_3 \<Rightarrow> heap_3 res" where
  "claim q s =
     rbind (set_free q False s) (\<lambda>s.
     rbind (deref (mds s) q) (\<lambda>m.
       Inr (s\<lparr>num_free_blocks := num_free_blocks s - 1,
              num_free_bytes := num_free_bytes s - of_nat (msize m)\<rparr>)))"

definition realloc_three_wild :: "env \<Rightarrow> ptr \<Rightarrow> ptr \<Rightarrow> nat \<Rightarrow> heap_3 \<Rightarrow> (ptr \<times> heap_3) res" where
  "realloc_three_wild E oldp prev sz s =
     rbind (mark_free (oldp - META_3) s) (\<lambda>s.
     rbind (merge_3 E s) (\<lambda>s.
     rbind (claim prev s) (\<lambda>s.
     rbind (move_old (prev + META_3) oldp s) (\<lambda>s.
     rbind (deref (mds s) (wilderness s)) (\<lambda>wm.
     let needed = sz_sub sz (msize wm) in
     case sbrk (grant E) needed s of
       (None, s) \<Rightarrow> Inr (NULL, s)
     | (Some _, s) \<Rightarrow> enlarge E (prev + META_3) needed s)))))"

definition realloc_next_wild :: "env \<Rightarrow> ptr \<Rightarrow> nat \<Rightarrow> heap_3 \<Rightarrow> (ptr \<times> heap_3) res" where
  "realloc_next_wild E oldp sz s =
     rbind (mark_free (oldp - META_3) s) (\<lambda>s.
     rbind (merge_3 E s) (\<lambda>s.
     rbind (claim (oldp - META_3) s) (\<lambda>s.
     rbind (deref (mds s) (wilderness s)) (\<lambda>wm.
     let needed = sz_sub sz (msize wm) in
     case sbrk (grant E) needed s of
       (None, s) \<Rightarrow> Inr (NULL, s)
     | (Some _, s) \<Rightarrow> enlarge E (oldp - META_3 + META_3) needed s))))"

definition realloc_elsewhere :: "env \<Rightarrow> ptr \<Rightarrow> nat \<Rightarrow> heap_3 \<Rightarrow> (ptr \<times> heap_3) res" where
  "realloc_elsewhere E oldp sz s =
     rbind (smalloc_3 E sz s) (\<lambda>(newp, s).
       if newp = NULL then Inr (NULL, s)
       else rbind (move_old newp oldp s) (\<lambda>s.
            rbind (sfree_3 E oldp s) (\<lambda>s. Inr (newp, s))))"

text \<open>The loop that walks from \<open>firsthead\<close> to the block before \<open>ob\<close>.\<close>

fun find_prev :: "nat \<Rightarrow> ptr \<Rightarrow> ptr \<Rightarrow> heap_3 \<Rightarrow> ptr res" where
  "find_prev n p ob s =
     (if n = 0 then Inl Fuel
      else rbind (deref (mds s) p) (\<lambda>m.
        if p + msize m + META_3 = ob then Inr p
        else find_prev (n - 1) (p + msize m + META_3) ob s))"

declare find_prev.simps [simp del]

definition neighbours :: "env \<Rightarrow> ptr \<Rightarrow> nat \<Rightarrow> heap_3 \<Rightarrow> (ptr \<times> ptr) res" where
  "neighbours E ob osize s =
     rbind (if ob = wilderness s then Inr NULL
            else rbind (validateCookie E (ob + osize + META_3) s) (\<lambda>_. Inr (ob + osize + META_3))) (\<lambda>next.
     rbind (if ob = firsthead s then Inr NULL
            else rbind (find_prev (fuel E) (firsthead s) ob s) (\<lambda>prev.
                 rbind (validateCookie E prev s) (\<lambda>_. Inr prev))) (\<lambda>prev.
     Inr (next, prev)))"

definition srealloc_3 :: "env \<Rightarrow> ptr \<Rightarrow> nat \<Rightarrow> heap_3 \<Rightarrow> (ptr \<times> heap_3) res" where
  "srealloc_3 E oldp sz s =
     (if oldp = NULL then smalloc_3 E sz s
      else if sz = 0 \<or> sz > SIZE_LIMIT then Inr (NULL, s)
      else let ob = oldp - META_3; is_wild = (ob = wilderness s); is_first = (ob = firsthead s) in
        rbind (validateCookie E ob s) (\<lambda>_.
        rbind (deref (mds s) ob) (\<lambda>m.
          if msize m \<ge> MMAP_THRESHOLD then mmapsrealloc E oldp sz s
          else if msize m \<ge> sz then rbind (split_3 E ob sz s) (\<lambda>s. Inr (oldp, s))
          else rbind (neighbours E ob (msize m) s) (\<lambda>(next, prev).
            rbind (if is_first then Inr (False, 0)
                   else rbind (deref (mds s) prev) (\<lambda>pm. Inr (is_free pm, msize pm))) (\<lambda>(pfree, psize).
            if \<not> is_first \<and> pfree \<and> sz_add (sz_add (msize m) psize) META_3 \<ge> sz
            then realloc_prev E oldp next prev sz s
            else if \<not> is_first \<and> pfree \<and> is_wild then realloc_prev_wild E oldp prev sz s
            else if is_wild then realloc_wild E sz s
            else rbind (deref (mds s) next) (\<lambda>nm.
              if is_free nm \<and> sz_add (sz_add (msize m) (msize nm)) META_3 \<ge> sz
              then realloc_next E oldp prev sz s
              else if next \<noteq> NULL \<and> prev \<noteq> NULL \<and> is_free nm \<and> pfree \<and>
                sz_add (sz_add (sz_add psize (msize m)) (msize nm)) (2 * META_3) \<ge> sz
              then realloc_three E oldp prev sz s
              else if next \<noteq> NULL \<and> next = wilderness s \<and> is_free nm
              then (if prev \<noteq> NULL \<and> pfree then realloc_three_wild E oldp prev sz s
                    else realloc_next_wild E oldp sz s)
              else realloc_elsewhere E oldp sz s))))))"

section \<open>Statistics\<close>

definition num_free_blocks_3 :: "heap_3 \<Rightarrow> size_t" where "num_free_blocks_3 s = num_free_blocks s"
definition num_free_bytes_3 :: "heap_3 \<Rightarrow> size_t" where "num_free_bytes_3 s = num_free_bytes s"
definition num_allocated_blocks_3 :: "heap_3 \<Rightarrow> size_t" where "num_allocated_blocks_3 s = num_allocated_blocks s"
definition num_allocated_bytes_3 :: "heap_3 \<Rightarrow> size_t" where "num_allocated_bytes_3 s = num_allocated_bytes s"
definition num_meta_data_bytes_3 :: "heap_3 \<Rightarrow> size_t" where "num_meta_data_bytes_3 s = num_meta_data_bytes s"
definition size_meta_data_3 :: size_t where "size_meta_data_3 = of_nat META_3"

section \<open>The memory list refines insertion into a list\<close>

named_theorems list_3 "operations of the memory list"

definition body :: "(ptr \<Rightarrow> MallocMetadata_3 option) \<Rightarrow> ptr \<Rightarrow> (nat \<times> bool \<times> int32) option" where
  "body h a = map_option (\<lambda>m. (msize m, is_free m, cookie m)) (h a)"

text \<open>Only links and the head change.\<close>

definition relinked :: "heap_3 \<Rightarrow> heap_3 \<Rightarrow> bool" where
  "relinked s s' \<longleftrightarrow> s' = s\<lparr>mds := mds s', head := head s'\<rparr> \<and> body (mds s') = body (mds s)"

definition cookie_ok :: "env \<Rightarrow> heap_3 \<Rightarrow> ptr \<Rightarrow> bool" where
  "cookie_ok E s a \<longleftrightarrow> (\<exists>m. mds s a = Some m \<and> cookie m = MAIN_COOKIE E)"

definition size_at :: "heap_3 \<Rightarrow> ptr \<Rightarrow> nat" where
  "size_at s a = (case mds s a of None \<Rightarrow> 0 | Some m \<Rightarrow> msize m)"

text \<open>The list in memory, from \<open>head\<close>.\<close>

definition heap_list :: "env \<Rightarrow> heap_3 \<Rightarrow> ptr list \<Rightarrow> bool" where
  "heap_list E s xs \<longleftrightarrow> dll (links (mds s)) NULL xs NULL \<and> head s = hd_or xs NULL \<and> distinct xs \<and>
     NULL \<notin> set xs \<and> (\<forall>x \<in> set xs. cookie_ok E s x)"

definition beside :: "(ptr \<Rightarrow> nat) \<Rightarrow> ptr \<Rightarrow> ptr \<Rightarrow> ptr list" where
  "beside z new x = (if z x = z new \<and> new < x then [new, x] else [x, new])"

text \<open>What the loop of \<open>HeapListInsert\<close> makes of a list whose prefix \<open>us\<close> it has passed.\<close>

fun insert_at :: "(ptr \<Rightarrow> nat) \<Rightarrow> ptr \<Rightarrow> ptr list \<Rightarrow> ptr list \<Rightarrow> ptr list" where
  "insert_at z new us [] = [new]"
| "insert_at z new us [x] = (if z x \<le> z new then us @ beside z new x else [new, x])"
| "insert_at z new us (x # y # ys) =
     (if z x \<le> z new \<and> z new < z y then us @ beside z new x @ y # ys
      else insert_at z new (us @ [x]) (y # ys))"

lemma body_upd: "body (h(a \<mapsto> m)) = (body h)(a \<mapsto> (msize m, is_free m, cookie m))"
  by (auto simp: body_def)

lemma body_same: "h a = Some m \<Longrightarrow> (msize m, is_free m, cookie m) = v \<Longrightarrow> (body h)(a \<mapsto> v) = body h"
  by (auto simp: body_def)

lemma relinked_refl [simp]: "relinked s s"
  by (simp add: relinked_def)

lemma relinked_trans: "relinked s t \<Longrightarrow> relinked t u \<Longrightarrow> relinked s u"
proof (unfold relinked_def, elim conjE, intro conjI)
  assume t: "t = s\<lparr>mds := mds t, head := head t\<rparr>" and u: "u = t\<lparr>mds := mds u, head := head u\<rparr>"
  have "t\<lparr>mds := mds u, head := head u\<rparr> = s\<lparr>mds := mds u, head := head u\<rparr>"
    by (subst t) simp
  with u show "u = s\<lparr>mds := mds u, head := head u\<rparr>" by simp
qed simp

lemma relinkedI:
  "body h = body (mds s) \<Longrightarrow> relinked s (s\<lparr>mds := h, head := p\<rparr>)"
  "body h = body (mds s) \<Longrightarrow> relinked s (s\<lparr>mds := h\<rparr>)"
  "relinked s (s\<lparr>head := p\<rparr>)"
  by (simp_all add: relinked_def)

lemma body_cookie: "cookie_ok E s a \<longleftrightarrow> (\<exists>n f. body (mds s) a = Some (n, f, MAIN_COOKIE E))"
  by (force simp: cookie_ok_def body_def)

lemma relinked_cookie: "relinked s s' \<Longrightarrow> cookie_ok E s' a = cookie_ok E s a"
  by (simp add: body_cookie relinked_def)

lemma body_size: "size_at s a = (case body (mds s) a of None \<Rightarrow> 0 | Some (n, f, c) \<Rightarrow> n)"
  by (simp add: size_at_def body_def split: option.splits)

lemma relinked_size: "relinked s s' \<Longrightarrow> size_at s' = size_at s"
  by (simp add: body_size relinked_def fun_eq_iff)

lemma body_info: "info h a = map_option (\<lambda>(n, f, c). (n, f)) (body h a)"
  by (cases "h a") (auto simp: info_def body_def)

lemma relinked_info: "relinked s s' \<Longrightarrow> info (mds s') = info (mds s)"
  by (simp add: body_info relinked_def fun_eq_iff)

lemma cookie_ok_upd [simp]:
  "cookie_ok E (s\<lparr>head := p\<rparr>) a = cookie_ok E s a"
  by (simp add: cookie_ok_def)

lemma validateCookie_ok [list_3, simp]: "cookie_ok E s a \<Longrightarrow> validateCookie E a s = Inr ()"
  by (auto simp: validateCookie_def cookie_ok_def deref_def)

lemma validateCookie_NULL [list_3, simp]: "validateCookie E NULL s = Inr ()"
  by (simp add: validateCookie_def)

lemma set_3_simps [list_3]:
  "mds s p = Some m \<Longrightarrow> set_nxt p v s = Inr (s\<lparr>mds := (mds s)(p \<mapsto> m\<lparr>nxt := v\<rparr>)\<rparr>)"
  "mds s p = Some m \<Longrightarrow> set_prv p v s = Inr (s\<lparr>mds := (mds s)(p \<mapsto> m\<lparr>prv := v\<rparr>)\<rparr>)"
  "mds s p = Some m \<Longrightarrow> set_free p f s = Inr (s\<lparr>mds := (mds s)(p \<mapsto> m\<lparr>is_free := f\<rparr>)\<rparr>)"
  "mds s p = Some m \<Longrightarrow> set_size p n s = Inr (s\<lparr>mds := (mds s)(p \<mapsto> m\<lparr>msize := n\<rparr>)\<rparr>)"
  by (simp_all add: set_nxt_def set_prv_def set_free_def set_size_def upd_md_Some)

lemma heap_list_node:
  assumes "heap_list E s (us @ p # vs)"
  shows "\<exists>m. mds s p = Some m \<and> nxt m = hd_or vs NULL \<and> prv m = last_or NULL us \<and> cookie m = MAIN_COOKIE E"
  using assms dll_split [of "links (mds s)" NULL us p vs NULL]
  by (auto simp: heap_list_def cookie_ok_def links_def)

lemma heap_listI:
  assumes "relinked s s'" and "heap_list E s xs" and "set ys \<subseteq> insert new (set xs)" and "cookie_ok E s new"
    and "new \<noteq> NULL" and "distinct ys" and "dll (links (mds s')) NULL ys NULL" and "head s' = hd_or ys NULL"
  shows "heap_list E s' ys"
  using assms by (auto simp: heap_list_def relinked_cookie)

text \<open>Each link sequence puts the new block at its place.\<close>

lemma link_last_ok:
  assumes l: "heap_list E s (us @ [p])" and new: "new \<notin> set (us @ [p])" "cookie_ok E s new" "new \<noteq> NULL"
  shows "\<exists>s'. link_last new p s = Inr s' \<and> relinked s s' \<and> heap_list E s' (us @ [p, new])"
proof -
  obtain pm where pm: "mds s p = Some pm" "nxt pm = NULL" "prv pm = last_or NULL us"
    using heap_list_node [OF l] by auto
  obtain nm where nm: "mds s new = Some nm" using new by (auto simp: cookie_ok_def)
  have d: "p \<notin> set us" "p \<noteq> new" "new \<noteq> p" "new \<notin> set us" "dll (links (mds s)) NULL (us @ [p]) NULL" "distinct us"
    "head s = hd_or us p"
    using l new by (auto simp: heap_list_def)
  let ?s = "s\<lparr>mds := (mds s)(p \<mapsto> pm\<lparr>nxt := new\<rparr>, new \<mapsto> nm\<lparr>prv := p, nxt := NULL\<rparr>)\<rparr>"
  have "link_last new p s = Inr ?s"
    using pm nm d by (simp add: link_last_def list_3)
  moreover have r: "relinked s ?s"
    using pm nm d by (intro relinkedI) (simp add: body_upd body_same fun_upd_idem_iff body_def)
  moreover have "heap_list E ?s (us @ [p, new])"
    using d pm new(1) by (intro heap_listI [OF r l _ new(2,3)]) (auto simp: dll_simps)
  ultimately show ?thesis by blast
qed

lemma link_between_ok:
  assumes l: "heap_list E s (us @ p # y # vs)" and new: "new \<notin> set (us @ p # y # vs)" "cookie_ok E s new" "new \<noteq> NULL"
  shows "\<exists>s'. link_between new p s = Inr s' \<and> relinked s s' \<and> heap_list E s' (us @ p # new # y # vs)"
proof -
  obtain pm where pm: "mds s p = Some pm" "nxt pm = y" "prv pm = last_or NULL us"
    using heap_list_node [OF l] by auto
  obtain ym where ym: "mds s y = Some ym" "nxt ym = hd_or vs NULL" "prv ym = p"
    using heap_list_node [of E s "us @ [p]" y vs] l by auto
  obtain nm where nm: "mds s new = Some nm" using new by (auto simp: cookie_ok_def)
  have d: "p \<notin> set us" "p \<noteq> new" "new \<noteq> p" "new \<notin> set us" "y \<noteq> p" "p \<noteq> y" "y \<noteq> new" "new \<noteq> y" "y \<notin> set us"
    "new \<notin> set vs" "p \<notin> set vs" "y \<notin> set vs" "set us \<inter> set vs = {}"
    "dll (links (mds s)) NULL (us @ p # y # vs) NULL" "distinct us" "distinct vs" "head s = hd_or us p"
    using l new by (auto simp: heap_list_def)
  let ?s = "s\<lparr>mds := (mds s)(new \<mapsto> nm\<lparr>nxt := y, prv := p\<rparr>, p \<mapsto> pm\<lparr>nxt := new\<rparr>, y \<mapsto> ym\<lparr>prv := new\<rparr>)\<rparr>"
  have "link_between new p s = Inr ?s"
    using pm nm ym d by (simp add: link_between_def list_3)
  moreover have r: "relinked s ?s"
    using pm nm ym d by (intro relinkedI) (simp add: body_upd body_same fun_upd_idem_iff body_def)
  moreover have "heap_list E ?s (us @ p # new # y # vs)"
    using d pm ym by (intro heap_listI [OF r l _ new(2,3)]) (auto simp: dll_simps)
  ultimately show ?thesis by blast
qed

lemma link_as_head_ok:
  assumes l: "heap_list E s (p # vs)" and new: "new \<notin> set (p # vs)" "cookie_ok E s new" "new \<noteq> NULL"
  shows "\<exists>s'. link_as_head new p s = Inr s' \<and> relinked s s' \<and> heap_list E s' (new # p # vs)"
proof -
  obtain pm where pm: "mds s p = Some pm" "nxt pm = hd_or vs NULL" "prv pm = NULL"
    using heap_list_node [of E s "[]" p vs] l by auto
  obtain nm where nm: "mds s new = Some nm" using new by (auto simp: cookie_ok_def)
  have d: "p \<noteq> new" "new \<noteq> p" "new \<notin> set vs" "p \<notin> set vs" "dll (links (mds s)) NULL (p # vs) NULL" "distinct vs"
    using l new by (auto simp: heap_list_def)
  let ?s = "s\<lparr>mds := (mds s)(new \<mapsto> nm\<lparr>nxt := p, prv := NULL\<rparr>, p \<mapsto> pm\<lparr>prv := new\<rparr>), head := new\<rparr>"
  have "link_as_head new p s = Inr ?s"
    using pm nm d by (simp add: link_as_head_def list_3)
  moreover have r: "relinked s ?s"
    using pm nm d by (intro relinkedI) (simp add: body_upd body_same fun_upd_idem_iff body_def)
  moreover have "heap_list E ?s (new # p # vs)"
    using d pm by (intro heap_listI [OF r l _ new(2,3)]) (auto simp: dll_simps)
  ultimately show ?thesis by blast
qed

lemma link_before_ok:
  assumes l: "heap_list E s (us @ x # p # vs)" and new: "new \<notin> set (us @ x # p # vs)" "cookie_ok E s new" "new \<noteq> NULL"
  shows "\<exists>s'. link_before new p s = Inr s' \<and> relinked s s' \<and> heap_list E s' (us @ x # new # p # vs)"
proof -
  obtain pm where pm: "mds s p = Some pm" "nxt pm = hd_or vs NULL" "prv pm = x"
    using heap_list_node [of E s "us @ [x]" p vs] l by auto
  obtain xm where xm: "mds s x = Some xm" "nxt xm = p" "prv xm = last_or NULL us"
    using heap_list_node [of E s us x "p # vs"] l by auto
  obtain nm where nm: "mds s new = Some nm" using new by (auto simp: cookie_ok_def)
  have d: "p \<notin> set us" "p \<noteq> new" "new \<noteq> p" "new \<notin> set us" "x \<noteq> p" "p \<noteq> x" "x \<noteq> new" "new \<noteq> x" "x \<notin> set us"
    "new \<notin> set vs" "p \<notin> set vs" "x \<notin> set vs" "set us \<inter> set vs = {}"
    "dll (links (mds s)) NULL (us @ x # p # vs) NULL" "distinct us" "distinct vs" "head s = hd_or us x"
    using l new by (auto simp: heap_list_def)
  let ?s = "s\<lparr>mds := (mds s)(new \<mapsto> nm\<lparr>nxt := p, prv := x\<rparr>, p \<mapsto> pm\<lparr>prv := new\<rparr>, x \<mapsto> xm\<lparr>nxt := new\<rparr>)\<rparr>"
  have "link_before new p s = Inr ?s"
    using pm nm xm d by (simp add: link_before_def list_3)
  moreover have r: "relinked s ?s"
    using pm nm xm d by (intro relinkedI) (simp add: body_upd body_same fun_upd_idem_iff body_def)
  moreover have "heap_list E ?s (us @ x # new # p # vs)"
    using d pm xm by (intro heap_listI [OF r l _ new(2,3)]) (auto simp: dll_simps)
  ultimately show ?thesis by blast
qed

lemma link_smallest_ok:
  assumes l: "heap_list E s (us @ [p])" and new: "new \<notin> set (us @ [p])" "cookie_ok E s new" "new \<noteq> NULL"
  shows "\<exists>s'. link_smallest new p s = Inr s' \<and> relinked s s' \<and> heap_list E s' [new, p]"
proof -
  obtain pm where pm: "mds s p = Some pm" "nxt pm = NULL" using heap_list_node [OF l] by auto
  obtain nm where nm: "mds s new = Some nm" using new by (auto simp: cookie_ok_def)
  have d: "p \<noteq> new" "new \<noteq> p" using new by auto
  let ?s = "s\<lparr>mds := (mds s)(p \<mapsto> pm\<lparr>prv := new\<rparr>, new \<mapsto> nm\<lparr>nxt := p, prv := NULL\<rparr>), head := new\<rparr>"
  have "link_smallest new p s = Inr ?s"
    using pm nm d by (simp add: link_smallest_def list_3)
  moreover have r: "relinked s ?s"
    using pm nm d by (intro relinkedI) (simp add: body_upd body_same fun_upd_idem_iff body_def)
  moreover have "heap_list E ?s [new, p]"
    using d pm by (intro heap_listI [OF r l _ new(2,3)]) (auto simp: dll_simps)
  ultimately show ?thesis by blast
qed

text \<open>Equal sizes: by address.\<close>

lemma insert_equal_ok:
  assumes l: "heap_list E s (us @ p # vs)" and new: "new \<notin> set (us @ p # vs)" "cookie_ok E s new" "new \<noteq> NULL"
    and after: "new > p \<Longrightarrow> \<exists>s'. after s = Inr s' \<and> relinked s s' \<and> heap_list E s' (us @ p # new # vs)"
  shows "\<exists>s'. insert_equal after new p s = Inr s' \<and> relinked s s' \<and>
    heap_list E s' (us @ (if new < p then [new, p] else [p, new]) @ vs)"
proof (cases "new > p")
  case True
  with after show ?thesis by (simp add: insert_equal_def)
next
  case False
  with new have np: "new < p" by auto
  show ?thesis
  proof (cases us rule: rev_cases)
    case Nil
    with l have "p = head s" by (simp add: heap_list_def)
    with link_as_head_ok [of E s p vs new] l new Nil False np show ?thesis
      by (simp add: insert_equal_def)
  next
    case (snoc ws x)
    with l have "p \<noteq> head s" by (cases ws) (auto simp: heap_list_def)
    with link_before_ok [of E s ws x p vs new] l new snoc False np show ?thesis
      by (simp add: insert_equal_def)
  qed
qed

lemma size_at_eq: "mds s p = Some m \<Longrightarrow> size_at s p = msize m"
  by (simp add: size_at_def)

lemma insert_end_ok:
  assumes l: "heap_list E s (us @ [p])" and new: "new \<notin> set (us @ [p])" "cookie_ok E s new" "new \<noteq> NULL"
  shows "\<exists>s'. insert_end new p s = Inr s' \<and> relinked s s' \<and> heap_list E s' (insert_at (size_at s) new us [p])"
proof -
  obtain pm where pm: "mds s p = Some pm" using heap_list_node [OF l] by auto
  obtain nm where nm: "mds s new = Some nm" using new by (auto simp: cookie_ok_def)
  note z = pm nm size_at_eq [OF pm] size_at_eq [OF nm]
  consider "msize pm = msize nm" | "msize pm < msize nm" | "msize nm < msize pm" by linarith
  then show ?thesis
  proof cases
    case 1
    with insert_equal_ok [OF l new, of "link_last new p"] link_last_ok [OF l new] z
    show ?thesis by (auto simp: insert_end_def beside_def)
  next
    case 2
    with link_last_ok [OF l new] z show ?thesis by (simp add: insert_end_def beside_def)
  next
    case 3
    with link_smallest_ok [OF l new] z show ?thesis by (simp add: insert_end_def)
  qed
qed

lemma insert_loop_ok:
  assumes l: "heap_list E s (us @ p # vs)" and new: "new \<notin> set (us @ p # vs)" "cookie_ok E s new" "new \<noteq> NULL"
    and n: "length vs < n"
  shows "\<exists>s'. insert_loop n E new p s = Inr s' \<and> relinked s s' \<and>
    heap_list E s' (insert_at (size_at s) new us (p # vs))"
  using l new(1) n
proof (induction vs arbitrary: us p n)
  case Nil
  obtain pm where pm: "mds s p = Some pm" "nxt pm = NULL" using heap_list_node [OF Nil(1)] by auto
  from insert_end_ok [OF Nil(1,2) new(2,3)] Nil(3) pm show ?case
    by (simp add: insert_loop.simps [of n])
next
  case (Cons y vs)
  obtain pm where pm: "mds s p = Some pm" "nxt pm = y" using heap_list_node [OF Cons.prems(1)] by auto
  obtain ym where ym: "mds s y = Some ym"
    using heap_list_node [of E s "us @ [p]" y vs] Cons.prems(1) by auto
  obtain nm where nm: "mds s new = Some nm" using new by (auto simp: cookie_ok_def)
  have y: "y \<noteq> NULL" "cookie_ok E s y" using Cons.prems(1) by (auto simp: heap_list_def)
  note z = size_at_eq [OF pm(1)] size_at_eq [OF nm] size_at_eq [OF ym]
  show ?case
  proof (cases "msize pm \<le> msize nm \<and> msize nm < msize ym")
    case True
    have bet: "\<exists>s'. link_between new p s = Inr s' \<and> relinked s s' \<and> heap_list E s' (us @ p # new # y # vs)"
      using link_between_ok [OF Cons.prems(1,2) new(2,3)] .
    with True insert_equal_ok [OF Cons.prems(1,2) new(2,3), of "link_between new p"]
    show ?thesis using pm ym nm y z new Cons.prems(3)
      by (cases "msize nm = msize pm") (simp_all add: insert_loop.simps [of n] beside_def)
  next
    case False
    from Cons.IH [of "us @ [p]" y "n - 1"] Cons.prems
    have "\<exists>s'. insert_loop (n - 1) E new y s = Inr s' \<and> relinked s s' \<and>
      heap_list E s' (insert_at (size_at s) new (us @ [p]) (y # vs))" by simp
    moreover have "insert_loop n E new p s = insert_loop (n - 1) E new y s"
      using pm ym nm y new Cons.prems(3) False
      by (cases "msize nm \<ge> msize pm") (simp_all add: insert_loop.simps [of n])
    moreover have "insert_at (size_at s) new us (p # y # vs) = insert_at (size_at s) new (us @ [p]) (y # vs)"
      using False z by auto
    ultimately show ?thesis by simp
  qed
qed

lemma HeapListInsert_ok:
  assumes l: "heap_list E s xs" and new: "new \<notin> set xs" "cookie_ok E s new" "new \<noteq> NULL" and n: "length xs \<le> fuel E"
  shows "\<exists>s'. HeapListInsert E new s = Inr s' \<and> relinked s s' \<and> heap_list E s' (insert_at (size_at s) new [] xs)"
proof (cases xs)
  case Nil
  obtain nm where nm: "mds s new = Some nm" using new by (auto simp: cookie_ok_def)
  let ?s = "s\<lparr>mds := (mds s)(new \<mapsto> nm\<lparr>nxt := NULL, prv := NULL\<rparr>), head := new\<rparr>"
  have "HeapListInsert E new s = Inr ?s"
    using nm l Nil by (simp add: HeapListInsert_def heap_list_def list_3)
  moreover have r: "relinked s ?s"
    using nm by (intro relinkedI) (simp add: body_upd body_same)
  moreover have "heap_list E ?s [new]"
    by (intro heap_listI [OF r l _ new(2,3)]) (auto simp: dll_simps)
  ultimately show ?thesis using Nil by auto
next
  case (Cons p vs)
  with l have "head s = p" "p \<noteq> NULL" "cookie_ok E s p" by (auto simp: heap_list_def)
  with insert_loop_ok [of E s "[]" p vs new "fuel E"] l new n Cons show ?thesis
    by (simp add: HeapListInsert_def)
qed

text \<open>Removing a block of the list takes out exactly this block.\<close>

lemma HeapListRemove_ok:
  assumes l: "heap_list E s (us @ b # vs)"
  shows "\<exists>s'. HeapListRemove E b s = Inr s' \<and> relinked s s' \<and> heap_list E s' (us @ vs)"
proof -
  obtain bm where bm: "mds s b = Some bm" "nxt bm = hd_or vs NULL" "prv bm = last_or NULL us"
    using heap_list_node [OF l] by auto
  have c: "cookie_ok E s b" "b \<noteq> NULL" and d: "distinct (us @ b # vs)" "NULL \<notin> set (us @ b # vs)"
    "dll (links (mds s)) NULL (us @ b # vs) NULL"
    using l by (auto simp: heap_list_def)
  have hc: "cookie_ok E s (head s)" using l by (cases us) (auto simp: heap_list_def)
  show ?thesis
  proof (cases us rule: rev_cases)
    case Nil
    with l have h: "b = head s" by (simp add: heap_list_def)
    show ?thesis
    proof (cases vs)
      case Nv: Nil
      have "HeapListRemove E b s = Inr (s\<lparr>head := NULL\<rparr>)"
        using c hc bm h Nv by (simp add: HeapListRemove_def)
      moreover have "heap_list E (s\<lparr>head := NULL\<rparr>) []" by (simp add: heap_list_def)
      ultimately show ?thesis using Nil Nv by (auto intro: relinkedI)
    next
      case (Cons y ws)
      obtain ym where ym: "mds s y = Some ym" "nxt ym = hd_or ws NULL" "prv ym = b"
        using heap_list_node [of E s "[b]" y ws] l Cons Nil by auto
      let ?s = "s\<lparr>mds := (mds s)(y \<mapsto> ym\<lparr>prv := NULL\<rparr>), head := y\<rparr>"
      have "HeapListRemove E b s = Inr ?s"
        using c hc bm h ym d Cons Nil by (simp add: HeapListRemove_def list_3)
      moreover have r: "relinked s ?s"
        using ym by (intro relinkedI) (simp add: body_upd body_same)
      moreover have "heap_list E ?s (y # ws)"
        using d ym l Cons Nil
        by (auto simp: heap_list_def dll_simps relinked_cookie [OF r] simp del: cookie_ok_upd)
      ultimately show ?thesis using Cons Nil by auto
    qed
  next
    case (snoc ws x)
    obtain xm where xm: "mds s x = Some xm" "nxt xm = b" "prv xm = last_or NULL ws"
      using heap_list_node [of E s ws x "b # vs"] l snoc by auto
    have h: "b \<noteq> head s" using l snoc by (cases ws) (auto simp: heap_list_def)
    have cx: "cookie_ok E s x" using l snoc by (auto simp: heap_list_def)
    show ?thesis
    proof (cases vs)
      case Nil
      let ?s = "s\<lparr>mds := (mds s)(x \<mapsto> xm\<lparr>nxt := NULL\<rparr>)\<rparr>"
      have "HeapListRemove E b s = Inr ?s"
        using c hc bm h xm cx d Nil snoc by (simp add: HeapListRemove_def list_3)
      moreover have r: "relinked s ?s"
        using xm by (intro relinkedI) (simp add: body_upd body_same)
      moreover have "heap_list E ?s (ws @ [x])"
        using d xm l Nil snoc by (auto simp: heap_list_def dll_simps relinked_cookie [OF r])
      ultimately show ?thesis using Nil snoc by auto
    next
      case (Cons y zs)
      obtain ym where ym: "mds s y = Some ym" "nxt ym = hd_or zs NULL" "prv ym = b"
        using heap_list_node [of E s "us @ [b]" y zs] l Cons by auto
      have n: "x \<noteq> y" "y \<noteq> x" "y \<noteq> b" "x \<noteq> b" "y \<noteq> NULL" using d snoc Cons by auto
      let ?t = "s\<lparr>mds := (mds s)(y \<mapsto> ym\<lparr>prv := x\<rparr>)\<rparr>"
      let ?s = "s\<lparr>mds := (mds s)(y \<mapsto> ym\<lparr>prv := x\<rparr>, x \<mapsto> xm\<lparr>nxt := y\<rparr>)\<rparr>"
      have rt: "relinked s ?t" using ym by (intro relinkedI) (simp add: body_upd body_same)
      have cy: "cookie_ok E s y" using l Cons by (auto simp: heap_list_def)
      have "HeapListRemove E b s = Inr ?s"
        using c hc bm h xm ym n cx cy relinked_cookie [OF rt] Cons snoc
        by (simp add: HeapListRemove_def list_3)
      moreover have r: "relinked s ?s"
        using xm ym n by (intro relinkedI) (simp add: body_upd body_same fun_upd_idem_iff body_def)
      moreover have "heap_list E ?s (ws @ x # y # zs)"
        using d xm ym n l Cons snoc by (auto simp: heap_list_def dll_simps relinked_cookie [OF r])
      ultimately show ?thesis using Cons snoc by auto
    qed
  qed
qed

section \<open>Insertion keeps the list sorted, when the new block is not the smallest\<close>

lemma set_beside [simp]: "set (beside z new x) = {new, x}"
  by (auto simp: beside_def)

lemma mset_beside [simp]: "mset (beside z new x) = {#new, x#}"
  by (simp add: beside_def)

lemma insert_at_mset:
  assumes "sorted (map z (x # xs))" and "z x \<le> z new"
  shows "mset (insert_at z new us (x # xs)) = mset (us @ new # x # xs)"
  using assms
proof (induction z new us "x # xs" arbitrary: x xs rule: insert_at.induct)
  case (3 z new us x y ys)
  then show ?case by (cases "z new < z y") auto
qed auto

lemma sorted_beside:
  assumes "sorted (map z (us @ x # vs))" and "z x \<le> z new" and "\<forall>y \<in> set vs. z new \<le> z y"
  shows "sorted (map z (us @ beside z new x @ vs))"
proof -
  have "\<forall>u \<in> set us. z u \<le> z new" using assms(1,2) by (auto simp: sorted_append)
  with assms show ?thesis by (auto simp: sorted_append beside_def)
qed

lemma insert_at_sorted:
  assumes "sorted (map z (us @ x # xs))" and "z x \<le> z new"
  shows "sorted (map z (insert_at z new us (x # xs)))"
  using assms
proof (induction z new us "x # xs" arbitrary: x xs rule: insert_at.induct)
  case (2 z new us x)
  then show ?case using sorted_beside [of z us x "[]" new] by simp
next
  case (3 z new us x y ys)
  show ?case
  proof (cases "z new < z y")
    case True
    with 3 have "\<forall>w \<in> set (y # ys). z new \<le> z w" by (auto simp: sorted_append)
    with True 3 sorted_beside [of z us x "y # ys" new] show ?thesis by simp
  next
    case False
    with 3 show ?thesis by simp
  qed
qed

text \<open>A block smaller than all blocks of the list: only the last of them stays.\<close>

lemma insert_at_smallest:
  assumes "\<forall>x \<in> set xs. z new < z x" and "xs \<noteq> []"
  shows "insert_at z new us xs = [new, last xs]"
  using assms by (induction z new us xs rule: insert_at.induct) auto

text \<open>The sorted list in memory.\<close>

definition sorted_list :: "env \<Rightarrow> heap_3 \<Rightarrow> ptr list \<Rightarrow> bool" where
  "sorted_list E s xs \<longleftrightarrow> heap_list E s xs \<and> sorted (map (size_at s) xs)"

lemma sorted_list_insert:
  assumes l: "sorted_list E s xs" and new: "new \<notin> set xs" "cookie_ok E s new" "new \<noteq> NULL" and n: "length xs \<le> fuel E"
    and p: "p \<in> set xs" "size_at s p \<le> size_at s new"
  shows "\<exists>s' ys. HeapListInsert E new s = Inr s' \<and> relinked s s' \<and> sorted_list E s' ys \<and> mset ys = mset (new # xs)"
proof -
  from l have h: "heap_list E s xs" and st: "sorted (map (size_at s) xs)" by (auto simp: sorted_list_def)
  obtain x ws where xs: "xs = x # ws" using p(1) by (cases xs) auto
  with st p have le: "size_at s x \<le> size_at s new" by auto
  obtain s' where s': "HeapListInsert E new s = Inr s'" "relinked s s'"
    "heap_list E s' (insert_at (size_at s) new [] xs)"
    using HeapListInsert_ok [OF h new n] by blast
  moreover have "mset (insert_at (size_at s) new [] xs) = mset (new # xs)"
    using insert_at_mset [of "size_at s" x ws new "[]"] st le xs by simp
  moreover have "sorted (map (size_at s) (insert_at (size_at s) new [] xs))"
    using insert_at_sorted [of "size_at s" "[]" x ws new] st le xs by simp
  ultimately show ?thesis unfolding sorted_list_def by (metis relinked_size)
qed

lemma sorted_list_remove:
  assumes l: "sorted_list E s xs" and b: "b \<in> set xs"
  shows "\<exists>s'. HeapListRemove E b s = Inr s' \<and> relinked s s' \<and> sorted_list E s' (remove1 b xs)"
proof -
  from b obtain us vs where xs: "xs = us @ b # vs" "b \<notin> set us" by (metis split_list_first)
  with l HeapListRemove_ok [of E s us b vs] obtain s' where "HeapListRemove E b s = Inr s'" "relinked s s'"
    "heap_list E s' (us @ vs)" by (auto simp: sorted_list_def)
  moreover have "remove1 b xs = us @ vs" using xs by (simp add: remove1_append)
  moreover have "sorted (map (size_at s) (us @ vs))" using l xs by (auto simp: sorted_list_def sorted_append)
  ultimately show ?thesis unfolding sorted_list_def by (metis relinked_size)
qed

end
