(* ===== verification/Heap3.thy ===== *)
theory Heap3
  imports Malloc3
begin

text \<open>
  The heap of \<^verbatim>\<open>malloc_3.cpp\<close> as a list of blocks in address order: the blocks tile the memory
  from \<open>firsthead\<close> to the break, the memory list holds exactly these blocks sorted by size, and
  the counters report them. \<open>merge\<close> coalesces neighbouring free blocks, \<open>smalloc\<close> takes a
  best fit, grows the wilderness or appends a block, \<open>sfree\<close> marks a block and coalesces.
  All this holds as long as a block in use (the anchor) is the smallest of the heap: the last
  properties of this theory show what the code does without one.
\<close>

section \<open>Layout\<close>

fun tiled :: "nat \<Rightarrow> nat \<Rightarrow> block list \<Rightarrow> bool" where
  "tiled lo hi [] \<longleftrightarrow> lo = hi"
| "tiled lo hi ((a, n, f) # bs) \<longleftrightarrow> a = lo \<and> 0 < n \<and> tiled (lo + META_3 + n) hi bs"

definition layout_3 :: "heap_3 \<Rightarrow> block list \<Rightarrow> bool" where
  "layout_3 s bs \<longleftrightarrow> blocks_in (mds s) bs \<and> tiled (firsthead s) (brk s) bs \<and> bs \<noteq> [] \<and>
     wilderness s = fst (last bs) \<and> 0 < brk0 s \<and> brk0 s \<le> firsthead s \<and> counters META_3 bs s"

definition heap_ok_3 :: "env \<Rightarrow> heap_3 \<Rightarrow> block list \<Rightarrow> bool" where
  "heap_ok_3 E s bs \<longleftrightarrow> layout_3 s bs \<and> brk s < fuel E \<and>
     (\<exists>xs. sorted_list E s xs \<and> mset xs = mset (map fst bs))"

text \<open>The break stays below the fuel of the loops, and sizes within \<open>int\<close>.\<close>

definition sane :: "env \<Rightarrow> bool" where
  "sane E \<longleftrightarrow> fuel E \<le> 2 ^ 31 \<and> (\<forall>b n. grant E b n \<longrightarrow> b + n < fuel E)"

text \<open>The anchor: a block in use that no block is smaller than.\<close>

definition anchored :: "ptr \<Rightarrow> nat \<Rightarrow> block list \<Rightarrow> bool" where
  "anchored pin k bs \<longleftrightarrow> (pin, k, False) \<in> set bs \<and> k \<le> SPLIT_THRESHOLD \<and> (\<forall>(a, n, f) \<in> set bs. k \<le> n)"

text \<open>What no operation on blocks touches.\<close>

definition kept :: "heap_3 \<Rightarrow> heap_3 \<Rightarrow> bool" where
  "kept s s' \<longleftrightarrow> brk0 s' = brk0 s \<and> brk s' = brk s \<and> regions s' = regions s \<and> data s' = data s \<and>
     firsthead s' = firsthead s \<and> mmhead s' = mmhead s"

lemma META_3_pos [simp]: "0 < META_3" "META_3 \<noteq> 0"
  by (simp_all add: META_3_def)

lemma tiled_append: "tiled lo hi (us @ vs) \<longleftrightarrow> (\<exists>mid. tiled lo mid us \<and> tiled mid hi vs)"
proof (induction us arbitrary: lo)
  case (Cons u us)
  then show ?case by (cases u) auto
qed simp

lemma tiled_laid: "tiled lo hi bs \<Longrightarrow> laid META_3 lo hi bs"
proof (induction bs arbitrary: lo)
  case (Cons b bs)
  then show ?case by (cases b) (auto simp: add.commute add.left_commute)
qed simp

lemma tiled_flag: "tiled lo hi (us @ (a, n, f) # vs) \<longleftrightarrow> tiled lo hi (us @ (a, n, g) # vs)"
  by (simp add: tiled_append)

lemma layout_3_laid: "layout_3 s bs \<Longrightarrow> laid META_3 (firsthead s) (brk s) bs"
  by (simp add: layout_3_def tiled_laid)

lemma layout_3_distinct: "layout_3 s bs \<Longrightarrow> distinct (map fst bs)"
  by (blast intro: laid_distinct layout_3_laid)

lemma relinkedD:
  assumes "relinked s s'"
  shows "brk0 s' = brk0 s" "brk s' = brk s" "regions s' = regions s" "data s' = data s"
    "firsthead s' = firsthead s" "mmhead s' = mmhead s" "wilderness s' = wilderness s"
    "counters hs bs s' = counters hs bs s" "info (mds s') = info (mds s)"
    "num_free_blocks s' = num_free_blocks s" "num_free_bytes s' = num_free_bytes s"
    "num_allocated_blocks s' = num_allocated_blocks s" "num_allocated_bytes s' = num_allocated_bytes s"
    "num_meta_data_bytes s' = num_meta_data_bytes s"
proof -
  have i: "info (mds s') = info (mds s)" by (rule relinked_info [OF assms])
  obtain h p where s': "s' = s\<lparr>mds := h, head := p\<rparr>" using assms by (auto simp: relinked_def)
  show "brk0 s' = brk0 s" "brk s' = brk s" "regions s' = regions s" "data s' = data s"
    "firsthead s' = firsthead s" "mmhead s' = mmhead s" "wilderness s' = wilderness s"
    "counters hs bs s' = counters hs bs s" "info (mds s') = info (mds s)"
    "num_free_blocks s' = num_free_blocks s" "num_free_bytes s' = num_free_bytes s"
    "num_allocated_blocks s' = num_allocated_blocks s" "num_allocated_bytes s' = num_allocated_bytes s"
    "num_meta_data_bytes s' = num_meta_data_bytes s"
    using i by (simp_all add: s' counters_def)
qed

lemma blocks_in_info: "info h' = info h \<Longrightarrow> blocks_in h' bs = blocks_in h bs"
  by (simp add: blocks_in_def)

lemma relinked_layout: "relinked s s' \<Longrightarrow> layout_3 s' bs = layout_3 s bs"
  by (simp add: layout_3_def relinkedD blocks_in_info [OF relinkedD(9)])

lemma relinked_kept: "relinked s s' \<Longrightarrow> kept s s'"
  by (simp add: kept_def relinkedD)

lemma kept_refl [simp]: "kept s s"
  by (simp add: kept_def)

lemma kept_trans: "kept s t \<Longrightarrow> kept t u \<Longrightarrow> kept s u"
  by (simp add: kept_def)

lemma sorted_list_cong:
  assumes "mds s = mds t" and "head s = head t"
  shows "sorted_list E s xs = sorted_list E t xs"
proof -
  have "cookie_ok E s = cookie_ok E t" "size_at s = size_at t"
    using assms by (simp_all add: cookie_ok_def size_at_def fun_eq_iff)
  with assms show ?thesis by (simp add: sorted_list_def heap_list_def)
qed

lemma heap_ok_3_block:
  assumes "heap_ok_3 E s bs" and "(a, n, f) \<in> set bs"
  shows "\<exists>m. mds s a = Some m \<and> msize m = n \<and> is_free m = f \<and> cookie m = MAIN_COOKIE E"
    and "cookie_ok E s a" and "a \<noteq> NULL" and "size_at s a = n" and "brk0 s \<le> a" and "a + META_3 + n \<le> brk s"
    and "brk s < fuel E" and "0 < n"
proof -
  from assms obtain xs where xs: "heap_list E s xs" "mset xs = mset (map fst bs)"
    by (auto simp: heap_ok_3_def sorted_list_def)
  then have "a \<in> set xs" using assms(2) by (metis image_eqI fst_conv image_set set_mset_mset)
  with xs show c: "cookie_ok E s a" and "a \<noteq> NULL" by (auto simp: heap_list_def intro: gr0I)
  moreover have "info (mds s) a = Some (n, f)"
    using assms by (auto simp: heap_ok_3_def layout_3_def blocks_in_def)
  ultimately show "\<exists>m. mds s a = Some m \<and> msize m = n \<and> is_free m = f \<and> cookie m = MAIN_COOKIE E"
    by (auto simp: cookie_ok_def info_def)
  then show "size_at s a = n" by (auto simp: size_at_def)
  have "firsthead s \<le> a \<and> a + META_3 + n \<le> brk s \<and> 0 < n" and "brk0 s \<le> firsthead s"
    using assms laid_bounds [OF layout_3_laid, of s bs a n f] laid_size_pos [OF layout_3_laid, of s bs a n f]
    by (auto simp: heap_ok_3_def layout_3_def)
  then show "brk0 s \<le> a" "a + META_3 + n \<le> brk s" "0 < n" by auto
  show "brk s < fuel E" using assms by (simp add: heap_ok_3_def)
qed

section \<open>Changing a block\<close>

lemma heap_list_update:
  assumes "heap_list E s xs" and "mds s p = Some m" and "nxt m' = nxt m" "prv m' = prv m" "cookie m' = cookie m"
    and "mds t = (mds s)(p \<mapsto> m')" and "head t = head s"
  shows "heap_list E t xs"
proof -
  have "links (mds t) = links (mds s)" using assms(2-4,6) by (auto simp: links_def)
  moreover have "cookie_ok E t = cookie_ok E s" using assms(2,5,6) by (auto simp: cookie_ok_def fun_eq_iff)
  ultimately show ?thesis using assms(1,7) by (simp add: heap_list_def)
qed

lemma sorted_list_outside:
  assumes "sorted_list E s xs" and "\<forall>a \<in> set xs. mds t a = mds s a" and "head t = head s"
  shows "sorted_list E t xs"
proof -
  have "dll (links (mds t)) NULL xs NULL = dll (links (mds s)) NULL xs NULL"
    using assms(2) by (intro dll_cong) (auto simp: links_def)
  moreover have "\<forall>a \<in> set xs. cookie_ok E t a = cookie_ok E s a \<and> size_at t a = size_at s a"
    using assms(2) by (auto simp: cookie_ok_def size_at_def)
  moreover from this have "sorted (map (size_at t) xs) = sorted (map (size_at s) xs)"
    by (intro arg_cong [where f = sorted] map_cong) auto
  ultimately show ?thesis using assms by (simp add: sorted_list_def heap_list_def)
qed

lemma remove_resized:
  assumes l: "sorted_list E s xs" and p: "p \<in> set xs" and m: "mds s p = Some m"
    and m': "nxt m' = nxt m" "prv m' = prv m" "cookie m' = cookie m"
    and t: "mds t = (mds s)(p \<mapsto> m')" "head t = head s"
  shows "\<exists>s'. HeapListRemove E p t = Inr s' \<and> relinked t s' \<and> sorted_list E s' (remove1 p xs)"
proof -
  from l have h: "heap_list E s xs" by (simp add: sorted_list_def)
  have ht: "heap_list E t xs" by (rule heap_list_update [OF h m m' t])
  from p obtain us vs where xs: "xs = us @ p # vs" "p \<notin> set us" by (metis split_list_first)
  with ht HeapListRemove_ok [of E t us p vs] obtain s' where s': "HeapListRemove E p t = Inr s'" "relinked t s'"
    "heap_list E s' (us @ vs)" by auto
  have "p \<notin> set (us @ vs)" using h xs by (auto simp: heap_list_def)
  then have "map (size_at s') (us @ vs) = map (size_at s) (us @ vs)"
    using s'(2) t by (auto simp: relinked_size size_at_def)
  moreover have "sorted (map (size_at s) (us @ vs))" using l xs by (auto simp: sorted_list_def sorted_append)
  moreover have "remove1 p xs = us @ vs" using xs by (simp add: remove1_append)
  ultimately show ?thesis using s' by (metis sorted_list_def)
qed

lemma counters_merge:
  assumes "counters META_3 (us @ (p, n, True) # (q, m, True) # vs) s"
    and "num_free_blocks t = num_free_blocks s - 1" "num_free_bytes t = num_free_bytes s + of_nat META_3"
    and "num_allocated_blocks t = num_allocated_blocks s - 1"
    and "num_allocated_bytes t = num_allocated_bytes s + of_nat META_3"
    and "num_meta_data_bytes t = num_meta_data_bytes s - of_nat META_3"
  shows "counters META_3 (us @ (p, n + m + META_3, True) # vs) t"
  using assms by (simp add: counters_def META_3_def algebra_simps)

lemma blocks_in_swap:
  assumes "blocks_in h (us @ ws @ vs)" and "distinct (map fst (us @ ws @ vs))" and "fst ` set cs \<subseteq> fst ` set ws"
    and "\<And>a. a \<notin> fst ` set cs \<Longrightarrow> a \<in> fst ` set us \<union> fst ` set vs \<Longrightarrow> info h' a = info h a" and "blocks_in h' cs"
  shows "blocks_in h' (us @ cs @ vs)"
proof -
  have "fst ` set cs \<inter> (fst ` set us \<union> fst ` set vs) = {}"
  proof -
    have "fst ` set ws \<inter> (fst ` set us \<union> fst ` set vs) = {}" using assms(2) by auto
    with assms(3) show ?thesis by blast
  qed
  with assms(1,4) have "blocks_in h' us" "blocks_in h' vs"
    using blocks_in_cong [of us h' h] blocks_in_cong [of vs h' h] by (auto simp: disjoint_iff)
  with assms(5) show ?thesis by simp
qed

text \<open>One merge of two neighbouring free blocks.\<close>

lemma merge_step:
  assumes sane: "sane E" and ok: "heap_ok_3 E s (us @ (p, n, True) # (q, m, True) # vs)"
    and anc: "anchored pin k (us @ (p, n, True) # (q, m, True) # vs)" and md: "mds s p = Some pm"
    and t: "t = s\<lparr>mds := (mds s)(p \<mapsto> pm\<lparr>msize := n + m + META_3\<rparr>),
      num_free_blocks := num_free_blocks s - 1, num_free_bytes := num_free_bytes s + of_nat META_3,
      num_allocated_blocks := num_allocated_blocks s - 1,
      num_allocated_bytes := num_allocated_bytes s + of_nat META_3,
      num_meta_data_bytes := num_meta_data_bytes s - of_nat META_3\<rparr>"
  shows "\<exists>s1 s2 s3. HeapListRemove E p t = Inr s1 \<and> HeapListRemove E q s1 = Inr s2 \<and>
    HeapListInsert E p s2 = Inr s3 \<and> kept s s3 \<and> wilderness s3 = wilderness s \<and>
    heap_ok_3 E (s3\<lparr>wilderness := (if q = wilderness s then p else wilderness s)\<rparr>)
      (us @ (p, n + m + META_3, True) # vs)"
proof -
  let ?bs = "us @ (p, n, True) # (q, m, True) # vs" and ?cs = "us @ (p, n + m + META_3, True) # vs"
  from ok obtain xs where xs: "sorted_list E s xs" "mset xs = mset (map fst ?bs)" and lay: "layout_3 s ?bs"
    and fu: "brk s < fuel E" by (auto simp: heap_ok_3_def)
  have d: "distinct (map fst ?bs)" by (rule layout_3_distinct [OF lay])
  have sx: "set xs = fst ` set ?bs" using xs(2) by (metis image_set mset_eq_setD)
  have dx: "distinct xs" using xs by (simp add: sorted_list_def heap_list_def)
  have in_xs: "p \<in> set xs" "q \<in> set xs" "p \<noteq> q" using sx d by auto
  have pin: "(pin, k, False) \<in> set ?bs" "k \<le> n" using anc by (auto simp: anchored_def)
  have pin': "pin \<in> set xs" unfolding sx using pin(1) by (metis fst_conv image_eqI)
  have pin_ne: "pin \<noteq> p" "pin \<noteq> q" 
    using eq_key_imp_eq_value [OF d, of p "(k, False)" "(n, True)"]
      eq_key_imp_eq_value [OF d, of q "(k, False)" "(m, True)"] pin(1) by auto
  note p_blk = heap_ok_3_block [OF ok, of p n True]
  have m_eq: "msize pm = n" "is_free pm = True" using p_blk md by auto
  obtain s1 where s1: "HeapListRemove E p t = Inr s1" "relinked t s1" "sorted_list E s1 (remove1 p xs)"
    using remove_resized [OF xs(1) in_xs(1) md, of "pm\<lparr>msize := n + m + META_3\<rparr>" t] t by auto
  obtain s2 where s2: "HeapListRemove E q s1 = Inr s2" "relinked s1 s2"
    "sorted_list E s2 (remove1 q (remove1 p xs))"
    using sorted_list_remove [OF s1(3), of q] in_xs dx by auto
  let ?ys = "remove1 q (remove1 p xs)"
  have ts2: "relinked t s2" using s1(2) s2(2) by (rule relinked_trans)
  have sz: "size_at s2 = (size_at s)(p := n + m + META_3)"
    using relinked_size [OF ts2] t by (auto simp: size_at_def fun_eq_iff)
  have "cookie_ok E t p" using p_blk(2) md t by (auto simp: cookie_ok_def)
  then have ck: "cookie_ok E s2 p" by (simp add: relinked_cookie [OF ts2])
  have len: "length xs \<le> fuel E"
    using laid_length [OF layout_3_laid [OF lay]] fu arg_cong [OF xs(2), of size] by simp
  have le: "size_at s2 pin \<le> size_at s2 p"
    using sz pin pin_ne heap_ok_3_block(4) [OF ok pin(1)] by simp
  have "pin \<in> set ?ys" "p \<notin> set ?ys" "length ?ys \<le> fuel E"
    using dx pin' pin_ne len in_xs by (simp_all add: length_remove1)
  with sorted_list_insert [OF s2(3) _ ck, of pin] p_blk(3) le
  obtain s3 ys where s3: "HeapListInsert E p s2 = Inr s3" "relinked s2 s3" "sorted_list E s3 ys"
    "mset ys = mset (p # ?ys)" by auto
  have ts3: "relinked t s3" using ts2 s3(2) by (rule relinked_trans)
  let ?w = "s3\<lparr>wilderness := (if q = wilderness s then p else wilderness s)\<rparr>"
  have inf: "info (mds ?w) = (info (mds s))(p \<mapsto> (n + m + META_3, True))"
    using relinkedD(9) [OF ts3] t m_eq by (simp add: dll_simps)
  have "blocks_in (mds s) (us @ [(p, n, True), (q, m, True)] @ vs)"
    "distinct (map fst (us @ [(p, n, True), (q, m, True)] @ vs))"
    using lay d by (simp_all add: layout_3_def)
  from blocks_in_swap [OF this, of "[(p, n + m + META_3, True)]" "mds ?w"]
  have "blocks_in (mds ?w) (us @ [(p, n + m + META_3, True)] @ vs)"
    using inf by simp
  moreover have "tiled (firsthead ?w) (brk ?w) ?cs"
    using lay relinkedD [OF ts3] t by (simp add: layout_3_def tiled_append ac_simps)
  moreover have "wilderness ?w = fst (last ?cs)"
    using lay d by (cases vs rule: rev_cases) (auto simp: layout_3_def)
  moreover have "counters META_3 ?cs ?w"
    using lay relinkedD [OF ts3] t
    by (intro counters_merge [of us p n q m vs s]) (auto simp: layout_3_def)
  ultimately have lw: "layout_3 ?w ?cs"
    using lay relinkedD [OF ts3] t by (simp add: layout_3_def)
  have "mset ys = mset (map fst ?cs)"
    using s3(4) xs(2) in_xs by simp
  moreover have "sorted_list E ?w ys"
    using s3(3) sorted_list_cong [of ?w s3 E ys] by simp
  ultimately have "heap_ok_3 E ?w ?cs"
    using lw fu relinkedD [OF ts3] t by (auto simp: heap_ok_3_def)
  with s1 s2 s3 relinkedD [OF ts3] t show ?thesis
    by (intro exI [of _ s1] exI [of _ s2] exI [of _ s3]) (simp add: kept_def)
qed

section \<open>merge coalesces neighbouring free blocks\<close>

fun coalesce :: "block list \<Rightarrow> block list" where
  "coalesce ((a, n, f) # (b, m, g) # bs) =
     (if f \<and> g then coalesce ((a, n + m + META_3, True) # bs) else (a, n, f) # coalesce ((b, m, g) # bs))"
| "coalesce bs = bs"

text \<open>No two neighbours are both free.\<close>

definition settled :: "block list \<Rightarrow> bool" where
  "settled bs \<longleftrightarrow> (\<forall>us a n f b m g vs. bs = us @ (a, n, f) # (b, m, g) # vs \<longrightarrow> \<not> (f \<and> g))"

lemma coalesce_hd: "\<exists>n' g bs'. coalesce ((a, n, f) # bs) = (a, n', g) # bs' \<and> n \<le> n' \<and> (g \<longleftrightarrow> f)"
proof (induction "(a, n, f) # bs" arbitrary: n f bs rule: coalesce.induct)
  case (1 n f b m g bs)
  then show ?case by (cases "f \<and> g") fastforce+
qed auto

lemma settled_simps [simp]:
  "settled []"
  "settled [x]"
  "settled ((a, n, f) # (b, m, g) # bs) \<longleftrightarrow> \<not> (f \<and> g) \<and> settled ((b, m, g) # bs)"
  by (auto simp: settled_def Cons_eq_append_conv) blast+

lemma settled_coalesce: "settled (coalesce bs)"
proof (induction bs rule: coalesce.induct [case_names step nil single])
  case (step a n f b m g bs)
  obtain n' h bs' where "coalesce ((b, m, g) # bs) = (b, n', h) # bs'" "h \<longleftrightarrow> g"
    using coalesce_hd by blast
  with step show ?case by auto
qed auto

lemma coalesce_live: "live_of META_3 (coalesce bs) = live_of META_3 bs"
  by (induction bs rule: coalesce.induct) auto

lemma coalesce_nonempty [simp]: "coalesce bs = [] \<longleftrightarrow> bs = []"
  by (induction bs rule: coalesce.induct) auto

lemma anchored_coalesce_step:
  "anchored pin k (us @ (p, n, True) # (q, m, True) # vs) \<Longrightarrow> anchored pin k (us @ (p, n + m + META_3, True) # vs)"
  by (auto simp: anchored_def)

lemma anchored_coalesce: "anchored pin k (us @ ws) \<Longrightarrow> anchored pin k (us @ coalesce ws)"
proof (induction ws arbitrary: us rule: coalesce.induct [case_names step nil single])
  case (step a n f b m g bs)
  then show ?case
    using anchored_coalesce_step [of pin k us a n b m bs] step.IH(2) [of "us @ [(a, n, f)]"]
    by (cases "f \<and> g") auto
qed auto

lemma smerge_ok:
  assumes "sane E" and "heap_ok_3 E s (us @ ws)" and "anchored pin k (us @ ws)" and "ws \<noteq> []"
    and "length ws \<le> n"
  shows "\<exists>s'. smerge n E (brk s) (fst (hd ws)) s = Inr s' \<and> heap_ok_3 E s' (us @ coalesce ws) \<and> kept s s'"
  using assms
proof (induction ws arbitrary: us s n rule: coalesce.induct [case_names step nil single])
  case (step p j f q m g vs)
  note ok = step.prems(2)
  obtain pm where pm: "mds s p = Some pm" "msize pm = j" "is_free pm = f"
    using heap_ok_3_block(1) [OF ok, of p j f] by auto
  obtain qm where qm: "mds s q = Some qm" "msize qm = m" "is_free qm = g"
    using heap_ok_3_block(1) [OF ok, of q m g] by auto
  have ck: "cookie_ok E s p" "cookie_ok E s q"
    using heap_ok_3_block(2) [OF ok, of p j f] heap_ok_3_block(2) [OF ok, of q m g] by auto
  have q: "q = p + j + META_3" using ok by (auto simp: heap_ok_3_def layout_3_def tiled_append)
  have b: "q + META_3 + m \<le> brk s" "brk s < fuel E" "0 < m" "0 < j"
    using heap_ok_3_block(6,7,8) [OF ok, of q m g] heap_ok_3_block(8) [OF ok, of p j f] by auto
  have lim: "p \<noteq> brk s" "q \<noteq> brk s" using b q by auto
  have n: "n \<noteq> 0" "n - 1 \<noteq> 0" using step.prems(5) by auto
  show ?case
  proof (cases "f \<and> g")
    case False
    have "smerge n E (brk s) p s = smerge (n - 1) E (brk s) q s"
      using pm qm ck lim n q False by (subst smerge.simps) auto
    moreover have "\<exists>s'. smerge (n - 1) E (brk s) (fst (hd ((q, m, g) # vs))) s = Inr s' \<and>
        heap_ok_3 E s' ((us @ [(p, j, f)]) @ coalesce ((q, m, g) # vs)) \<and> kept s s'"
      using step.prems by (intro step.IH(2) [OF False]) auto
    ultimately show ?thesis using False by auto
  next
    case True
    let ?t = "s\<lparr>mds := (mds s)(p \<mapsto> pm\<lparr>msize := j + m + META_3\<rparr>),
      num_free_blocks := num_free_blocks s - 1, num_free_bytes := num_free_bytes s + of_nat META_3,
      num_allocated_blocks := num_allocated_blocks s - 1,
      num_allocated_bytes := num_allocated_bytes s + of_nat META_3,
      num_meta_data_bytes := num_meta_data_bytes s - of_nat META_3\<rparr>"
    from True ok step.prems(3) merge_step [OF step.prems(1), of s us p j q m vs pin k pm ?t] pm(1)
    obtain s1 s2 s3 where st: "HeapListRemove E p ?t = Inr s1" "HeapListRemove E q s1 = Inr s2"
      "HeapListInsert E p s2 = Inr s3" "kept s s3" "wilderness s3 = wilderness s"
      and ok3: "heap_ok_3 E (s3\<lparr>wilderness := (if q = wilderness s then p else wilderness s)\<rparr>)
        (us @ (p, j + m + META_3, True) # vs)" by auto
    have "sz_add (msize pm) (sz_add (msize qm) META_3) = j + m + META_3"
      using pm qm b q step.prems(1) by (simp add: sz_add_exact sane_def)
    then have e: "smerge n E (brk s) p s =
        (if q = wilderness s3 then Inr (s3\<lparr>wilderness := p\<rparr>) else smerge (n - 1) E (brk s) p s3)"
      using pm qm ck lim n q True st(1-3) by (subst smerge.simps) (simp add: list_3)
    show ?thesis
    proof (cases "q = wilderness s")
      case w: True
      have "vs = []"
        using w layout_3_distinct [of s "us @ (p, j, f) # (q, m, g) # vs"] ok
        by (cases vs rule: rev_cases) (auto simp: heap_ok_3_def layout_3_def)
      with w e st ok3 True show ?thesis by (auto simp: kept_def)
    next
      case w: False
      have "s3\<lparr>wilderness := wilderness s\<rparr> = s3" using st(5) by simp
      with ok3 w have "heap_ok_3 E s3 (us @ (p, j + m + META_3, True) # vs)" by simp
      moreover have "anchored pin k (us @ (p, j + m + META_3, True) # vs)"
        using step.prems(3) True anchored_coalesce_step by simp
      ultimately have "\<exists>s'. smerge (n - 1) E (brk s3) (fst (hd ((p, j + m + META_3, True) # vs))) s3 = Inr s' \<and>
          heap_ok_3 E s' (us @ coalesce ((p, j + m + META_3, True) # vs)) \<and> kept s3 s'"
        using step.prems(1,5) by (intro step.IH(1) [OF True]) auto
      with e w st True show ?thesis by (auto simp: kept_def)
    qed
  qed
next
  case (single v)
  obtain p j f where v: "v = (p, j, f)" by (cases v)
  note ok = single.prems(2)
  obtain pm where pm: "mds s p = Some pm" "msize pm = j" "is_free pm = f"
    using heap_ok_3_block(1) [OF ok, of p j f] v by auto
  have "p + j + META_3 = brk s" "0 < j"
    using ok v by (auto simp: heap_ok_3_def layout_3_def tiled_append)
  moreover have "cookie_ok E s p" using heap_ok_3_block(2) [OF ok, of p j f] v by simp
  ultimately have "smerge n E (brk s) p s = Inr s"
    using pm single.prems(5) by (subst smerge.simps) simp
  with ok v show ?case by simp
qed simp

lemma merge_3_ok:
  assumes "sane E" and ok: "heap_ok_3 E s bs" and "anchored pin k bs"
  shows "\<exists>s'. merge_3 E s = Inr s' \<and> heap_ok_3 E s' (coalesce bs) \<and> kept s s'"
proof -
  obtain a n f cs where bs: "bs = (a, n, f) # cs" using ok by (cases bs) (auto simp: heap_ok_3_def layout_3_def)
  have "firsthead s = a" "a \<noteq> NULL"
    using ok bs heap_ok_3_block(3) [OF ok, of a n f] by (auto simp: heap_ok_3_def layout_3_def)
  moreover have "length bs \<le> fuel E"
    using laid_length [OF layout_3_laid, of s bs] ok by (auto simp: heap_ok_3_def)
  ultimately show ?thesis
    using smerge_ok [of E s "[]" bs pin k "fuel E"] assms bs by (simp add: merge_3_def)
qed

section \<open>sfree\<close>

text \<open>Changing the free flag of a block, with the counters that go with it.\<close>

lemma heap_ok_3_flag:
  assumes ok: "heap_ok_3 E s (us @ (a, n, f) # vs)" and m: "mds s a = Some m"
    and t: "t = s\<lparr>mds := (mds s)(a \<mapsto> m\<lparr>is_free := g\<rparr>), num_free_blocks := fb, num_free_bytes := fy\<rparr>"
    and c: "counters META_3 (us @ (a, n, g) # vs) t"
  shows "heap_ok_3 E t (us @ (a, n, g) # vs)" and "kept s t"
proof -
  from ok obtain xs where xs: "sorted_list E s xs" "mset xs = mset (map fst (us @ (a, n, f) # vs))"
    and lay: "layout_3 s (us @ (a, n, f) # vs)" and fu: "brk s < fuel E" by (auto simp: heap_ok_3_def)
  have "heap_list E t xs"
    using xs(1) by (intro heap_list_update [OF _ m, of E xs "m\<lparr>is_free := g\<rparr>" t]) (auto simp: sorted_list_def t)
  moreover have "size_at t = size_at s" using m by (auto simp: size_at_def t fun_eq_iff)
  ultimately have "sorted_list E t xs" using xs(1) by (simp add: sorted_list_def)
  moreover have "blocks_in (mds t) (us @ (a, n, g) # vs)"
    using blocks_in_flag [of "mds s" us a n f vs m g] layout_3_distinct [OF lay] m lay
    by (simp add: layout_3_def t)
  moreover have "wilderness t = fst (last (us @ (a, n, g) # vs))"
    using lay by (simp add: layout_3_def t split: if_splits)
  ultimately have "layout_3 t (us @ (a, n, g) # vs)" "sorted_list E t xs"
    using lay c tiled_flag [of _ _ us a n f vs g] by (simp_all add: layout_3_def t)
  then show "heap_ok_3 E t (us @ (a, n, g) # vs)"
    using xs(2) fu by (auto simp: heap_ok_3_def t)
  show "kept s t" by (simp add: kept_def t)
qed

lemma sfree_3_ok:
  assumes sane: "sane E" and ok: "heap_ok_3 E s (us @ (a, n, False) # vs)"
    and anc: "anchored pin k (us @ (a, n, True) # vs)" and n: "n < MMAP_THRESHOLD"
  shows "\<exists>s'. sfree_3 E (a + META_3) s = Inr s' \<and> heap_ok_3 E s' (coalesce (us @ (a, n, True) # vs)) \<and> kept s s'"
proof -
  obtain m where m: "mds s a = Some m" "msize m = n" "is_free m = False"
    using heap_ok_3_block(1) [OF ok, of a n False] by auto
  have ck: "cookie_ok E s a" using heap_ok_3_block(2) [OF ok, of a n False] by simp
  let ?t = "s\<lparr>mds := (mds s)(a \<mapsto> m\<lparr>is_free := True\<rparr>), num_free_blocks := num_free_blocks s + 1,
    num_free_bytes := num_free_bytes s + of_nat n\<rparr>"
  have "counters META_3 (us @ (a, n, True) # vs) ?t"
    using ok by (simp add: heap_ok_3_def layout_3_def counters_def)
  from heap_ok_3_flag [OF ok m(1) refl this] have t: "heap_ok_3 E ?t (us @ (a, n, True) # vs)" "kept s ?t" .
  from merge_3_ok [OF sane t(1) anc] obtain s' where
    s': "merge_3 E ?t = Inr s'" "heap_ok_3 E s' (coalesce (us @ (a, n, True) # vs))" "kept ?t s'" by blast
  have "sfree_3 E (a + META_3) s = merge_3 E ?t"
    using ck m n by (simp add: sfree_3_def list_3)
  with s' t(2) kept_trans show ?thesis by auto
qed

section \<open>split\<close>

definition split_blocks :: "ptr \<Rightarrow> nat \<Rightarrow> nat \<Rightarrow> block list" where
  "split_blocks a n n' =
     (if n' + META_3 + SPLIT_THRESHOLD \<le> n
      then [(a, n', False), (a + n' + META_3, n - n' - META_3, True)] else [(a, n, False)])"

text \<open>Bytes outside a region, and what \<open>kept\<close> keeps besides bytes.\<close>

definition kept_outside :: "nat \<Rightarrow> nat \<Rightarrow> heap_3 \<Rightarrow> heap_3 \<Rightarrow> bool" where
  "kept_outside lo hi s s' \<longleftrightarrow> brk0 s' = brk0 s \<and> brk s' = brk s \<and> regions s' = regions s \<and>
     firsthead s' = firsthead s \<and> mmhead s' = mmhead s \<and> (\<forall>x. x < lo \<or> hi \<le> x \<longrightarrow> data s' x = data s x)"

lemma kept_kept_outside: "kept s s' \<Longrightarrow> kept_outside lo hi s s'"
  by (simp add: kept_def kept_outside_def)

lemma splittable_eq:
  assumes "n < 2 ^ 31" and "n' \<le> n"
  shows "splittable n n' = Inr (n' + META_3 + SPLIT_THRESHOLD \<le> n)"
  using assms by (simp add: splittable_def int_sub_def c_int_small META_3_def SPLIT_THRESHOLD_def) linarith

lemma counters_split:
  assumes "counters META_3 (us @ (a, n, f) # vs) s" and "n = n' + META_3 + r"
    and "num_free_blocks t = (if f then num_free_blocks s else num_free_blocks s + 1)"
    and "num_free_bytes t = (if f then num_free_bytes s - of_nat (n' + META_3) else num_free_bytes s + of_nat r)"
    and "num_allocated_blocks t = num_allocated_blocks s + 1"
    and "num_allocated_bytes t = num_allocated_bytes s - of_nat META_3"
    and "num_meta_data_bytes t = num_meta_data_bytes s + of_nat META_3"
  shows "counters META_3 (us @ (a, n', False) # (b, r, True) # vs) t"
  using assms by (cases f) (simp_all add: counters_def META_3_def algebra_simps)

text \<open>A structure stored in the payload of a block leaves the headers of all blocks alone.\<close>

lemma stored_header_apart:
  assumes lay: "layout_3 s (us @ (a, n, f) # vs)" and b: "(b, j, g) \<in> set (us @ (a, n, f) # vs)"
    and x: "a + META_3 \<le> x" "x + META_3 \<le> a + META_3 + n"
  shows "\<not> overlaps x META_3 b META_3" and "b \<noteq> x"
proof -
  have "b = a \<or> b + META_3 + j \<le> a \<or> a + META_3 + n \<le> b"
    using laid_apart [OF layout_3_laid [OF lay] b, of a n f] by (cases "b = a") auto
  with x show "\<not> overlaps x META_3 b META_3" "b \<noteq> x" by (auto simp: overlaps_def META_3_def)
qed

lemma split_3_run:
  assumes m: "mds s a = Some m" "msize m = n" "is_free m = f" and ck: "cookie_ok E s a"
    and n: "n = n' + META_3 + r" "SPLIT_THRESHOLD \<le> r" "n < 2 ^ 31" and b: "b = a + n' + META_3" and im: "in_mem s b META_3"
    and apart: "a \<noteq> b" "\<not> overlaps b META_3 a META_3"
    and t: "t = s\<lparr>wilderness := (if a = wilderness s then b else wilderness s),
      mds := (\<lambda>q. if q = b then Some (split_header E r) else if overlaps b META_3 q META_3 then None else mds s q)
        (a \<mapsto> m\<lparr>is_free := False, msize := n'\<rparr>),
      data := (\<lambda>x. if b \<le> x \<and> x < b + META_3 then None else data s x),
      num_free_blocks := (if f then num_free_blocks s else num_free_blocks s + 1),
      num_free_bytes := (if f then num_free_bytes s - of_nat (n' + META_3) else num_free_bytes s + of_nat r),
      num_allocated_blocks := num_allocated_blocks s + 1, num_allocated_bytes := num_allocated_bytes s - of_nat META_3,
      num_meta_data_bytes := num_meta_data_bytes s + of_nat META_3\<rparr>"
  shows "split_3 E a n' s = rbind (HeapListRemove E a t) (\<lambda>s. rbind (HeapListInsert E a s) (HeapListInsert E b))"
proof -
  have szs: "sz_sub (sz_sub n n') META_3 = r" "sz_add n' META_3 = n' + META_3"
    using n by (simp_all add: sz_sub_exact sz_add_exact)
  have spl: "splittable n n' = Inr True" using n by (subst splittable_eq) (auto simp: SPLIT_THRESHOLD_def)
  define s0 where "s0 = (if a = wilderness s then s\<lparr>wilderness := b\<rparr> else s)"
  define s1 where "s1 = s0\<lparr>
      mds := (\<lambda>q. if q = b then Some (split_header E r) else if overlaps b META_3 q META_3 then None else mds s q),
      data := (\<lambda>x. if b \<le> x \<and> x < b + META_3 then None else data s x)\<rparr>"
  have "in_mem s0 b META_3" "mds s0 = mds s" "data s0 = data s"
    using im by (auto simp: s0_def in_mem_def)
  then have st: "store_md META_3 b (split_header E r) s0 = Inr s1"
    by (simp add: store_md_def s1_def cong: if_cong)
  have m1: "mds s1 a = Some m" using m(1) apart by (simp add: s1_def)
  have e: "split_3 E a n' s = rbind (store_md META_3 b (split_header E r) s0) (\<lambda>s.
      let s = (if f = False then s\<lparr>num_free_blocks := num_free_blocks s + 1, num_free_bytes := num_free_bytes s + of_nat r\<rparr>
               else s\<lparr>num_free_bytes := num_free_bytes s - of_nat (n' + META_3)\<rparr>) in
      rbind (set_free a False s) (\<lambda>s. rbind (set_size a n' s) (\<lambda>s.
      let s = s\<lparr>num_allocated_blocks := num_allocated_blocks s + 1, num_allocated_bytes := num_allocated_bytes s - of_nat META_3,
                num_meta_data_bytes := num_meta_data_bytes s + of_nat META_3\<rparr> in
      rbind (HeapListRemove E a s) (\<lambda>s. rbind (HeapListInsert E a s) (HeapListInsert E b)))))"
    unfolding split_3_def s0_def using ck m spl by (simp only: validateCookie_ok rbind.simps deref_Some
        m szs Let_def if_True if_False simp_thms flip: b)
  define s2 where "s2 = (if f then s1\<lparr>num_free_bytes := num_free_bytes s1 - of_nat (n' + META_3)\<rparr>
    else s1\<lparr>num_free_blocks := num_free_blocks s1 + 1, num_free_bytes := num_free_bytes s1 + of_nat r\<rparr>)"
  define s3 where "s3 = s2\<lparr>mds := (mds s1)(a \<mapsto> m\<lparr>is_free := False, msize := n'\<rparr>)\<rparr>"
  define s4 where "s4 = s3\<lparr>num_allocated_blocks := num_allocated_blocks s3 + 1,
    num_allocated_bytes := num_allocated_bytes s3 - of_nat META_3,
    num_meta_data_bytes := num_meta_data_bytes s3 + of_nat META_3\<rparr>"
  have m2: "mds s2 = mds s1" by (simp add: s2_def)
  have "rbind (set_free a False s2) (set_size a n') = Inr s3"
    using m1 by (simp add: m2 list_3 s3_def)
  then have "split_3 E a n' s = rbind (HeapListRemove E a s4) (\<lambda>s. rbind (HeapListInsert E a s) (HeapListInsert E b))"
    unfolding e st s4_def s2_def by (cases f) (simp_all add: Let_def rbind_assoc [symmetric])
  moreover have "s4 = t"
    by (rule heap_3.equality) (simp_all add: s4_def s3_def s2_def s1_def s0_def t)
  ultimately show ?thesis by simp
qed

text \<open>The three list operations of a split.\<close>

lemma relist_split:
  assumes l: "sorted_list E s xs" and a: "a \<in> set xs" and b: "b \<notin> set xs" "cookie_ok E t b" "b \<noteq> NULL"
    and m: "mds s a = Some m" and m': "nxt m' = nxt m" "prv m' = prv m" "cookie m' = cookie m"
    and t: "\<forall>x \<in> set xs. mds t x = ((mds s)(a \<mapsto> m')) x" "head t = head s"
    and pin: "pin \<in> set xs" "pin \<noteq> a" "size_at t pin \<le> size_at t a" "size_at t pin \<le> size_at t b"
    and len: "length xs < fuel E"
  shows "\<exists>s1 s2 s3 ys. HeapListRemove E a t = Inr s1 \<and> HeapListInsert E a s1 = Inr s2 \<and>
    HeapListInsert E b s2 = Inr s3 \<and> relinked t s3 \<and> sorted_list E s3 ys \<and> mset ys = mset (b # xs)"
proof -
  have dx: "distinct xs" using l by (simp add: sorted_list_def heap_list_def)
  have b_ne: "b \<noteq> a" "pin \<noteq> b" using a b pin by auto
  have ck: "cookie_ok E s a" using l a by (auto simp: sorted_list_def heap_list_def)
  have ckt: "cookie_ok E t a" using ck m m' t a by (auto simp: cookie_ok_def)
  define s0 where "s0 = s\<lparr>mds := (mds t)(a \<mapsto> m)\<rparr>"
  have l0: "sorted_list E s0 xs"
    by (rule sorted_list_outside [OF l]) (use t m in \<open>auto simp: s0_def\<close>)
  have "mds t a = Some m'" using t(1) a by simp
  then have mt: "mds t = (mds s0)(a \<mapsto> m')" by (simp add: s0_def fun_eq_iff)
  have h0: "mds s0 a = Some m" "head t = head s0" using t(2) by (simp_all add: s0_def)
  obtain s1 where s1: "HeapListRemove E a t = Inr s1" "relinked t s1" "sorted_list E s1 (remove1 a xs)"
    using remove_resized [OF l0 a h0(1) m' mt h0(2)] by blast
  have a0: "a \<noteq> NULL" using l a by (auto simp: sorted_list_def heap_list_def intro: gr0I)
  have "\<exists>s2 ys. HeapListInsert E a s1 = Inr s2 \<and> relinked s1 s2 \<and> sorted_list E s2 ys \<and> mset ys = mset (a # remove1 a xs)"
    using dx a pin len ckt a0 relinked_size [OF s1(2)] relinked_cookie [OF s1(2)]
    by (intro sorted_list_insert [OF s1(3), where p = pin]) (simp_all add: length_remove1)
  then obtain s2 ys where s2: "HeapListInsert E a s1 = Inr s2" "relinked s1 s2" "sorted_list E s2 ys"
    "mset ys = mset xs" using a by auto
  have ts2: "relinked t s2" using s1(2) s2(2) by (rule relinked_trans)
  have sy: "set ys = set xs" "length ys = length xs" using s2(4) by (metis set_mset_mset, metis size_mset)
  have "\<exists>s3 zs. HeapListInsert E b s2 = Inr s3 \<and> relinked s2 s3 \<and> sorted_list E s3 zs \<and> mset zs = mset (b # ys)"
    using b pin len sy relinked_size [OF ts2] relinked_cookie [OF ts2]
    by (intro sorted_list_insert [OF s2(3), where p = pin]) auto
  with s1 s2 relinked_trans [OF ts2] show ?thesis by fastforce
qed

lemma split_3_fits:
  assumes sane: "sane E" and ok: "heap_ok_3 E s (us @ (a, n, f) # vs)"
    and anc: "anchored pin k (us @ (a, n, f) # vs)" and n': "k \<le> n'" "0 < n'"
    and n: "n = n' + META_3 + r" "SPLIT_THRESHOLD \<le> r" and b: "b = a + n' + META_3"
  shows "\<exists>s'. split_3 E a n' s = Inr s' \<and> heap_ok_3 E s' (us @ (a, n', False) # (b, r, True) # vs) \<and>
    kept_outside b (b + META_3) s s'"
proof -
  let ?bs = "us @ (a, n, f) # vs" and ?cs = "us @ (a, n', False) # (b, r, True) # vs"
  obtain xs where xs: "sorted_list E s xs" "mset xs = mset (map fst ?bs)" and lay: "layout_3 s ?bs"
    and fu: "brk s < fuel E" using ok by (auto simp: heap_ok_3_def)
  have d: "distinct (map fst ?bs)" by (rule layout_3_distinct [OF lay])
  have sx: "set xs = fst ` set ?bs" using xs(2) by (metis image_set mset_eq_setD)
  have mem: "(a, n, f) \<in> set ?bs" by simp
  note blk = heap_ok_3_block [OF ok mem]
  obtain m where m: "mds s a = Some m" "msize m = n" "is_free m = f" using blk(1) by auto
  have bnd: "a + META_3 + n \<le> brk s" "brk0 s \<le> a" "n < 2 ^ 31" "a \<noteq> NULL" "a \<in> set xs"
    using blk(3,5,6) fu sane sx by (auto simp: sane_def)
  have inb: "a + META_3 \<le> b" "b + META_3 \<le> a + META_3 + n" "b \<noteq> NULL"
    using n b bnd by auto
  have apart: "\<not> overlaps b META_3 c META_3" "c \<noteq> b" if "c \<in> set xs" for c
  proof -
    from that obtain j g where "(c, j, g) \<in> set ?bs" unfolding sx by fastforce
    from stored_header_apart [OF lay this inb(1,2)]
    show "\<not> overlaps b META_3 c META_3" "c \<noteq> b" by simp_all
  qed
  define m' where "m' = m\<lparr>is_free := False, msize := n'\<rparr>"
  define t where "t = s\<lparr>wilderness := (if a = wilderness s then b else wilderness s),
      mds := (\<lambda>q. if q = b then Some (split_header E r) else if overlaps b META_3 q META_3 then None else mds s q)
        (a \<mapsto> m'),
      data := (\<lambda>x. if b \<le> x \<and> x < b + META_3 then None else data s x),
      num_free_blocks := (if f then num_free_blocks s else num_free_blocks s + 1),
      num_free_bytes := (if f then num_free_bytes s - of_nat (n' + META_3) else num_free_bytes s + of_nat r),
      num_allocated_blocks := num_allocated_blocks s + 1, num_allocated_bytes := num_allocated_bytes s - of_nat META_3,
      num_meta_data_bytes := num_meta_data_bytes s + of_nat META_3\<rparr>"
  have "in_mem s b META_3" using inb bnd by (auto intro!: in_mem_brk)
  from split_3_run [OF m blk(2) n bnd(3) b this _ _ t_def [unfolded m'_def]] apart [OF bnd(5)]
  have run: "split_3 E a n' s = rbind (HeapListRemove E a t) (\<lambda>s. rbind (HeapListInsert E a s) (HeapListInsert E b))"
    by simp
  have mt: "mds t x = ((mds s)(a \<mapsto> m')) x" if "x \<in> set xs" for x
    using apart [OF that] by (simp add: t_def)
  have mb: "mds t b = Some (split_header E r)" using apart [OF bnd(5)] by (simp add: t_def)
  have pin: "(pin, k, False) \<in> set ?bs" "k \<le> SPLIT_THRESHOLD" "k \<le> n" using anc by (auto simp: anchored_def)
  have pinx: "pin \<in> set xs" unfolding sx using pin(1) by (metis fst_conv image_eqI)
  have pin_ne: "pin \<noteq> a"
    using eq_key_imp_eq_value [OF d, of a "(k, False)" "(n, f)"] pin(1) n n' by (auto simp: SPLIT_THRESHOLD_def)
  have sz: "size_at t a = n'" "size_at t b = r" "size_at t pin = k"
    using mt [OF bnd(5)] mt [OF pinx] mb pin_ne heap_ok_3_block(4) [OF ok pin(1)]
    by (simp_all add: size_at_def m'_def split_header_def)
  have ckb: "cookie_ok E t b" using mb by (simp add: cookie_ok_def split_header_def)
  have bx: "b \<notin> set xs" using apart by blast
  have "length xs < fuel E"
    using laid_length [OF layout_3_laid [OF lay]] fu arg_cong [OF xs(2), of size] by simp
  moreover have "\<forall>x \<in> set xs. mds t x = ((mds s)(a \<mapsto> m')) x" using mt by blast
  moreover have "size_at t pin \<le> size_at t a" "size_at t pin \<le> size_at t b" using sz n' n pin by simp_all
  moreover have "nxt m' = nxt m" "prv m' = prv m" "cookie m' = cookie m" "head t = head s"
    by (simp_all add: m'_def t_def)
  ultimately obtain s1 s2 s3 ys where r: "HeapListRemove E a t = Inr s1" "HeapListInsert E a s1 = Inr s2"
    "HeapListInsert E b s2 = Inr s3" "relinked t s3" "sorted_list E s3 ys" "mset ys = mset (b # xs)"
    using relist_split [OF xs(1) bnd(5) bx ckb inb(3) m(1) _ _ _ _ _ pinx pin_ne] by blast
  note f = relinkedD [OF r(4)]
  have inf: "info (mds s3) c = info (mds s) c" if "c \<noteq> a" "c \<noteq> b" "c \<in> fst ` set us \<union> fst ` set vs" for c
  proof -
    have "c \<in> set xs" using that sx by auto
    with mt that show ?thesis by (simp add: f(9)) (simp add: info_def)
  qed
  have infs: "info (mds s3) a = Some (n', False)" "info (mds s3) b = Some (r, True)"
    using mt [OF bnd(5)] mb by (simp_all add: f(9)) (simp_all add: info_def m'_def split_header_def)
  have d': "a \<notin> fst ` set us \<union> fst ` set vs" "b \<notin> fst ` set us \<union> fst ` set vs"
    using d bx sx by auto
  have "blocks_in (mds s3) us = blocks_in (mds s) us"
    by (rule blocks_in_cong) (metis inf d' Un_iff)
  moreover have "blocks_in (mds s3) vs = blocks_in (mds s) vs"
    by (rule blocks_in_cong) (metis inf d' Un_iff)
  ultimately have bi: "blocks_in (mds s3) ?cs" using lay infs by (simp add: layout_3_def)
  have "tiled (firsthead s) (brk s) ?cs"
    using lay n b by (auto simp: layout_3_def tiled_append SPLIT_THRESHOLD_def ac_simps n'(2))
  moreover have "wilderness t = fst (last ?cs)"
    using lay d by (cases vs rule: rev_cases) (auto simp: layout_3_def t_def)
  moreover have "counters META_3 ?cs t"
    using lay by (intro counters_split [OF _ n(1), of us a f vs s]) (simp_all add: layout_3_def t_def)
  ultimately have "layout_3 s3 ?cs"
    using lay bi f by (simp add: layout_3_def t_def)
  moreover have "mset ys = mset (map fst ?cs)" using r(6) xs(2) by simp
  ultimately have "heap_ok_3 E s3 ?cs"
    using r(5) f(2) fu by (auto simp: heap_ok_3_def t_def)
  moreover have "kept_outside b (b + META_3) s s3" using f by (auto simp: kept_outside_def t_def)
  ultimately show ?thesis using run r by auto
qed

text \<open>A block that is too small to be split is taken as it is.\<close>

lemma split_3_whole:
  assumes sane: "sane E" and ok: "heap_ok_3 E s (us @ (a, n, f) # vs)"
    and n': "n' \<le> n" "\<not> n' + META_3 + SPLIT_THRESHOLD \<le> n"
  shows "\<exists>s'. split_3 E a n' s = Inr s' \<and> heap_ok_3 E s' (us @ (a, n, False) # vs) \<and> kept s s'"
proof -
  have mem: "(a, n, f) \<in> set (us @ (a, n, f) # vs)" by simp
  note blk = heap_ok_3_block [OF ok mem]
  obtain m where m: "mds s a = Some m" "msize m = n" "is_free m = f" using blk(1) by auto
  have "splittable n n' = Inr False" using n' blk(6,7) sane by (subst splittable_eq) (auto simp: sane_def)
  then have e: "split_3 E a n' s =
      (if f then Inr (s\<lparr>mds := (mds s)(a \<mapsto> m\<lparr>is_free := False\<rparr>), num_free_blocks := num_free_blocks s - 1,
         num_free_bytes := num_free_bytes s - of_nat n\<rparr>) else Inr s)"
    using blk(2) m by (simp add: split_3_def list_3)
  show ?thesis
  proof (cases f)
    case True
    let ?t = "s\<lparr>mds := (mds s)(a \<mapsto> m\<lparr>is_free := False\<rparr>), num_free_blocks := num_free_blocks s - 1,
      num_free_bytes := num_free_bytes s - of_nat n\<rparr>"
    have "counters META_3 (us @ (a, n, False) # vs) ?t"
      using ok True by (simp add: heap_ok_3_def layout_3_def counters_def)
    from heap_ok_3_flag [OF ok m(1) refl this] e True show ?thesis by auto
  next
    case False
    with e ok show ?thesis by auto
  qed
qed

lemma split_3_ok:
  assumes sane: "sane E" and ok: "heap_ok_3 E s (us @ (a, n, f) # vs)"
    and anc: "anchored pin k (us @ (a, n, f) # vs)" and n': "k \<le> n'" "0 < n'" "n' \<le> n"
  shows "\<exists>s'. split_3 E a n' s = Inr s' \<and> heap_ok_3 E s' (us @ split_blocks a n n' @ vs) \<and>
    kept_outside (a + META_3 + n') (a + META_3 + n) s s'"
proof (cases "n' + META_3 + SPLIT_THRESHOLD \<le> n")
  case True
  define r where "r = n - n' - META_3"
  have r: "n = n' + META_3 + r" "SPLIT_THRESHOLD \<le> r" using True by (auto simp: r_def)
  from split_3_fits [OF sane ok anc n'(1,2) r refl] obtain s' where "split_3 E a n' s = Inr s'"
    "heap_ok_3 E s' (us @ (a, n', False) # (a + n' + META_3, r, True) # vs)"
    "kept_outside (a + n' + META_3) (a + n' + META_3 + META_3) s s'" by blast
  moreover from True have "split_blocks a n n' = [(a, n', False), (a + n' + META_3, r, True)]"
    by (simp add: split_blocks_def r_def)
  ultimately show ?thesis using r by (auto simp: kept_outside_def SPLIT_THRESHOLD_def META_3_def)
next
  case False
  from split_3_whole [OF sane ok n'(3) False] False kept_kept_outside show ?thesis
    by (auto simp: split_blocks_def)
qed

section \<open>smalloc\<close>

definition fits :: "nat \<Rightarrow> block \<Rightarrow> bool" where
  "fits n b = (case b of (a, m, f) \<Rightarrow> f \<and> n \<le> m)"

text \<open>
  What \<open>smalloc\<close> promises, with break \<open>b\<close> and blocks \<open>bs\<close> before: the smallest free block that
  fits is taken and split; without one a free wilderness block grows by what it lacks;
  otherwise a new block is appended. The system can refuse.
\<close>

inductive alloc_3 :: "grants \<Rightarrow> nat \<Rightarrow> nat \<Rightarrow> block list \<Rightarrow> ptr \<Rightarrow> nat \<Rightarrow> block list \<Rightarrow> bool" for g n b where
  best_fit: "n \<le> m \<Longrightarrow> \<forall>(c, j, f) \<in> set (us @ (a, m, True) # vs). f \<and> n \<le> j \<longrightarrow> m \<le> j \<Longrightarrow>
    alloc_3 g n b (us @ (a, m, True) # vs) (a + META_3) b (us @ split_blocks a m n @ vs)"
| grow: "\<forall>c \<in> set (us @ [(w, m, True)]). \<not> fits n c \<Longrightarrow> g b (n - m) \<Longrightarrow>
    alloc_3 g n b (us @ [(w, m, True)]) (w + META_3) (b + (n - m)) (us @ [(w, n, False)])"
| grow_refused: "\<forall>c \<in> set (us @ [(w, m, True)]). \<not> fits n c \<Longrightarrow> \<not> g b (n - m) \<Longrightarrow>
    alloc_3 g n b (us @ [(w, m, True)]) NULL b (us @ [(w, m, True)])"
| extend: "\<forall>c \<in> set (us @ [(w, m, False)]). \<not> fits n c \<Longrightarrow> g b (n + META_3) \<Longrightarrow>
    alloc_3 g n b (us @ [(w, m, False)]) (b + META_3) (b + (n + META_3)) (us @ [(w, m, False), (b, n, False)])"
| extend_refused: "\<forall>c \<in> set (us @ [(w, m, False)]). \<not> fits n c \<Longrightarrow> \<not> g b (n + META_3) \<Longrightarrow>
    alloc_3 g n b (us @ [(w, m, False)]) NULL b (us @ [(w, m, False)])"

text \<open>The search returns the first fit of the list.\<close>

definition fits_at :: "heap_3 \<Rightarrow> nat \<Rightarrow> ptr \<Rightarrow> bool" where
  "fits_at s n a = (case mds s a of None \<Rightarrow> False | Some m \<Rightarrow> is_free m \<and> msize m \<ge> n)"

lemma search_3_ok:
  assumes "heap_list E s (us @ p # vs)" and "length vs < k"
  shows "search_3 k E n p s = Inr (find (fits_at s n) (p # vs))"
  using assms
proof (induction vs arbitrary: us p k)
  case Nil
  obtain m where m: "mds s p = Some m" "nxt m = NULL" using heap_list_node [OF Nil(1)] by auto
  have "cookie_ok E s p" using Nil(1) by (simp add: heap_list_def)
  with m Nil(2) show ?case by (subst search_3.simps) (simp add: fits_at_def)
next
  case (Cons y vs)
  obtain m where m: "mds s p = Some m" "nxt m = y" using heap_list_node [OF Cons.prems(1)] by auto
  have "cookie_ok E s p" "y \<noteq> NULL" using Cons.prems(1) by (auto simp: heap_list_def)
  moreover have "search_3 (k - 1) E n y s = Inr (find (fits_at s n) (y # vs))"
    using Cons.prems by (intro Cons.IH [of "us @ [p]"]) auto
  ultimately show ?case
    using m Cons.prems(2) by (subst search_3.simps) (simp add: fits_at_def)
qed

lemma find_sorted_least:
  assumes "find P xs = Some x" and "sorted (map z xs)" and "y \<in> set xs" and "P y"
  shows "z x \<le> z y"
  using assms by (induction xs) (auto split: if_splits)

lemma heap_ok_3_list:
  assumes "heap_ok_3 E s bs"
  obtains xs where "sorted_list E s xs" "mset xs = mset (map fst bs)" "set xs = fst ` set bs"
    "length xs = length bs" "length xs < fuel E" "head s \<noteq> NULL" "xs \<noteq> []" "head s = hd xs" "distinct xs"
proof -
  from assms obtain xs where xs: "sorted_list E s xs" "mset xs = mset (map fst bs)" and lay: "layout_3 s bs"
    and fu: "brk s < fuel E" by (auto simp: heap_ok_3_def)
  have sx: "set xs = fst ` set bs" using xs(2) by (metis image_set mset_eq_setD)
  have len: "length xs = length bs" using arg_cong [OF xs(2), of size] by simp
  moreover have "length bs < fuel E" using laid_length [OF layout_3_laid [OF lay]] fu by simp
  moreover have ne: "xs \<noteq> []" using len lay by (auto simp: layout_3_def)
  moreover have "head s = hd xs" "NULL \<notin> set xs" "distinct xs"
    using xs(1) ne by (auto simp: sorted_list_def heap_list_def)
  ultimately show thesis using that [OF xs sx len] hd_in_set [OF ne] by metis
qed

lemma heap_ok_3_fits_at:
  assumes "heap_ok_3 E s bs" and "(a, m, f) \<in> set bs"
  shows "fits_at s n a \<longleftrightarrow> fits n (a, m, f)"
  using heap_ok_3_block(1) [OF assms] by (auto simp: fits_at_def fits_def)

text \<open>The search on the heap: a best fit, or none.\<close>

lemma search_3_heap:
  assumes ok: "heap_ok_3 E s bs"
  shows "search_3 (fuel E) E n (head s) s = Inr None \<and> (\<forall>c \<in> set bs. \<not> fits n c) \<or>
    (\<exists>us a m vs. search_3 (fuel E) E n (head s) s = Inr (Some a) \<and> bs = us @ (a, m, True) # vs \<and> n \<le> m \<and>
       (\<forall>(c, j, f) \<in> set bs. f \<and> n \<le> j \<longrightarrow> m \<le> j))"
proof -
  from heap_ok_3_list [OF ok] obtain xs where xs: "sorted_list E s xs" "set xs = fst ` set bs"
    "length xs < fuel E" "xs \<noteq> []" "head s = hd xs" by metis
  then have srch: "search_3 (fuel E) E n (head s) s = Inr (find (fits_at s n) xs)"
    using search_3_ok [of E s "[]" "hd xs" "tl xs" "fuel E" n] by (simp add: sorted_list_def)
  show ?thesis
  proof (cases "find (fits_at s n) xs")
    case None
    have "\<not> fits n (a, m, f)" if "(a, m, f) \<in> set bs" for a m f
    proof -
      have "a \<in> set xs" using that xs(2) by force
      with None have "\<not> fits_at s n a" by (auto simp: find_None_iff)
      with heap_ok_3_fits_at [OF ok that] show ?thesis by simp
    qed
    with srch None show ?thesis by auto
  next
    case (Some a)
    then have a: "fits_at s n a" "a \<in> set xs" by (auto simp: find_Some_iff)
    with xs(2) obtain m f where mem: "(a, m, f) \<in> set bs" by auto
    with heap_ok_3_fits_at [OF ok mem] a have f: "f" "n \<le> m" by (auto simp: fits_def)
    have "m \<le> j" if "(c, j, True) \<in> set bs" "n \<le> j" for c j
    proof -
      have "c \<in> set xs" using that xs(2) by force
      moreover have "fits_at s n c" using heap_ok_3_fits_at [OF ok that(1)] that(2) by (simp add: fits_def)
      ultimately have "size_at s a \<le> size_at s c"
        using find_sorted_least [OF Some] xs(1) by (auto simp: sorted_list_def)
      with heap_ok_3_block(4) [OF ok mem] heap_ok_3_block(4) [OF ok that(1)] show ?thesis by simp
    qed
    then have least: "\<forall>(c, j, f) \<in> set bs. f \<and> n \<le> j \<longrightarrow> m \<le> j" by clarsimp
    from mem f(1) have "(a, m, True) \<in> set bs" by simp
    then obtain us vs where bs: "bs = us @ (a, m, True) # vs" by (meson split_list)
    have "search_3 (fuel E) E n (head s) s = Inr (Some a)" using srch Some by simp
    with bs f(2) least show ?thesis
      by (intro disjI2 exI [of _ us] exI [of _ a] exI [of _ m] exI [of _ vs] conjI)
  qed
qed

lemma data_kept_live:
  assumes "layout_3 s bs" and "\<forall>x. x < brk s \<longrightarrow> data s' x = data s x"
  shows "same_bytes (live_of META_3 bs) (data s) (data s')"
  using assms laid_live_bounds [OF layout_3_laid [OF assms(1)]]
  unfolding same_bytes_def by fastforce

lemma anchor_facts:
  assumes "heap_ok_3 E s bs" and "anchored pin k bs" and "set xs = fst ` set bs"
  shows "pin \<in> set xs" "size_at s pin = k" "(pin, k, False) \<in> set bs"
proof -
  show p: "(pin, k, False) \<in> set bs" using assms(2) by (simp add: anchored_def)
  show "pin \<in> set xs" unfolding assms(3) using p by (metis fst_conv image_eqI)
  show "size_at s pin = k" by (rule heap_ok_3_block(4) [OF assms(1) p])
qed

text \<open>Growing the wilderness.\<close>

lemma counters_grow:
  assumes "counters META_3 (us @ [(w, m, True)]) s" and "m \<le> n"
    and "num_free_blocks t = num_free_blocks s - 1" "num_free_bytes t = num_free_bytes s - of_nat m"
    and "num_allocated_blocks t = num_allocated_blocks s"
    and "num_allocated_bytes t = num_allocated_bytes s + of_nat (n - m)"
    and "num_meta_data_bytes t = num_meta_data_bytes s"
  shows "counters META_3 (us @ [(w, n, False)]) t"
  using assms by (simp add: counters_def of_nat_diff)

text \<open>Leaving the list, changing size, and entering it again.\<close>

lemma regrow_list:
  assumes l: "sorted_list E s xs" and w: "w \<in> set xs" and wm: "mds s w = Some wm"
    and pin: "pin \<in> set xs" "pin \<noteq> w" "size_at s pin \<le> n" and len: "length xs \<le> fuel E"
  shows "\<exists>s2 m2. HeapListRemove E w s = Inr s2 \<and> relinked s s2 \<and> mds s2 w = Some m2 \<and> msize m2 = msize wm \<and>
    is_free m2 = is_free wm \<and> (\<forall>m'. msize m' = n \<and> cookie m' = cookie m2 \<longrightarrow>
      (\<exists>s4 ys. HeapListInsert E w (s2\<lparr>mds := (mds s2)(w \<mapsto> m')\<rparr>) = Inr s4 \<and>
        relinked (s2\<lparr>mds := (mds s2)(w \<mapsto> m')\<rparr>) s4 \<and> sorted_list E s4 ys \<and> mset ys = mset xs))"
proof -
  have h: "distinct xs" "cookie_ok E s w" "w \<noteq> NULL"
    using l w by (auto simp: sorted_list_def heap_list_def intro: gr0I)
  from sorted_list_remove [OF l w] obtain s2 where s2: "HeapListRemove E w s = Inr s2" "relinked s s2"
    "sorted_list E s2 (remove1 w xs)" by blast
  have "body (mds s2) w = Some (msize wm, is_free wm, cookie wm)"
    using s2(2) wm by (simp add: relinked_def body_def)
  then obtain m2 where m2: "mds s2 w = Some m2" "msize m2 = msize wm" "is_free m2 = is_free wm" "cookie m2 = cookie wm"
    by (auto simp: body_def)
  have ck: "cookie m2 = MAIN_COOKIE E" using h(2) wm m2(4) by (auto simp: cookie_ok_def)
  have nw: "w \<notin> set (remove1 w xs)" using h(1) by simp
  have "\<exists>s4 ys. HeapListInsert E w (s2\<lparr>mds := (mds s2)(w \<mapsto> m')\<rparr>) = Inr s4 \<and>
      relinked (s2\<lparr>mds := (mds s2)(w \<mapsto> m')\<rparr>) s4 \<and> sorted_list E s4 ys \<and> mset ys = mset xs"
    if m': "msize m' = n" "cookie m' = cookie m2" for m'
  proof -
    define s3 where "s3 = s2\<lparr>mds := (mds s2)(w \<mapsto> m')\<rparr>"
    have l3: "sorted_list E s3 (remove1 w xs)"
      by (rule sorted_list_outside [OF s2(3)]) (use nw in \<open>auto simp: s3_def\<close>)
    have "cookie_ok E s3 w" using m'(2) ck by (simp add: s3_def cookie_ok_def)
    moreover have "size_at s3 pin = size_at s pin" using pin(2) relinked_size [OF s2(2)]
      by (simp add: s3_def size_at_def fun_eq_iff)
    then have "size_at s3 pin \<le> size_at s3 w" using pin(3) m'(1) by (simp add: s3_def size_at_def)
    moreover have "length (remove1 w xs) \<le> fuel E" "pin \<in> set (remove1 w xs)"
      using len w pin by (simp_all add: length_remove1)
    ultimately have "\<exists>s4 ys. HeapListInsert E w s3 = Inr s4 \<and> relinked s3 s4 \<and> sorted_list E s4 ys \<and>
        mset ys = mset (w # remove1 w xs)"
      using sorted_list_insert [OF l3 nw _ h(3)] by blast
    with w show ?thesis by (simp add: s3_def)
  qed
  with s2 m2 show ?thesis by blast
qed

lemma regrow_heap:
  assumes ok: "heap_ok_3 E s (us @ [(w, m, g)])" and n: "m \<le> n" and inf: "info (mds t) = (info (mds s))(w \<mapsto> (n, False))"
    and f: "firsthead t = firsthead s" "brk0 t = brk0 s" "brk t = brk s + (n - m)" "wilderness t = wilderness s"
    and c: "counters META_3 (us @ [(w, n, False)]) t" and fu: "brk t < fuel E"
    and l: "sorted_list E t ys" "mset ys = mset (map fst (us @ [(w, m, g)]))"
  shows "heap_ok_3 E t (us @ [(w, n, False)])"
proof -
  have lay: "layout_3 s (us @ [(w, m, g)])" using ok by (simp add: heap_ok_3_def)
  have "blocks_in (mds t) us = blocks_in (mds s) us"
    using layout_3_distinct [OF lay] by (intro blocks_in_cong) (auto simp: inf)
  then have "blocks_in (mds t) (us @ [(w, n, False)])" using lay inf by (simp add: layout_3_def)
  moreover have "tiled (firsthead s) (brk s + (n - m)) (us @ [(w, n, False)])"
    using lay n by (auto simp: layout_3_def tiled_append)
  ultimately have "layout_3 t (us @ [(w, n, False)])" using lay f c by (simp add: layout_3_def)
  with l fu show ?thesis by (auto simp: heap_ok_3_def)
qed

text \<open>The break moved up.\<close>

lemma sbrk_grant:
  assumes "grant E (brk s) n"
  shows "\<exists>d. sbrk (grant E) n s = (Some (brk s), s\<lparr>brk := brk s + n, data := d\<rparr>) \<and> (\<forall>x < brk s. d x = data s x)"
  using assms
  by (intro exI [of _ "\<lambda>x. if brk s \<le> x \<and> x < brk s + n then Some 0 else data s x"]) (simp add: sbrk_def)

lemma smalloc_wilderness_granted:
  assumes sane: "sane E" and ok: "heap_ok_3 E s (us @ [(w, m, True)])" and anc: "anchored pin k (us @ [(w, m, True)])"
    and n: "m < n" "k \<le> n" "n < MMAP_THRESHOLD" and g: "grant E (brk s) (n - m)"
  shows "\<exists>s'. smalloc_wilderness E n s = Inr (w + META_3, s') \<and> heap_ok_3 E s' (us @ [(w, n, False)]) \<and>
    brk s' = brk s + (n - m) \<and> (\<forall>x < brk s. data s' x = data s x)"
proof -
  let ?bs = "us @ [(w, m, True)]"
  from heap_ok_3_list [OF ok] obtain xs where xs: "sorted_list E s xs" "mset xs = mset (map fst ?bs)"
    "set xs = fst ` set ?bs" "length xs < fuel E" by metis
  have lay: "layout_3 s ?bs" using ok by (simp add: heap_ok_3_def)
  have d: "distinct (map fst ?bs)" by (rule layout_3_distinct [OF lay])
  have wild: "wilderness s = w" using lay by (simp add: layout_3_def)
  have mem: "(w, m, True) \<in> set ?bs" by simp
  note blk = heap_ok_3_block [OF ok mem] and pin = anchor_facts [OF ok anc xs(3)]
  obtain wm where wm: "mds s w = Some wm" "msize wm = m" "is_free wm = True" "cookie wm = MAIN_COOKIE E"
    using blk(1) by auto
  have wx: "w \<in> set xs" using xs(3) by simp
  have pin_ne: "pin \<noteq> w" using eq_key_imp_eq_value [OF d mem, of "(k, False)"] pin(3) by auto
  obtain d1 where d1: "sbrk (grant E) (n - m) s = (Some (brk s), s\<lparr>brk := brk s + (n - m), data := d1\<rparr>)"
    "\<forall>x < brk s. d1 x = data s x" using sbrk_grant [OF g] by blast
  let ?s1 = "s\<lparr>brk := brk s + (n - m), data := d1\<rparr>"
  have l1: "sorted_list E ?s1 xs" using xs(1) sorted_list_cong [of ?s1 s] by simp
  have "size_at ?s1 pin \<le> n" using pin(2) n by (simp add: size_at_def)
  with regrow_list [OF l1 wx _ pin(1) pin_ne, of wm n] wm xs(4) obtain s2 m2 where
    s2: "HeapListRemove E w ?s1 = Inr s2" "relinked ?s1 s2" "mds s2 w = Some m2" "msize m2 = m"
    and ins: "\<forall>m'. msize m' = n \<and> cookie m' = cookie m2 \<longrightarrow>
      (\<exists>s4 ys. HeapListInsert E w (s2\<lparr>mds := (mds s2)(w \<mapsto> m')\<rparr>) = Inr s4 \<and>
        relinked (s2\<lparr>mds := (mds s2)(w \<mapsto> m')\<rparr>) s4 \<and> sorted_list E s4 ys \<and> mset ys = mset xs)" by auto
  define m' where "m' = m2\<lparr>is_free := False, msize := n\<rparr>"
  define s3 where "s3 = s2\<lparr>mds := (mds s2)(w \<mapsto> m')\<rparr>"
  obtain s4 ys where s4: "HeapListInsert E w s3 = Inr s4" "relinked s3 s4" "sorted_list E s4 ys" "mset ys = mset xs"
    using ins [rule_format, of m'] by (auto simp: m'_def s3_def)
  define s5 where "s5 = s4\<lparr>num_free_blocks := num_free_blocks s4 - 1, num_free_bytes := num_free_bytes s4 - of_nat m,
    num_allocated_bytes := num_allocated_bytes s4 + of_nat (n - m)\<rparr>"
  have szs: "sz_sub n m = n - m" "sz_add m (n - m) = n"
    using n by (simp_all add: sz_sub_exact sz_add_exact MMAP_THRESHOLD_def)
  have run: "smalloc_wilderness E n s = Inr (w + META_3, s5)"
    using wild wm s2 szs d1(1) s4(1)
    by (simp add: smalloc_wilderness_def list_3 s3_def [symmetric] m'_def [symmetric] s5_def)
  note f2 = relinkedD [OF s2(2)] and f4 = relinkedD [OF s4(2)]
  have "heap_ok_3 E s5 (us @ [(w, n, False)])"
  proof (rule regrow_heap [OF ok, of n])
    show "counters META_3 (us @ [(w, n, False)]) s5"
      by (rule counters_grow [of us w m s]) (use lay n in \<open>simp_all add: s5_def s3_def f4 f2 layout_3_def\<close>)
    show "info (mds s5) = (info (mds s))(w \<mapsto> (n, False))"
      by (simp add: s5_def f4(9) s3_def dll_simps f2(9) m'_def)
    show "brk s5 < fuel E" using g sane by (simp add: s5_def f4 s3_def f2 sane_def)
    show "sorted_list E s5 ys" using s4(3) sorted_list_cong [of s5 s4] by (simp add: s5_def)
    show "mset ys = mset (map fst ?bs)" using s4(4) xs(2) by simp
  qed (use n in \<open>simp_all add: s5_def f4 s3_def f2\<close>)
  with run d1(2) show ?thesis by (simp add: s5_def f4 s3_def f2)
qed

text \<open>Appending a block at the break.\<close>

lemma newAllocAdjustment_3_simps [simp]:
  "mds (newAllocAdjustment_3 n s) = mds s" "head (newAllocAdjustment_3 n s) = head s"
  "brk (newAllocAdjustment_3 n s) = brk s" "brk0 (newAllocAdjustment_3 n s) = brk0 s"
  "data (newAllocAdjustment_3 n s) = data s" "firsthead (newAllocAdjustment_3 n s) = firsthead s"
  "wilderness (newAllocAdjustment_3 n s) = wilderness s" "mmhead (newAllocAdjustment_3 n s) = mmhead s"
  "regions (newAllocAdjustment_3 n s) = regions s"
  "num_free_blocks (newAllocAdjustment_3 n s) = num_free_blocks s"
  "num_free_bytes (newAllocAdjustment_3 n s) = num_free_bytes s"
  "num_allocated_blocks (newAllocAdjustment_3 n s) = num_allocated_blocks s + 1"
  "num_allocated_bytes (newAllocAdjustment_3 n s) = num_allocated_bytes s + of_nat n"
  "num_meta_data_bytes (newAllocAdjustment_3 n s) = num_meta_data_bytes s + of_nat META_3"
  by (simp_all add: newAllocAdjustment_3_def)

definition fresh_header :: "env \<Rightarrow> nat \<Rightarrow> MallocMetadata_3" where
  "fresh_header E n = \<lparr>msize = n, is_free = False, nxt = NULL, prv = NULL, cookie = MAIN_COOKIE E\<rparr>"

text \<open>The state after \<open>sbrk\<close> and the writing of the new header.\<close>

lemma sbrk_header:
  assumes "grant E (brk s) (n + META_3)" and "0 < brk0 s" "brk0 s \<le> brk s" and t: "\<And>u. mds (f u) = mds u" "\<And>u. brk (f u) = brk u"
    "\<And>u. brk0 (f u) = brk0 u" "\<And>u. data (f u) = data u"
  shows "\<exists>s1 t. sbrk (grant E) (n + META_3) s = (Some (brk s), s1) \<and> store_md META_3 (brk s) (fresh_header E n) (f s1) = Inr t \<and>
    t = (f s1)\<lparr>mds := mds t, data := data t\<rparr> \<and> s1 = s\<lparr>brk := brk s + (n + META_3), data := data s1\<rparr> \<and>
    mds t = (\<lambda>q. if q = brk s then Some (fresh_header E n) else if overlaps (brk s) META_3 q META_3 then None else mds s q) \<and>
    (\<forall>x < brk s. data t x = data s x)"
  using assms by (simp add: sbrk_def store_md_def in_mem_def cong: if_cong)

lemma smalloc_sbrk_granted:
  assumes sane: "sane E" and ok: "heap_ok_3 E s bs" and anc: "anchored pin k bs"
    and n: "0 < n" "k \<le> n" "n < MMAP_THRESHOLD" and g: "grant E (brk s) (n + META_3)"
  shows "\<exists>s'. smalloc_sbrk E n s = Inr (brk s + META_3, s') \<and> heap_ok_3 E s' (bs @ [(brk s, n, False)]) \<and>
    brk s' = brk s + (n + META_3) \<and> (\<forall>x < brk s. data s' x = data s x)"
proof -
  let ?a = "brk s" and ?cs = "bs @ [(brk s, n, False)]"
  from heap_ok_3_list [OF ok] obtain xs where xs: "sorted_list E s xs" "mset xs = mset (map fst bs)"
    "set xs = fst ` set bs" "length xs < fuel E" "distinct xs" by metis
  have lay: "layout_3 s bs" using ok by (simp add: heap_ok_3_def)
  note pin = anchor_facts [OF ok anc xs(3)]
  have below: "c + META_3 \<le> ?a" if "c \<in> set xs" for c
  proof -
    from that xs(3) obtain j f where "(c, j, f) \<in> set bs" by auto
    from heap_ok_3_block(6) [OF ok this] show ?thesis by simp
  qed
  have pos: "0 < brk0 s" "brk0 s \<le> ?a" "?a \<noteq> NULL"
    using lay laid_le [OF layout_3_laid [OF lay]] by (auto simp: layout_3_def)
  let ?f = "\<lambda>u. u\<lparr>wilderness := ?a\<rparr>"
  from sbrk_header [OF g pos(1,2), of ?f] obtain s1 t where s1: "sbrk (grant E) (n + META_3) s = (Some ?a, s1)"
    "s1 = s\<lparr>brk := ?a + (n + META_3), data := data s1\<rparr>"
    and st: "store_md META_3 ?a (fresh_header E n) (?f s1) = Inr t" "t = (?f s1)\<lparr>mds := mds t, data := data t\<rparr>"
    "mds t = (\<lambda>q. if q = ?a then Some (fresh_header E n) else if overlaps ?a META_3 q META_3 then None else mds s q)"
    "\<forall>x < ?a. data t x = data s x" by auto
  define s2 where "s2 = newAllocAdjustment_3 n t"
  obtain h d d' where t': "t = s\<lparr>brk := ?a + (n + META_3), data := d, wilderness := ?a, mds := h, data := d'\<rparr>"
    using st(2) s1(2) by metis
  have ft: "brk t = ?a + (n + META_3)" "brk0 t = brk0 s" "head t = head s" "firsthead t = firsthead s" "wilderness t = ?a"
    "num_free_blocks t = num_free_blocks s" "num_free_bytes t = num_free_bytes s"
    "num_allocated_blocks t = num_allocated_blocks s" "num_allocated_bytes t = num_allocated_bytes s"
    "num_meta_data_bytes t = num_meta_data_bytes s"
    by (simp_all add: t')
  have m2: "mds s2 c = mds s c" if "c \<in> set xs" for c
    using below [OF that] META_3_pos(1) by (auto simp: s2_def st(3) overlaps_def)
  have ma: "mds s2 ?a = Some (fresh_header E n)" by (simp add: s2_def st(3))
  have ax: "?a \<notin> set xs" using below META_3_pos(1) by fastforce
  have l2: "sorted_list E s2 xs"
    by (rule sorted_list_outside [OF xs(1)]) (use m2 ft in \<open>auto simp: s2_def\<close>)
  have ck: "cookie_ok E s2 ?a" using ma by (simp add: cookie_ok_def fresh_header_def)
  have "size_at s2 pin \<le> size_at s2 ?a"
    using ma m2 [OF pin(1)] pin(2) n by (simp add: size_at_def fresh_header_def)
  with sorted_list_insert [OF l2 ax ck pos(3) _ pin(1)] xs(4) obtain s3 ys where
    s3: "HeapListInsert E ?a s2 = Inr s3" "relinked s2 s3" "sorted_list E s3 ys" "mset ys = mset (?a # xs)" by auto
  note f = relinkedD [OF s3(2)]
  have "sz_add n META_3 = n + META_3" using n by (simp add: sz_add_exact MMAP_THRESHOLD_def META_3_def)
  then have run: "smalloc_sbrk E n s = Inr (?a + META_3, s3)"
    using s1(1) st(1) s3(1) by (simp add: smalloc_sbrk_def fresh_header_def s2_def)
  have "blocks_in (mds s3) bs = blocks_in (mds s) bs"
    using m2 xs(3) by (intro blocks_in_cong) (simp add: f(9) info_def)
  moreover have "info (mds s3) ?a = Some (n, False)" using ma by (simp add: f(9) info_def fresh_header_def)
  moreover have "tiled (firsthead s) (?a + (n + META_3)) ?cs"
    using lay n(1) by (auto simp: layout_3_def tiled_append)
  moreover have "counters META_3 ?cs s3"
    using lay by (simp add: f s2_def counters_def ft layout_3_def META_3_def)
  ultimately have "layout_3 s3 ?cs" using lay by (simp add: layout_3_def f s2_def ft)
  moreover have "mset ys = mset (map fst ?cs)" using s3(4) xs(2) by simp
  moreover have "brk s3 < fuel E" using g sane by (simp add: f s2_def ft sane_def)
  ultimately have "heap_ok_3 E s3 ?cs" using s3(3) by (auto simp: heap_ok_3_def)
  with run st(4) show ?thesis by (simp add: f s2_def ft)
qed

text \<open>Small enough for the heap, and then for \<open>sfree\<close>: no block handed out reaches the threshold.\<close>

definition in_use_small :: "block list \<Rightarrow> bool" where
  "in_use_small bs \<longleftrightarrow> (\<forall>(a, n, f) \<in> set bs. \<not> f \<longrightarrow> n < MMAP_THRESHOLD)"

definition request_ok :: "nat \<Rightarrow> nat \<Rightarrow> bool" where
  "request_ok k n \<longleftrightarrow> 0 < n \<and> k \<le> n \<and> n + META_3 + SPLIT_THRESHOLD \<le> MMAP_THRESHOLD"

lemma split_blocks_anchored:
  "anchored pin k (us @ (a, m, True) # vs) \<Longrightarrow> k \<le> n \<Longrightarrow> n \<le> m \<Longrightarrow> anchored pin k (us @ split_blocks a m n @ vs)"
  by (auto simp: anchored_def split_blocks_def)

lemma split_blocks_small:
  "in_use_small (us @ (a, m, f) # vs) \<Longrightarrow> n + META_3 + SPLIT_THRESHOLD \<le> MMAP_THRESHOLD \<Longrightarrow>
   in_use_small (us @ split_blocks a m n @ vs)"
  by (auto simp: in_use_small_def split_blocks_def META_3_def SPLIT_THRESHOLD_def)

lemma settled_append:
  "settled (us @ x # vs) \<longleftrightarrow> settled (us @ [x]) \<and> settled (x # vs)"
proof (induction us)
  case (Cons u us)
  show ?case by (cases u; cases us; cases x) (use Cons in auto)
qed simp

lemma settled_snoc: "settled (us @ [(a, m, f)]) \<Longrightarrow> (g \<longrightarrow> f) \<Longrightarrow> settled (us @ [(b, n, g)])"
proof (induction us)
  case (Cons u us)
  then show ?case by (cases u; cases us) auto
qed simp

lemma settled_Cons: "settled ((a, m, f) # vs) \<Longrightarrow> (g \<longrightarrow> f) \<Longrightarrow> settled ((b, n, g) # vs)"
  by (cases vs) auto

lemma split_blocks_settled:
  assumes "settled (us @ (a, m, True) # vs)"
  shows "settled (us @ split_blocks a m n @ vs)"
proof -
  have s: "settled (us @ [(a, m, True)])" "settled ((a, m, True) # vs)"
    using assms settled_append [of us "(a, m, True)" vs] by simp_all
  then have "settled (us @ [(a, j, False)])" "settled ((b, j, False) # vs)" "settled ((b, j, True) # vs)" for b j
    by (auto intro: settled_snoc settled_Cons)
  then show ?thesis
    using settled_append [of us "(a, n, False)"] settled_append [of us "(a, m, False)" vs]
    by (auto simp: split_blocks_def)
qed

text \<open>A split in a free block touches no live byte.\<close>

lemma split_same_bytes:
  assumes lay: "layout_3 s (us @ (a, m, True) # vs)" and k: "kept_outside (a + META_3 + n) (a + META_3 + m) s s'"
  shows "same_bytes (live_of META_3 (us @ (a, m, True) # vs)) (data s) (data s')"
  unfolding same_bytes_def
proof (clarify)
  fix p j x
  assume "(p, j) \<in> live_of META_3 (us @ (a, m, True) # vs)" and x: "p \<le> x" "x < p + j"
  then have "\<not> overlaps (a + META_3) m p j"
    using laid_disjoint_from [OF layout_3_laid [OF lay]] by (auto simp: disjoint_from_def)
  with x have "x < a + META_3 + n \<or> a + META_3 + m \<le> x" by (auto simp: overlaps_def)
  with k show "data s' x = data s x" by (auto simp: kept_outside_def)
qed

lemma smalloc_3_refines:
  assumes sane: "sane E" and ok: "heap_ok_3 E s bs" and anc: "anchored pin k bs" and n: "request_ok k n"
  shows "\<exists>p s' bs'. smalloc_3 E n s = Inr (p, s') \<and> alloc_3 (grant E) n (brk s) bs p (brk s') bs' \<and>
    heap_ok_3 E s' bs' \<and> same_bytes (live_of META_3 bs) (data s) (data s')"
proof -
  have lay: "layout_3 s bs" using ok by (simp add: heap_ok_3_def)
  obtain us w m f where bs: "bs = us @ [(w, m, f)]"
    using lay by (cases bs rule: rev_cases) (auto simp: layout_3_def)
  have wild: "wilderness s = w" using lay bs by (simp add: layout_3_def)
  have wmem: "(w, m, f) \<in> set bs" using bs by simp
  note blk = heap_ok_3_block [OF ok wmem]
  obtain wm where wm: "mds s w = Some wm" "msize wm = m" "is_free wm = f" using blk(1) by auto
  have n': "0 < n" "k \<le> n" "n < MMAP_THRESHOLD" "n \<le> SIZE_LIMIT"
    using n by (auto simp: request_ok_def SIZE_LIMIT_def MMAP_THRESHOLD_def META_3_def)
  have hd: "head s \<noteq> NULL" using heap_ok_3_list [OF ok] by metis
  have run: "smalloc_3 E n s = rbind (search_3 (fuel E) E n (head s) s) (\<lambda>found. case found of
      Some p \<Rightarrow> rbind (split_3 E p n s) (\<lambda>s. Inr (p + META_3, s))
    | None \<Rightarrow> if f then smalloc_wilderness E n s else smalloc_sbrk E n s)"
    using n' hd wild wm blk(2) by (simp add: smalloc_3_def)
  from search_3_heap [OF ok, of n] show ?thesis
  proof (elim disjE exE conjE)
    fix us' a j vs
    assume srch: "search_3 (fuel E) E n (head s) s = Inr (Some a)" and bs': "bs = us' @ (a, j, True) # vs"
      and fit: "n \<le> j" "\<forall>(c, j', f) \<in> set bs. f \<and> n \<le> j' \<longrightarrow> j \<le> j'"
    from split_3_ok [OF sane ok [unfolded bs'] anc [unfolded bs'] n'(2,1) fit(1)] obtain s' where
      s': "split_3 E a n s = Inr s'" "heap_ok_3 E s' (us' @ split_blocks a j n @ vs)"
        "kept_outside (a + META_3 + n) (a + META_3 + j) s s'" by blast
    have "same_bytes (live_of META_3 bs) (data s) (data s')"
      using split_same_bytes [OF lay [unfolded bs'] s'(3)] bs' by simp
    moreover have "alloc_3 (grant E) n (brk s) bs (a + META_3) (brk s') (us' @ split_blocks a j n @ vs)"
      using best_fit [of n j us' a vs "grant E" "brk s"] fit bs' s'(3) by (simp add: kept_outside_def)
    ultimately show ?thesis using run srch s' by auto
  next
    assume srch: "search_3 (fuel E) E n (head s) s = Inr None" and none: "\<forall>c \<in> set bs. \<not> fits n c"
    show ?thesis
    proof (cases f)
      case True
      have mn: "m < n" using none bs True by (auto simp: fits_def)
      have sub: "sz_sub n m = n - m" using mn n' by (simp add: sz_sub_exact MMAP_THRESHOLD_def)
      show ?thesis
      proof (cases "grant E (brk s) (n - m)")
        case g: True
        have "heap_ok_3 E s (us @ [(w, m, True)])" "anchored pin k (us @ [(w, m, True)])"
          using ok anc bs True by simp_all
        from smalloc_wilderness_granted [OF sane this mn n'(2,3) g] obtain s' where "smalloc_wilderness E n s = Inr (w + META_3, s')" "heap_ok_3 E s' (us @ [(w, n, False)])"
          "brk s' = brk s + (n - m)" "\<forall>x < brk s. data s' x = data s x" by blast
        with run srch True bs none g data_kept_live [OF lay] grow [of us w m n "grant E" "brk s"] show ?thesis
          by auto
      next
        case g: False
        then have "smalloc_wilderness E n s = Inr (NULL, s)"
          using wild wm sub by (simp add: smalloc_wilderness_def sbrk_def)
        with run srch True bs none g ok data_kept_live [OF lay] grow_refused [of us w m n "grant E" "brk s"] show ?thesis
          by auto
      qed
    next
      case False
      have add: "sz_add n META_3 = n + META_3" using n' by (simp add: sz_add_exact MMAP_THRESHOLD_def META_3_def)
      show ?thesis
      proof (cases "grant E (brk s) (n + META_3)")
        case g: True
        from smalloc_sbrk_granted [OF sane ok anc n'(1-3) g] obtain s' where
          "smalloc_sbrk E n s = Inr (brk s + META_3, s')" "heap_ok_3 E s' (bs @ [(brk s, n, False)])"
          "brk s' = brk s + (n + META_3)" "\<forall>x < brk s. data s' x = data s x" by blast
        with run srch False bs none g data_kept_live [OF lay] extend [of us w m n "grant E" "brk s"] show ?thesis
          by auto
      next
        case g: False
        then have "smalloc_sbrk E n s = Inr (NULL, s)" using add by (simp add: smalloc_sbrk_def sbrk_def)
        with run srch False bs none g ok data_kept_live [OF lay] extend_refused [of us w m n "grant E" "brk s"]
        show ?thesis by auto
      qed
    qed
  qed
qed

section \<open>What allocation and freeing do to the blocks in use\<close>

lemma alloc_3_keeps:
  assumes "alloc_3 g n b bs p b' bs'" and "request_ok k n" and "anchored pin k bs" and "in_use_small bs"
  shows "anchored pin k bs'" and "in_use_small bs'" and "settled bs \<Longrightarrow> settled bs'"
proof -
  have n: "k \<le> n" "n < MMAP_THRESHOLD" "n + META_3 + SPLIT_THRESHOLD \<le> MMAP_THRESHOLD"
    using assms(2) by (auto simp: request_ok_def META_3_def)
  have "anchored pin k bs' \<and> in_use_small bs' \<and> (settled bs \<longrightarrow> settled bs')"
    using assms(1,3,4)
  proof (cases rule: alloc_3.cases)
    case (best_fit m us a vs)
    with assms(3,4) n split_blocks_anchored split_blocks_small split_blocks_settled show ?thesis by blast
  next
    case (grow us w m)
    then have "m < n" by (simp add: fits_def)
    with grow assms(3,4) n settled_snoc show ?thesis by (auto simp: anchored_def in_use_small_def)
  next
    case (extend us w m)
    with assms(3,4) n settled_append [of us "(w, m, False)" "[(b, n, False)]"] show ?thesis
      by (auto simp: anchored_def in_use_small_def)
  qed auto
  then show "anchored pin k bs'" "in_use_small bs'" "settled bs \<Longrightarrow> settled bs'" by simp_all
qed

text \<open>An allocation adds one live block, apart from the others.\<close>

lemma alloc_3_live:
  assumes a: "alloc_3 g n b bs p b' bs'" and lay: "laid META_3 lo b bs" and n: "0 < n" and lo: "0 < lo"
  shows "if p = NULL then live_of META_3 bs' = live_of META_3 bs
    else \<exists>m \<ge> n. disjoint_from (live_of META_3 bs) p m \<and> live_of META_3 bs' = insert (p, m) (live_of META_3 bs)"
  using a
proof (cases rule: alloc_3.cases)
  case (best_fit m us c vs)
  have "disjoint_from (live_of META_3 bs) (c + META_3) m"
    using laid_disjoint_from [of META_3 lo b us c m True vs] lay best_fit by simp
  moreover from this have "disjoint_from (live_of META_3 bs) (c + META_3) n"
    using best_fit(5) by (fastforce simp: disjoint_from_def overlaps_def)
  ultimately show ?thesis using best_fit by (auto simp: split_blocks_def)
next
  case (grow us w m)
  have "m < n" using grow by (simp add: fits_def)
  have "disjoint_from (live_of META_3 us) (w + META_3) n"
  proof -
    obtain mid where "laid META_3 lo mid us" "mid \<le> w" using lay grow(1) by (auto simp: laid_append)
    then show ?thesis by (fastforce simp: disjoint_from_def overlaps_def dest: laid_live_bounds)
  qed
  with grow show ?thesis by auto
next
  case (extend us w m)
  have "disjoint_from (live_of META_3 bs) (b + META_3) n"
    using lay by (fastforce simp: disjoint_from_def overlaps_def dest: laid_live_bounds)
  with extend show ?thesis by auto
qed auto

lemma coalesce_anchored: "anchored pin k bs \<Longrightarrow> anchored pin k (coalesce bs)"
  using anchored_coalesce [of pin k "[]" bs] by simp

lemma coalesce_small: "in_use_small bs \<Longrightarrow> in_use_small (coalesce bs)"
  by (induction bs rule: coalesce.induct) (auto simp: in_use_small_def)

lemma free_block_keeps:
  assumes "anchored pin k (us @ (a, n, False) # vs)" and "in_use_small (us @ (a, n, False) # vs)" and "a \<noteq> pin"
  shows "anchored pin k (us @ (a, n, True) # vs)" "in_use_small (us @ (a, n, True) # vs)"
  using assms by (auto simp: anchored_def in_use_small_def)

section \<open>malloc_3 is an allocator, for disciplined clients\<close>

text \<open>
  The blocks read off the memory; the state an anchored heap is in; the blocks a client may
  free (all blocks in use but the anchor); and the requests of a disciplined client: rounded
  up to the size of the anchor, and none that reaches the threshold for \<open>mmap\<close>.
\<close>

fun tiles :: "nat \<Rightarrow> (ptr \<Rightarrow> 'z MallocMetadata_scheme option) \<Rightarrow> nat \<Rightarrow> nat \<Rightarrow> block list" where
  "tiles n h p hi = (if n = 0 \<or> p = hi then []
     else case h p of None \<Rightarrow> [] | Some m \<Rightarrow> (p, msize m, is_free m) # tiles (n - 1) h (p + META_3 + msize m) hi)"

declare tiles.simps [simp del]

definition blocks_3 :: "heap_3 \<Rightarrow> block list" where
  "blocks_3 s = tiles (brk s) (mds s) (firsthead s) (brk s)"

definition ok_3 :: "env \<Rightarrow> ptr \<Rightarrow> nat \<Rightarrow> heap_3 \<Rightarrow> bool" where
  "ok_3 E pin k s \<longleftrightarrow> sane E \<and> heap_ok_3 E s (blocks_3 s) \<and> anchored pin k (blocks_3 s) \<and>
     in_use_small (blocks_3 s)"

definition live_3 :: "ptr \<Rightarrow> heap_3 \<Rightarrow> (ptr \<times> nat) set" where
  "live_3 pin s = live_of META_3 (filter (\<lambda>(a, n, f). a \<noteq> pin) (blocks_3 s))"

definition round_3 :: "nat \<Rightarrow> nat \<Rightarrow> nat" where
  "round_3 k n = (if 0 < n \<and> request_ok k (max k n) then max k n else 0)"

lemma live_3_alt: "live_3 pin s = {b \<in> live_of META_3 (blocks_3 s). fst b \<noteq> pin + META_3}"
  by (auto simp: live_3_def live_of_def)

lemma tiles_tiled:
  "tiled p hi bs \<Longrightarrow> blocks_in h bs \<Longrightarrow> length bs \<le> n \<Longrightarrow> tiles n h p hi = bs"
proof (induction bs arbitrary: p n)
  case (Cons b bs)
  obtain a m f where b: "b = (a, m, f)" by (cases b)
  with Cons.prems obtain md where "h p = Some md" "msize md = m" "is_free md = f" "a = p"
    by (auto dest: info_SomeD)
  moreover have "p \<noteq> hi" using Cons.prems(1) b laid_le [OF tiled_laid, of "p + META_3 + m" hi bs] by auto
  moreover have "tiles (n - 1) h (p + META_3 + m) hi = bs"
    using Cons b by auto
  ultimately show ?case using b Cons.prems(3) by (subst tiles.simps) simp
qed (simp add: tiles.simps)

lemma heap_ok_3_blocks: "heap_ok_3 E s bs \<Longrightarrow> blocks_3 s = bs"
  using laid_length [OF layout_3_laid, of s bs] unfolding blocks_3_def
  by (intro tiles_tiled) (auto simp: heap_ok_3_def layout_3_def)

lemma ok_3I: "sane E \<Longrightarrow> heap_ok_3 E s bs \<Longrightarrow> anchored pin k bs \<Longrightarrow> in_use_small bs \<Longrightarrow>
   ok_3 E pin k s \<and> blocks_3 s = bs"
  by (simp add: ok_3_def heap_ok_3_blocks)

lemma ok_3_laid: "ok_3 E pin k s \<Longrightarrow> laid META_3 (firsthead s) (brk s) (blocks_3 s) \<and> 0 < firsthead s"
  by (auto simp: ok_3_def heap_ok_3_def layout_3_def intro: tiled_laid)

lemma smalloc_3_ok:
  assumes ok: "ok_3 E pin k s" and n: "request_ok k n"
  shows "\<exists>p s'. smalloc_3 E n s = Inr (p, s') \<and> alloc_3 (grant E) n (brk s) (blocks_3 s) p (brk s') (blocks_3 s') \<and>
    ok_3 E pin k s' \<and> same_bytes (live_of META_3 (blocks_3 s)) (data s) (data s')"
proof -
  from smalloc_3_refines [of E s "blocks_3 s" pin k n] ok n obtain p s' bs' where
    s': "smalloc_3 E n s = Inr (p, s')" "alloc_3 (grant E) n (brk s) (blocks_3 s) p (brk s') bs'"
      "heap_ok_3 E s' bs'" "same_bytes (live_of META_3 (blocks_3 s)) (data s) (data s')"
    by (auto simp: ok_3_def)
  from alloc_3_keeps [OF s'(2) n, of pin] ok have "ok_3 E pin k s' \<and> blocks_3 s' = bs'"
    by (intro ok_3I s'(3)) (auto simp: ok_3_def)
  with s' show ?thesis by auto
qed

lemma sfree_3_ok':
  assumes ok: "ok_3 E pin k s" and p: "(p, m) \<in> live_3 pin s"
  shows "\<exists>us vs s'. sfree_3 E p s = Inr s' \<and> blocks_3 s = us @ (p - META_3, m, False) # vs \<and> META_3 \<le> p \<and>
    blocks_3 s' = coalesce (us @ (p - META_3, m, True) # vs) \<and> ok_3 E pin k s' \<and> kept s s'"
proof -
  from p have "META_3 \<le> p" "(p - META_3, m, False) \<in> set (blocks_3 s)" "p - META_3 \<noteq> pin"
    by (auto simp: live_3_alt live_of_iff)
  moreover from this obtain us vs where bs: "blocks_3 s = us @ (p - META_3, m, False) # vs" by (meson split_list)
  moreover have "anchored pin k (us @ (p - META_3, m, True) # vs)" "in_use_small (us @ (p - META_3, m, True) # vs)"
    "m < MMAP_THRESHOLD"
    using free_block_keeps [of pin k us "p - META_3" m vs] ok bs calculation(3)
    by (auto simp: ok_3_def in_use_small_def)
  moreover from sfree_3_ok [of E s us "p - META_3" m vs pin k] ok bs calculation(5,7)
  obtain s' where "sfree_3 E (p - META_3 + META_3) s = Inr s'"
    "heap_ok_3 E s' (coalesce (us @ (p - META_3, m, True) # vs))" "kept s s'"
    by (auto simp: ok_3_def)
  ultimately show ?thesis
    using ok_3I [of E s' _ pin k] ok coalesce_anchored coalesce_small
    by (auto simp: ok_3_def)
qed

lemma live_3_after:
  assumes "laid META_3 lo hi (us @ (a, m, False) # vs)"
  shows "live_of META_3 (coalesce (us @ (a, m, True) # vs)) = live_of META_3 (us @ (a, m, False) # vs) - {(a + META_3, m)}"
  using laid_notin_live [OF assms, of m] by (auto simp: coalesce_live)

interpretation m3: allocator "ok_3 E pin k" "live_3 pin" data "\<lambda>n. smalloc_3 E (round_3 k n)" "sfree_3 E" for E pin k
proof (unfold_locales)
  fix s n
  assume ok: "ok_3 E pin k s"
  show "\<exists>p s'. smalloc_3 E (round_3 k n) s = Inr (p, s') \<and> ok_3 E pin k s' \<and>
      same_bytes (live_3 pin s) (data s) (data s') \<and>
      (if p = 0 then live_3 pin s' = live_3 pin s
       else \<exists>m. n \<le> m \<and> 0 < n \<and> disjoint_from (live_3 pin s) p m \<and> live_3 pin s' = insert (p, m) (live_3 pin s))"
  proof (cases "round_3 k n = 0")
    case True
    with ok show ?thesis by (auto simp: smalloc_3_def same_bytes_def)
  next
    case False
    then have r: "0 < n" "n \<le> round_3 k n" "request_ok k (round_3 k n)"
      by (auto simp: round_3_def split: if_splits)
    from smalloc_3_ok [OF ok r(3)] obtain p s' where s': "smalloc_3 E (round_3 k n) s = Inr (p, s')"
      "alloc_3 (grant E) (round_3 k n) (brk s) (blocks_3 s) p (brk s') (blocks_3 s')" "ok_3 E pin k s'"
      "same_bytes (live_of META_3 (blocks_3 s)) (data s) (data s')" by blast
    have live: "if p = NULL then live_of META_3 (blocks_3 s') = live_of META_3 (blocks_3 s)
      else \<exists>m \<ge> round_3 k n. disjoint_from (live_of META_3 (blocks_3 s)) p m \<and>
        live_of META_3 (blocks_3 s') = insert (p, m) (live_of META_3 (blocks_3 s))"
      using alloc_3_live [OF s'(2) conjunct1 [OF ok_3_laid [OF ok]]] ok_3_laid [OF ok] r by simp
    have pinned: "(pin + META_3, k) \<in> live_of META_3 (blocks_3 s)"
      using ok by (force simp: ok_3_def anchored_def live_of_iff)
    have ne: "p \<noteq> pin + META_3" if "p \<noteq> NULL"
      using live that pinned r ok laid_live_bounds [OF conjunct1 [OF ok_3_laid [OF ok]] pinned]
      by (fastforce simp: disjoint_from_def overlaps_def)
    show ?thesis
    proof (cases "p = NULL")
      case True
      with s' live show ?thesis by (auto simp: live_3_alt same_bytes_def)
    next
      case False
      with live obtain m where "round_3 k n \<le> m" "disjoint_from (live_of META_3 (blocks_3 s)) p m"
        "live_of META_3 (blocks_3 s') = insert (p, m) (live_of META_3 (blocks_3 s))" by auto
      then have "live_3 pin s' = insert (p, m) (live_3 pin s)" "disjoint_from (live_3 pin s) p m" "n \<le> m"
        using ne [OF False] r(2) by (auto simp: live_3_alt disjoint_from_def)
      moreover have "same_bytes (live_3 pin s) (data s) (data s')"
        using s'(4) by (auto simp: live_3_alt same_bytes_def)
      ultimately show ?thesis using False s'(1,3) r(1) by auto
    qed
  qed
next
  fix s p m
  assume ok: "ok_3 E pin k s" and p: "(p, m) \<in> live_3 pin s"
  from sfree_3_ok' [OF this] obtain us vs s' where s': "sfree_3 E p s = Inr s'"
    "blocks_3 s = us @ (p - META_3, m, False) # vs" "META_3 \<le> p"
    "blocks_3 s' = coalesce (us @ (p - META_3, m, True) # vs)" "ok_3 E pin k s'" "kept s s'" by blast
  have "laid META_3 (firsthead s) (brk s) (us @ (p - META_3, m, False) # vs)"
    using ok_3_laid [OF ok] s'(2) by simp
  from live_3_after [OF this] have "live_of META_3 (blocks_3 s') = live_of META_3 (blocks_3 s) - {(p, m)}"
    unfolding s'(2,4) using s'(3) by simp
  with s' show "\<exists>s'. sfree_3 E p s = Inr s' \<and> ok_3 E pin k s' \<and> live_3 pin s' = live_3 pin s - {(p, m)} \<and>
      same_bytes (live_3 pin s') (data s) (data s')"
    by (auto simp: live_3_alt same_bytes_def kept_def)
next
  fix s
  show "sfree_3 E 0 s = Inr s" by (simp add: sfree_3_def)
next
  fix s p m
  assume ok: "ok_3 E pin k s" and "(p, m) \<in> live_3 pin s"
  then have "(p, m) \<in> live_of META_3 (blocks_3 s)" by (simp add: live_3_alt)
  from laid_live_bounds [OF conjunct1 [OF ok_3_laid [OF ok]] this] ok_3_laid [OF ok]
  show "0 < m \<and> 0 < p" by auto
qed

section \<open>The first allocation\<close>

lemma firstAllocation_3_ok:
  assumes sane: "sane E" and k: "0 < k" "k \<le> SPLIT_THRESHOLD" and b: "0 < b" and g: "grant E b (k + META_3)"
  shows "\<exists>s'. smalloc_3 E k (empty_heap_3 b) = Inr (b + META_3, s') \<and> ok_3 E b k s' \<and>
    blocks_3 s' = [(b, k, False)] \<and> brk s' = b + (k + META_3)"
proof -
  let ?s = "empty_heap_3 b"
  have e: "brk ?s = b" "brk0 ?s = b" "head ?s = NULL" by (simp_all add: empty_heap_3_def)
  have k': "k < MMAP_THRESHOLD" "k \<le> SIZE_LIMIT" "sz_add k META_3 = k + META_3"
    using k by (simp_all add: MMAP_THRESHOLD_def SPLIT_THRESHOLD_def SIZE_LIMIT_def sz_add_exact META_3_def)
  from sbrk_header [of E ?s k "\<lambda>u. u\<lparr>head := b\<rparr>"] e g b
  obtain s1 t where s1: "sbrk (grant E) (k + META_3) ?s = (Some b, s1)"
    "s1 = ?s\<lparr>brk := b + (k + META_3), data := data s1\<rparr>"
    and st: "store_md META_3 b (fresh_header E k) (s1\<lparr>head := b\<rparr>) = Inr t" "t = s1\<lparr>head := b, mds := mds t, data := data t\<rparr>"
    "mds t b = Some (fresh_header E k)" by auto
  obtain d d' h where t: "t = ?s\<lparr>brk := b + (k + META_3), data := d, head := b, mds := h, data := d'\<rparr>"
    using s1(2) st(2) by metis
  define s2 where "s2 = newAllocAdjustment_3 k (t\<lparr>wilderness := b, firsthead := b\<rparr>)"
  have run: "smalloc_3 E k ?s = Inr (b + META_3, s2)"
    using k k' e s1(1) st(1) by (simp add: smalloc_3_def firstAllocation_3_def fresh_header_def s2_def)
  have m: "mds s2 b = Some (fresh_header E k)" using st(3) by (simp add: s2_def)
  have f: "brk s2 = b + (k + META_3)" "brk0 s2 = b" "head s2 = b" "firsthead s2 = b" "wilderness s2 = b"
    by (simp_all add: s2_def t e)
  have "sorted_list E s2 [b]"
    using m f b by (simp add: sorted_list_def heap_list_def links_def fresh_header_def cookie_ok_def)
  moreover have "layout_3 s2 [(b, k, False)]"
    using m f b k by (simp add: layout_3_def info_def fresh_header_def)
      (simp add: s2_def t counters_def empty_heap_3_def META_3_def)
  moreover have "brk s2 < fuel E" using f g sane by (simp add: sane_def)
  ultimately have "heap_ok_3 E s2 [(b, k, False)]" by (auto simp: heap_ok_3_def)
  then have "ok_3 E b k s2 \<and> blocks_3 s2 = [(b, k, False)]"
    using k k' sane by (intro ok_3I) (auto simp: anchored_def in_use_small_def)
  with run f show ?thesis by simp
qed

section \<open>A concrete heap\<close>

definition demo_env :: env where
  "demo_env = \<lparr>MAIN_COOKIE = 42, grant = (\<lambda>b n. b + n < 10 ^ 6), mm = (\<lambda>n. Some (2 * 10 ^ 6)), fuel = 10 ^ 6\<rparr>"

text \<open>A heap after its first allocation, of \<open>k\<close> bytes, at break \<open>b\<close>.\<close>

definition started_3 :: "env \<Rightarrow> nat \<Rightarrow> nat \<Rightarrow> heap_3" where
  "started_3 E b k = (case smalloc_3 E k (empty_heap_3 b) of Inr (p, s) \<Rightarrow> s | Inl e \<Rightarrow> empty_heap_3 b)"

lemma started_3_ok:
  assumes "sane E" and "0 < k" "k \<le> SPLIT_THRESHOLD" and "0 < b" and "grant E b (k + META_3)"
  shows "ok_3 E b k (started_3 E b k)" "blocks_3 (started_3 E b k) = [(b, k, False)]"
    "brk (started_3 E b k) = b + (k + META_3)" "live_3 b (started_3 E b k) = {}"
  using firstAllocation_3_ok [OF assms] by (auto simp: started_3_def live_3_alt)

lemmas eval_3 = smalloc_3_def firstAllocation_3_def empty_heap_3_def SIZE_LIMIT_def MMAP_THRESHOLD_def
  SPLIT_THRESHOLD_def META_3_def sz_add_def sz_sub_def sbrk_def store_md_def in_mem_def newAllocAdjustment_3_def
  search_3.simps upd_md_def deref_def live_3_def blocks_3_def tiles.simps sfree_3_def overlaps_def
  set_nxt_def set_prv_def set_free_def set_size_def validateCookie_def HeapListInsert_def HeapListRemove_def
  insert_loop.simps insert_end_def insert_equal_def link_between_def link_as_head_def link_before_def link_last_def
  link_smallest_def split_header_def splittable_eq split_3_def merge_3_def smerge.simps smalloc_wilderness_def
  smalloc_sbrk_def demo_env_def Let_def

lemma demo_sane: "sane demo_env"
  by (simp add: sane_def demo_env_def)

lemma demo_started: "ok_3 demo_env 1000 60 (started_3 demo_env 1000 60)"
    "blocks_3 (started_3 demo_env 1000 60) = [(1000, 60, False)]"
  by (rule started_3_ok [OF demo_sane]; simp add: demo_env_def SPLIT_THRESHOLD_def META_3_def)+

end
