(* ===== verification/Realloc3.thy ===== *)
theory Realloc3
  imports Heap3
begin

text \<open>
  \<open>srealloc\<close> of \<^verbatim>\<open>malloc_3.cpp\<close> when the block before is not free: shrinking in place (case a),
  enlarging the wilderness (c), merging with the free block after it (d), merging with a free
  wilderness and enlarging it (f, second part), and moving (h). In all these branches the
  bytes of the block survive and the other live blocks are left alone.
\<close>

section \<open>Merging around a block\<close>

lemma coalesce_append:
  "us = [] \<or> \<not> snd (snd (last us)) \<Longrightarrow> coalesce (us @ ws) = coalesce us @ coalesce ws"
proof (induction us rule: coalesce.induct [case_names step nil single])
  case (step a n f b m g bs)
  then show ?case by (cases "f \<and> g") (auto split: if_splits)
next
  case (single v)
  then obtain a n where "v = (a, n, False)" by (cases v) auto
  then show ?case by (cases ws) auto
qed simp

lemma coalesce_two:
  "\<exists>j rest. coalesce ((a, m, True) # (b, l, True) # vs) = (a, j, True) # rest \<and> m + l + META_3 \<le> j \<and>
     live_of META_3 rest = live_of META_3 vs"
proof -
  obtain j g rest where c: "coalesce ((a, m + l + META_3, True) # vs) = (a, j, g) # rest" "m + l + META_3 \<le> j" "g"
    using coalesce_hd [of a "m + l + META_3" True vs] by blast
  have "live_of META_3 ((a, j, g) # rest) = live_of META_3 ((a, m + l + META_3, True) # vs)"
    by (metis c(1) coalesce_live)
  with c show ?thesis by simp
qed

text \<open>Walking to the block before.\<close>

lemma find_prev_ok:
  assumes "blocks_in (mds s) ((b, l, g) # ws @ (a, m, f) # vs)" and "tiled b hi ((b, l, g) # ws @ (a, m, f) # vs)"
    and "length ws < k"
  shows "find_prev k b a s = Inr (fst (last ((b, l, g) # ws)))"
  using assms
proof (induction ws arbitrary: b l g k)
  case Nil
  then show ?case by (subst find_prev.simps) (auto dest!: info_SomeD simp: ac_simps)
next
  case (Cons w ws)
  obtain c j h where w: "w = (c, j, h)" by (cases w)
  obtain md where md: "mds s b = Some md" "msize md = l" using Cons.prems(1) by (auto dest: info_SomeD)
  have c: "c = b + l + META_3" using Cons.prems(2) w by auto
  have t: "tiled c hi ((c, j, h) # ws @ (a, m, f) # vs)" using Cons.prems(2) w c by (simp add: ac_simps)
  then have "c + META_3 + j \<le> a" "0 < j"
    using laid_le [of META_3 "c + META_3 + j" a ws] by (auto simp: tiled_append dest: tiled_laid)
  then have "c \<noteq> a" using META_3_pos(1) by linarith
  moreover have "find_prev (k - 1) c a s = Inr (fst (last ((c, j, h) # ws)))"
    using Cons.prems w t by (intro Cons.IH) auto
  ultimately show ?case using md c Cons.prems(3) w by (subst find_prev.simps) simp
qed

definition prev_of :: "block list \<Rightarrow> ptr" where
  "prev_of us = (if us = [] then NULL else fst (last us))"

definition next_of :: "block list \<Rightarrow> ptr" where
  "next_of vs = (if vs = [] then NULL else fst (hd vs))"

lemma layout_3_wild: "layout_3 s (us @ (a, m, f) # vs) \<Longrightarrow> a = wilderness s \<longleftrightarrow> vs = []"
  using layout_3_distinct [of s "us @ (a, m, f) # vs"]
  by (cases vs rule: rev_cases) (auto simp: layout_3_def)

lemma layout_3_first: "layout_3 s (us @ (a, m, f) # vs) \<Longrightarrow> a = firsthead s \<longleftrightarrow> us = []"
  using layout_3_distinct [of s "us @ (a, m, f) # vs"]
  by (cases us) (auto simp: layout_3_def)

lemma neighbours_ok:
  assumes ok: "heap_ok_3 E s (us @ (a, m, f) # vs)"
  shows "neighbours E a m s = Inr (next_of vs, prev_of us)"
proof -
  have lay: "layout_3 s (us @ (a, m, f) # vs)" using ok by (simp add: heap_ok_3_def)
  have nxt: "a + m + META_3 = next_of vs \<and> cookie_ok E s (next_of vs)" if ne: "vs \<noteq> []"
  proof -
    obtain b l g ws where vs: "vs = (b, l, g) # ws" using ne by (cases vs) auto
    with heap_ok_3_block(2) [OF ok, of b l g] lay show ?thesis
      by (auto simp: next_of_def layout_3_def tiled_append)
  qed
  have prv: "find_prev (fuel E) (firsthead s) a s = Inr (prev_of us) \<and> cookie_ok E s (prev_of us)" if ne: "us \<noteq> []"
  proof -
    obtain b l g ws where us: "us = (b, l, g) # ws" using ne by (cases us) auto
    have "length ws < fuel E" using laid_length [OF layout_3_laid [OF lay]] ok us by (simp add: heap_ok_3_def)
    then have "find_prev (fuel E) b a s = Inr (fst (last us))"
      using find_prev_ok [of s b l g ws a m f vs "brk s" "fuel E"] lay us by (auto simp: layout_3_def)
    moreover have "b = firsthead s" using lay us by (simp add: layout_3_def)
    moreover obtain c j h where l: "last us = (c, j, h)" by (cases "last us")
    moreover have "cookie_ok E s c" using heap_ok_3_block(2) [OF ok, of c j h] last_in_set [OF ne] l by simp
    moreover have "prev_of us = c" using ne l by (simp add: prev_of_def)
    ultimately show ?thesis by simp
  qed
  have "(if a = wilderness s then Inr NULL
      else rbind (validateCookie E (a + m + META_3) s) (\<lambda>_. Inr (a + m + META_3))) = Inr (next_of vs)"
  proof (cases "vs = []")
    case True
    then show ?thesis using layout_3_wild [OF lay] by (simp add: next_of_def)
  next
    case False
    then show ?thesis using layout_3_wild [OF lay] nxt [OF False] by simp
  qed
  moreover have "(if a = firsthead s then Inr NULL
      else rbind (find_prev (fuel E) (firsthead s) a s) (\<lambda>prev. rbind (validateCookie E prev s) (\<lambda>_. Inr prev))) =
      Inr (prev_of us)"
  proof (cases "us = []")
    case True
    then show ?thesis using layout_3_first [OF lay] by (simp add: prev_of_def)
  next
    case False
    then show ?thesis using layout_3_first [OF lay] prv [OF False] by simp
  qed
  ultimately show ?thesis by (simp only: neighbours_def rbind.simps)
qed

section \<open>Flags and the wilderness\<close>

lemma mark_free_ok:
  assumes ok: "heap_ok_3 E s (us @ (a, m, False) # vs)"
  shows "\<exists>s'. mark_free a s = Inr s' \<and> heap_ok_3 E s' (us @ (a, m, True) # vs) \<and> kept s s'"
proof -
  obtain md where md: "mds s a = Some md" "msize md = m"
    using heap_ok_3_block(1) [OF ok, of a m False] by auto
  let ?t = "s\<lparr>mds := (mds s)(a \<mapsto> md\<lparr>is_free := True\<rparr>), num_free_blocks := num_free_blocks s + 1,
    num_free_bytes := num_free_bytes s + of_nat m\<rparr>"
  have "counters META_3 (us @ (a, m, True) # vs) ?t"
    using ok by (simp add: heap_ok_3_def layout_3_def counters_def)
  from heap_ok_3_flag [OF ok md(1) refl this] md show ?thesis by (auto simp: mark_free_def list_3)
qed

lemma claim_ok:
  assumes ok: "heap_ok_3 E s (us @ (a, m, True) # vs)"
  shows "\<exists>s'. claim a s = Inr s' \<and> heap_ok_3 E s' (us @ (a, m, False) # vs) \<and> kept s s'"
proof -
  obtain md where md: "mds s a = Some md" "msize md = m"
    using heap_ok_3_block(1) [OF ok, of a m True] by auto
  let ?t = "s\<lparr>mds := (mds s)(a \<mapsto> md\<lparr>is_free := False\<rparr>), num_free_blocks := num_free_blocks s - 1,
    num_free_bytes := num_free_bytes s - of_nat m\<rparr>"
  have "counters META_3 (us @ (a, m, False) # vs) ?t"
    using ok by (simp add: heap_ok_3_def layout_3_def counters_def)
  from heap_ok_3_flag [OF ok md(1) refl this] md show ?thesis by (auto simp: claim_def list_3)
qed

text \<open>Clearing and restoring the flag of a block that is in use does nothing.\<close>

lemma heap_ok_3_set_free:
  assumes ok: "heap_ok_3 E s bs" and mem: "(x, j, False) \<in> set bs"
  shows "set_free x False s = Inr s"
proof -
  obtain md where "mds s x = Some md" "is_free md = False" using heap_ok_3_block(1) [OF ok mem] by auto
  moreover from this have "md\<lparr>is_free := False\<rparr> = md" by simp
  ultimately show ?thesis by (simp add: list_3 fun_upd_idem)
qed

lemma masked_merge_ok:
  assumes sane: "sane E" and ok: "heap_ok_3 E s (us @ ws)" and anc: "anchored pin k (us @ ws)"
    and x: "x = prev_of us" "us = [] \<or> \<not> snd (snd (last us))"
  shows "\<exists>s'. masked_merge E x s = Inr s' \<and> merge_3 E s = Inr s' \<and>
    heap_ok_3 E s' (coalesce us @ coalesce ws) \<and> kept s s'"
proof -
  obtain s' where s': "merge_3 E s = Inr s'" "heap_ok_3 E s' (coalesce us @ coalesce ws)" "kept s s'"
    using merge_3_ok [OF sane ok anc] coalesce_append [OF x(2)] by auto
  show ?thesis
  proof (cases us rule: rev_cases)
    case Nil
    with s' x show ?thesis by (auto simp: masked_merge_def prev_of_def)
  next
    case (snoc vs l)
    then obtain j where l: "l = (x, j, False)" using x by (cases l) (auto simp: prev_of_def)
    have mem: "(x, j, False) \<in> set (us @ ws)" using snoc l by simp
    have "(x, j, False) \<in> set (coalesce us)" unfolding snoc l
    proof (induction vs rule: coalesce.induct [case_names step nil single])
      case (step a n f b m g bs)
      then show ?case by (cases "f \<and> g") auto
    next
      case (single v)
      then show ?case by (cases v) simp
    qed simp
    then have mem': "(x, j, False) \<in> set (coalesce us @ coalesce ws)" by simp
    obtain md where md: "mds s x = Some md" "is_free md = False" using heap_ok_3_block(1) [OF ok mem] by auto
    have "x \<noteq> NULL" using heap_ok_3_block(3) [OF ok mem] .
    with md s' heap_ok_3_set_free [OF ok mem] heap_ok_3_set_free [OF s'(2) mem'] show ?thesis
      by (auto simp: masked_merge_def)
  qed
qed

lemma counters_enlarge:
  assumes "counters META_3 (us @ [(w, m, False)]) s" and "m \<le> n"
    and "num_free_blocks t = num_free_blocks s" "num_free_bytes t = num_free_bytes s"
    and "num_allocated_blocks t = num_allocated_blocks s"
    and "num_allocated_bytes t = num_allocated_bytes s + of_nat (n - m)"
    and "num_meta_data_bytes t = num_meta_data_bytes s"
  shows "counters META_3 (us @ [(w, n, False)]) t"
  using assms by (simp add: counters_def of_nat_diff)

lemma enlarge_ok:
  assumes sane: "sane E" and ok: "heap_ok_3 E s (us @ [(w, m, False)])" and anc: "anchored pin k (us @ [(w, m, False)])"
    and n: "m \<le> n" "k \<le> n" "n < 2 ^ 31" "pin \<noteq> w" and g: "grant E (brk s) (n - m)"
  shows "\<exists>s1 s'. sbrk (grant E) (n - m) s = (Some (brk s), s1) \<and> enlarge E q (n - m) s1 = Inr (q, s') \<and>
    heap_ok_3 E s' (us @ [(w, n, False)]) \<and> (\<forall>x < brk s. data s' x = data s x)"
proof -
  let ?bs = "us @ [(w, m, False)]"
  from heap_ok_3_list [OF ok] obtain xs where xs: "sorted_list E s xs" "mset xs = mset (map fst ?bs)"
    "set xs = fst ` set ?bs" "length xs < fuel E" by metis
  have lay: "layout_3 s ?bs" using ok by (simp add: heap_ok_3_def)
  have wild: "wilderness s = w" using lay by (simp add: layout_3_def)
  have mem: "(w, m, False) \<in> set ?bs" by simp
  note blk = heap_ok_3_block [OF ok mem] and pin = anchor_facts [OF ok anc xs(3)]
  obtain wm where wm: "mds s w = Some wm" "msize wm = m" "is_free wm = False" "cookie wm = MAIN_COOKIE E"
    using blk(1) by auto
  have wx: "w \<in> set xs" using xs(3) by simp
  obtain d1 where d1: "sbrk (grant E) (n - m) s = (Some (brk s), s\<lparr>brk := brk s + (n - m), data := d1\<rparr>)"
    "\<forall>x < brk s. d1 x = data s x" using sbrk_grant [OF g] by blast
  let ?s1 = "s\<lparr>brk := brk s + (n - m), data := d1\<rparr>"
  have l1: "sorted_list E ?s1 xs" using xs(1) sorted_list_cong [of ?s1 s] by simp
  have "size_at ?s1 pin \<le> n" using pin(2) n by (simp add: size_at_def)
  with regrow_list [OF l1 wx _ pin(1) n(4), of wm n] wm xs(4) obtain s2 m2 where
    s2: "HeapListRemove E w ?s1 = Inr s2" "relinked ?s1 s2" "mds s2 w = Some m2" "msize m2 = m" "is_free m2 = False"
    and ins: "\<forall>m'. msize m' = n \<and> cookie m' = cookie m2 \<longrightarrow>
      (\<exists>s4 ys. HeapListInsert E w (s2\<lparr>mds := (mds s2)(w \<mapsto> m')\<rparr>) = Inr s4 \<and>
        relinked (s2\<lparr>mds := (mds s2)(w \<mapsto> m')\<rparr>) s4 \<and> sorted_list E s4 ys \<and> mset ys = mset xs)" by auto
  define m' where "m' = m2\<lparr>msize := n\<rparr>"
  define s3 where "s3 = s2\<lparr>mds := (mds s2)(w \<mapsto> m')\<rparr>"
  obtain s4 ys where s4: "HeapListInsert E w s3 = Inr s4" "relinked s3 s4" "sorted_list E s4 ys" "mset ys = mset xs"
    using ins [rule_format, of m'] by (auto simp: m'_def s3_def)
  define s5 where "s5 = s4\<lparr>num_allocated_bytes := num_allocated_bytes s4 + of_nat (n - m)\<rparr>"
  have szs: "sz_add m (n - m) = n" using n by (simp add: sz_add_exact)
  have run: "enlarge E q (n - m) ?s1 = Inr (q, s5)"
    using wild s2 szs s4(1)
    by (simp add: enlarge_def grow_wilderness_def list_3 s3_def [symmetric] m'_def [symmetric] s5_def)
  note f2 = relinkedD [OF s2(2)] and f4 = relinkedD [OF s4(2)]
  have "heap_ok_3 E s5 (us @ [(w, n, False)])"
  proof (rule regrow_heap [OF ok, of n])
    show "counters META_3 (us @ [(w, n, False)]) s5"
      by (rule counters_enlarge [of us w m s]) (use lay n in \<open>simp_all add: s5_def s3_def f4 f2 layout_3_def\<close>)
    show "info (mds s5) = (info (mds s))(w \<mapsto> (n, False))"
      using s2(5) by (simp add: s5_def f4(9) s3_def dll_simps f2(9) m'_def)
    show "brk s5 < fuel E" using g sane by (simp add: s5_def f4 s3_def f2 sane_def)
    show "sorted_list E s5 ys" using s4(3) sorted_list_cong [of s5 s4] by (simp add: s5_def)
    show "mset ys = mset (map fst ?bs)" using s4(4) xs(2) by simp
  qed (use n in \<open>simp_all add: s5_def f4 s3_def f2\<close>)
  with run d1 show ?thesis by (simp add: s5_def f4 s3_def f2)
qed

section \<open>Copying into a live block\<close>

lemma heap_ok_3_same_headers:
  assumes ok: "heap_ok_3 E s bs" and m: "\<And>a. a \<in> fst ` set bs \<Longrightarrow> mds t a = mds s a"
    and f: "brk t = brk s" "brk0 t = brk0 s" "head t = head s" "firsthead t = firsthead s" "wilderness t = wilderness s"
    and c: "counters META_3 bs t = counters META_3 bs s"
  shows "heap_ok_3 E t bs"
proof -
  from heap_ok_3_list [OF ok] obtain xs where xs: "sorted_list E s xs" "mset xs = mset (map fst bs)" "set xs = fst ` set bs"
    by metis
  have "sorted_list E t xs" by (rule sorted_list_outside [OF xs(1)]) (use m xs(3) f in auto)
  moreover have "blocks_in (mds t) bs = blocks_in (mds s) bs" by (rule blocks_in_cong) (use m in \<open>auto simp: info_def\<close>)
  ultimately show ?thesis using ok xs(2) f c by (auto simp: heap_ok_3_def layout_3_def)
qed

lemma memmove_3_ok:
  assumes ok: "heap_ok_3 E s bs" and d: "(a, m, f) \<in> set bs" "l \<le> m" and c: "(c, j, g) \<in> set bs" "l \<le> j"
  shows "\<exists>s'. memmove META_3 (a + META_3) (c + META_3) l s = Inr s' \<and> heap_ok_3 E s' bs \<and> brk s' = brk s \<and>
    (\<forall>x. data s' x = (if a + META_3 \<le> x \<and> x < a + META_3 + l then data s (c + META_3 + (x - (a + META_3))) else data s x))"
proof (cases "l = 0")
  case True
  with ok show ?thesis by (auto simp: memmove_def)
next
  case False
  have im: "in_mem s (a + META_3) l" "in_mem s (c + META_3) l"
    using heap_ok_3_block(5,6) [OF ok d(1)] heap_ok_3_block(5,6) [OF ok c(1)] d(2) c(2)
    by (auto intro!: in_mem_brk)
  let ?t = "s\<lparr>mds := (\<lambda>q. if overlaps (a + META_3) l q META_3 then None else mds s q),
    data := (\<lambda>x. if a + META_3 \<le> x \<and> x < a + META_3 + l then data s (c + META_3 + (x - (a + META_3))) else data s x)\<rparr>"
  have lay: "layout_3 s bs" using ok by (simp add: heap_ok_3_def)
  have "\<not> overlaps (a + META_3) l b META_3" if b: "b \<in> fst ` set bs" for b
  proof -
    from b obtain i h where "(b, i, h) \<in> set bs" by auto
    from laid_apart [OF layout_3_laid [OF lay] this d(1)] d(2) show ?thesis
      by (cases "b = a") (auto simp: overlaps_def)
  qed
  then have "heap_ok_3 E ?t bs" by (intro heap_ok_3_same_headers [OF ok]) (auto simp: counters_def)
  with False im show ?thesis by (auto simp: memmove_def)
qed

section \<open>The branches\<close>

lemma srealloc_3_cases:
  assumes ok: "heap_ok_3 E s (us @ (a, m, False) # vs)" and prev: "us = [] \<or> \<not> snd (snd (last us))"
    and n: "0 < n" "n \<le> SIZE_LIMIT" "m < n" "m < MMAP_THRESHOLD" and fu: "fuel E \<le> 2 ^ 31"
  shows "srealloc_3 E (a + META_3) n s = (case vs of [] \<Rightarrow> realloc_wild E n s
    | (b, l, g) # ws \<Rightarrow> if g \<and> n \<le> m + l + META_3 then realloc_next E (a + META_3) (prev_of us) n s
        else if g \<and> ws = [] then realloc_next_wild E (a + META_3) n s
        else realloc_elsewhere E (a + META_3) n s)"
proof -
  have lay: "layout_3 s (us @ (a, m, False) # vs)" using ok by (simp add: heap_ok_3_def)
  have mem: "(a, m, False) \<in> set (us @ (a, m, False) # vs)" by simp
  obtain md where md: "mds s a = Some md" "msize md = m" using heap_ok_3_block(1) [OF ok mem] by auto
  have pf: "\<exists>ps. (if a = firsthead s then Inr (False, 0)
      else rbind (deref (mds s) (prev_of us)) (\<lambda>pm. Inr (is_free pm, msize pm))) = Inr (False, ps)"
  proof (cases us rule: rev_cases)
    case Nil
    then show ?thesis using layout_3_first [OF lay] by simp
  next
    case (snoc zs z)
    with prev obtain c j where z: "z = (c, j, False)" by (cases z) auto
    with heap_ok_3_block(1) [OF ok, of c j False] snoc layout_3_first [OF lay] show ?thesis
      by (auto simp: prev_of_def)
  qed
  then obtain ps where ps: "(if a = firsthead s then Inr (False, 0)
      else rbind (deref (mds s) (prev_of us)) (\<lambda>pm. Inr (is_free pm, msize pm))) = Inr (False, ps)" by blast
  have run: "srealloc_3 E (a + META_3) n s = (if a = wilderness s then realloc_wild E n s
    else rbind (deref (mds s) (next_of vs)) (\<lambda>nm.
      if is_free nm \<and> sz_add (sz_add m (msize nm)) META_3 \<ge> n then realloc_next E (a + META_3) (prev_of us) n s
      else if next_of vs \<noteq> NULL \<and> next_of vs = wilderness s \<and> is_free nm then realloc_next_wild E (a + META_3) n s
      else realloc_elsewhere E (a + META_3) n s))"
    using n md heap_ok_3_block(2) [OF ok mem]
    by (simp add: srealloc_3_def neighbours_ok [OF ok] ps cong: if_cong)
  show ?thesis
  proof (cases vs)
    case Nil
    with run layout_3_wild [OF lay] show ?thesis by simp
  next
    case (Cons v ws)
    obtain b l g where v: "v = (b, l, g)" by (cases v)
    have bm: "(b, l, g) \<in> set (us @ (a, m, False) # vs)" using Cons v by simp
    obtain bd where bd: "mds s b = Some bd" "msize bd = l" "is_free bd = g" using heap_ok_3_block(1) [OF ok bm] by auto
    have "m + l + META_3 < 2 ^ 64"
      using heap_ok_3_block(6,7) [OF ok bm] n(4) fu by (simp add: MMAP_THRESHOLD_def)
    then have "sz_add (sz_add m l) META_3 = m + l + META_3" by (simp add: sz_add_exact)
    moreover have "next_of vs = b" "b \<noteq> NULL" using Cons v heap_ok_3_block(3) [OF ok bm] by (simp_all add: next_of_def)
    moreover have "b = wilderness s \<longleftrightarrow> ws = []"
      using layout_3_wild [of s "us @ [(a, m, False)]" b l g ws] lay Cons v by simp
    moreover have "a \<noteq> wilderness s" using layout_3_wild [OF lay] Cons by simp
    ultimately show ?thesis using run bd Cons v by (simp add: next_of_def)
  qed
qed

text \<open>What \<open>srealloc\<close> promises for the live block \<open>p\<close> of \<open>m\<close> bytes.\<close>

definition resized :: "ptr \<Rightarrow> ptr \<Rightarrow> nat \<Rightarrow> nat \<Rightarrow> ptr \<Rightarrow> heap_3 \<Rightarrow> heap_3 \<Rightarrow> bool" where
  "resized pin p m n q s s' \<longleftrightarrow>
     (if q = NULL
      then (\<exists>m' \<ge> m. live_3 pin s' = insert (p, m') (live_3 pin s - {(p, m)})) \<and> same_bytes (live_3 pin s) (data s) (data s')
      else (\<exists>m' \<ge> n. disjoint_from (live_3 pin s - {(p, m)}) q m' \<and>
              live_3 pin s' = insert (q, m') (live_3 pin s - {(p, m)})) \<and>
        (\<forall>i < min m n. data s' (q + i) = data s (p + i)) \<and>
        same_bytes (live_3 pin s - {(p, m)}) (data s) (data s'))"

text \<open>A block resized where it is.\<close>

lemma in_place:
  assumes ok: "ok_3 E pin k s" and bs: "blocks_3 s = us @ (a, m, False) # vs" and pin: "a \<noteq> pin"
    and ok': "heap_ok_3 E s' (us' @ (a, m', False) # vs')"
    and live: "live_of META_3 us' = live_of META_3 us" "live_of META_3 vs' = live_of META_3 vs"
    and keep: "anchored pin k (us' @ (a, m', False) # vs')" "in_use_small (us' @ (a, m', False) # vs')"
  shows "ok_3 E pin k s'"
    and "live_3 pin s' = insert (a + META_3, m') (live_3 pin s - {(a + META_3, m)})"
    and "disjoint_from (live_3 pin s - {(a + META_3, m)}) (a + META_3) m'"
    and "live_3 pin s - {(a + META_3, m)} \<subseteq> live_of META_3 us \<union> live_of META_3 vs"
proof -
  have "sane E" using ok by (simp add: ok_3_def)
  from ok_3I [OF this ok' keep] have bs': "blocks_3 s' = us' @ (a, m', False) # vs'" and k': "ok_3 E pin k s'"
    by simp_all
  from k' show "ok_3 E pin k s'" .
  have "laid META_3 (firsthead s) (brk s) (us @ (a, m, False) # vs)" using ok_3_laid [OF ok] bs by simp
  from laid_notin_live [OF this] have notin: "(a + META_3, i) \<notin> live_of META_3 us \<union> live_of META_3 vs" for i .
  show sub: "live_3 pin s - {(a + META_3, m)} \<subseteq> live_of META_3 us \<union> live_of META_3 vs"
    using bs by (auto simp: live_3_alt)
  show "live_3 pin s' = insert (a + META_3, m') (live_3 pin s - {(a + META_3, m)})"
    using bs bs' live pin notin by (auto simp: live_3_alt)
  have "laid META_3 (firsthead s') (brk s') (us' @ (a, m', False) # vs')"
    using layout_3_laid ok' by (simp add: heap_ok_3_def)
  from laid_disjoint_from [OF this] live sub
  show "disjoint_from (live_3 pin s - {(a + META_3, m)}) (a + META_3) m'" by (auto simp: disjoint_from_def)
qed

lemma in_place_resized:
  assumes ok: "ok_3 E pin k s" and bs: "blocks_3 s = us @ (a, m, False) # vs" and pin: "a \<noteq> pin"
    and ok': "heap_ok_3 E s' (us' @ (a, m', False) # vs')"
    and live: "live_of META_3 us' = live_of META_3 us" "live_of META_3 vs' = live_of META_3 vs"
    and keep: "anchored pin k (us' @ (a, m', False) # vs')" "in_use_small (us' @ (a, m', False) # vs')"
    and others: "same_bytes (live_of META_3 us \<union> live_of META_3 vs) (data s) (data s')"
    and own: "\<forall>i < min m n. data s' (a + META_3 + i) = data s (a + META_3 + i)" and n: "n \<le> m'"
  shows "ok_3 E pin k s' \<and> resized pin (a + META_3) m n (a + META_3) s s'"
proof -
  note ip = in_place [OF ok bs pin ok' live keep]
  have "same_bytes (live_3 pin s - {(a + META_3, m)}) (data s) (data s')"
    using others ip(4) unfolding same_bytes_def by fast
  with ip own n show ?thesis by (auto simp: resized_def)
qed

lemma in_place_refused:
  assumes ok: "ok_3 E pin k s" and bs: "blocks_3 s = us @ (a, m, False) # vs" and pin: "a \<noteq> pin"
    and ok': "heap_ok_3 E s' (us' @ (a, m', False) # vs')"
    and live: "live_of META_3 us' = live_of META_3 us" "live_of META_3 vs' = live_of META_3 vs"
    and keep: "anchored pin k (us' @ (a, m', False) # vs')" "in_use_small (us' @ (a, m', False) # vs')"
    and same: "data s' = data s" and m: "m \<le> m'"
  shows "ok_3 E pin k s' \<and> resized pin (a + META_3) m n NULL s s'"
  using in_place [OF ok bs pin ok' live keep] same m by (auto simp: resized_def same_bytes_def)

section \<open>srealloc keeps the bytes\<close>

lemma coalesce_keeps:
  assumes "anchored pin k (us @ ws)" "in_use_small (us @ ws)" "us = [] \<or> \<not> snd (snd (last us))"
  shows "anchored pin k (coalesce us @ coalesce ws)" "in_use_small (coalesce us @ coalesce ws)"
  using coalesce_anchored [OF assms(1)] coalesce_small [OF assms(2)] coalesce_append [OF assms(3)] by simp_all

text \<open>What marking and merging in front of the branches (d) and (f) gives.\<close>

lemma mark_and_merge:
  assumes ok: "ok_3 E pin k s" and bs: "blocks_3 s = us @ (a, m, False) # (b, l, True) # vs" and pin: "a \<noteq> pin"
    and prev: "us = [] \<or> \<not> snd (snd (last us))"
  shows "\<exists>s1 s2 j rest. mark_free a s = Inr s1 \<and> masked_merge E (prev_of us) s1 = Inr s2 \<and> merge_3 E s1 = Inr s2 \<and>
    heap_ok_3 E s2 (coalesce us @ (a, j, True) # rest) \<and> m + l + META_3 \<le> j \<and>
    coalesce ((a, m, True) # (b, l, True) # vs) = (a, j, True) # rest \<and>
    live_of META_3 rest = live_of META_3 vs \<and> kept s s2 \<and>
    anchored pin k (coalesce us @ (a, j, True) # rest) \<and> in_use_small (coalesce us @ (a, j, True) # rest)"
proof -
  have sane: "sane E" and hok: "heap_ok_3 E s (us @ (a, m, False) # (b, l, True) # vs)"
    and keep: "anchored pin k (us @ (a, m, False) # (b, l, True) # vs)"
      "in_use_small (us @ (a, m, False) # (b, l, True) # vs)"
    using ok bs by (simp_all add: ok_3_def)
  obtain s1 where s1: "mark_free a s = Inr s1" "heap_ok_3 E s1 (us @ (a, m, True) # (b, l, True) # vs)" "kept s s1"
    using mark_free_ok [OF hok] by blast
  note keep1 = free_block_keeps [OF keep pin]
  obtain s2 where s2: "masked_merge E (prev_of us) s1 = Inr s2" "merge_3 E s1 = Inr s2"
    "heap_ok_3 E s2 (coalesce us @ coalesce ((a, m, True) # (b, l, True) # vs))" "kept s1 s2"
    using masked_merge_ok [OF sane s1(2) keep1(1) refl prev] by blast
  obtain j rest where c: "coalesce ((a, m, True) # (b, l, True) # vs) = (a, j, True) # rest" "m + l + META_3 \<le> j"
    "live_of META_3 rest = live_of META_3 vs" using coalesce_two by blast
  have "kept s s2" using s1(3) s2(4) by (rule kept_trans)
  with s1(1) s2(1-3) c coalesce_keeps [OF keep1 prev] show ?thesis
    by (intro exI [of _ s1] exI [of _ s2] exI [of _ j] exI [of _ rest]) (simp del: coalesce.simps)
qed

lemma split_blocks_keep:
  assumes "anchored pin k (us @ (a, m, f) # vs)" "a \<noteq> pin" "k \<le> n" "n \<le> m"
    and "in_use_small (us @ (a, m, f) # vs)" "n + META_3 + SPLIT_THRESHOLD \<le> MMAP_THRESHOLD"
  shows "anchored pin k (us @ split_blocks a m n @ vs)" "in_use_small (us @ split_blocks a m n @ vs)"
  using assms split_blocks_small [OF assms(5,6)] by (auto simp: anchored_def split_blocks_def)

lemma split_blocks_form:
  "n \<le> m \<Longrightarrow> \<exists>m' tl. split_blocks a m n = (a, m', False) # tl \<and> n \<le> m' \<and> live_of META_3 tl = {}"
  by (auto simp: split_blocks_def)

lemma kept_outside_others:
  assumes lay: "layout_3 s (us @ (a, j, f) # vs)" and k: "kept_outside (a + META_3 + n) (a + META_3 + j) s s'"
  shows "same_bytes (live_of META_3 us \<union> live_of META_3 vs) (data s) (data s')"
  unfolding same_bytes_def
proof (clarify)
  fix p i x
  assume "(p, i) \<in> live_of META_3 us \<union> live_of META_3 vs" and x: "p \<le> x" "x < p + i"
  then have "\<not> overlaps (a + META_3) j p i"
    using laid_disjoint_from [OF layout_3_laid [OF lay]] by (auto simp: disjoint_from_def)
  with x have "x < a + META_3 + n \<or> a + META_3 + j \<le> x" by (auto simp: overlaps_def)
  with k show "data s' x = data s x" by (auto simp: kept_outside_def)
qed

lemma below_brk_same:
  assumes lay: "layout_3 s (us @ (a, m, f) # vs)" and d: "\<forall>x < brk s. data s' x = data s x"
  shows "same_bytes (live_of META_3 us \<union> live_of META_3 vs) (data s) (data s')"
    and "\<forall>i < m. data s' (a + META_3 + i) = data s (a + META_3 + i)"
proof -
  from data_kept_live [OF lay d] show "same_bytes (live_of META_3 us \<union> live_of META_3 vs) (data s) (data s')"
    unfolding same_bytes_def by (cases f) auto
  have "a + META_3 + m \<le> brk s" using laid_bounds [OF layout_3_laid [OF lay], of a m f] by simp
  with d show "\<forall>i < m. data s' (a + META_3 + i) = data s (a + META_3 + i)" by simp
qed

text \<open>Shrinking, also what the merging branches end with.\<close>

lemma realloc_shrinks:
  assumes ok: "ok_3 E pin k s" and bs: "blocks_3 s = us @ (a, m, False) # vs" and pin: "a \<noteq> pin"
    and n: "request_ok k n" and sane: "sane E"
    and ok2: "heap_ok_3 E s2 (us2 @ (a, j, f) # rest)" and j: "n \<le> j"
    and live: "live_of META_3 us2 = live_of META_3 us" "live_of META_3 rest = live_of META_3 vs"
    and keep: "anchored pin k (us2 @ (a, j, f) # rest)" "in_use_small (us2 @ (a, j, f) # rest)"
    and data: "data s2 = data s"
  shows "\<exists>s'. split_3 E a n s2 = Inr s' \<and> ok_3 E pin k s' \<and> resized pin (a + META_3) m n (a + META_3) s s'"
proof -
  have n': "k \<le> n" "0 < n" "n + META_3 + SPLIT_THRESHOLD \<le> MMAP_THRESHOLD" using n by (auto simp: request_ok_def)
  from split_3_ok [OF sane ok2 keep(1) n'(1,2) j] obtain s' where s': "split_3 E a n s2 = Inr s'"
    "heap_ok_3 E s' (us2 @ split_blocks a j n @ rest)" "kept_outside (a + META_3 + n) (a + META_3 + j) s2 s'" by blast
  obtain m' tl where sp: "split_blocks a j n = (a, m', False) # tl" "n \<le> m'" "live_of META_3 tl = {}"
    using split_blocks_form [OF j] by blast
  have keep': "anchored pin k (us2 @ (a, m', False) # tl @ rest)" "in_use_small (us2 @ (a, m', False) # tl @ rest)"
    using split_blocks_keep [OF keep(1) pin n'(1) j keep(2) n'(3)] sp(1) by simp_all
  have lay2: "layout_3 s2 (us2 @ (a, j, f) # rest)" using ok2 by (simp add: heap_ok_3_def)
  have o: "same_bytes (live_of META_3 us \<union> live_of META_3 vs) (data s) (data s')"
    using kept_outside_others [OF lay2 s'(3)] live data by simp
  have i: "\<forall>i < min m n. data s' (a + META_3 + i) = data s (a + META_3 + i)"
    using s'(3) data by (simp add: kept_outside_def)
  have "heap_ok_3 E s' (us2 @ (a, m', False) # tl @ rest)" using s'(2) sp(1) by simp
  from in_place_resized [OF ok bs pin this live(1) _ keep' o i sp(2)] live(2) sp(3) s'(1)
  show ?thesis by auto
qed

lemma realloc_wild_ok:
  assumes ok: "ok_3 E pin k s" and bs: "blocks_3 s = us @ [(a, m, False)]" and pin: "a \<noteq> pin"
    and n: "request_ok k n" "m < n"
  shows "\<exists>q s'. realloc_wild E n s = Inr (q, s') \<and> ok_3 E pin k s' \<and> resized pin (a + META_3) m n q s s'"
proof -
  have sane: "sane E" and hok: "heap_ok_3 E s (us @ [(a, m, False)])" and keep: "anchored pin k (us @ [(a, m, False)])"
    "in_use_small (us @ [(a, m, False)])" using ok bs by (simp_all add: ok_3_def)
  have lay: "layout_3 s (us @ [(a, m, False)])" using hok by (simp add: heap_ok_3_def)
  have n': "k \<le> n" "n < MMAP_THRESHOLD" "n < 2 ^ 31" using n(1) by (auto simp: request_ok_def MMAP_THRESHOLD_def META_3_def)
  have sub: "sz_sub n m = n - m" using n(2) n'(3) by (simp add: sz_sub_exact)
  obtain md where md: "mds s a = Some md" "msize md = m" using heap_ok_3_block(1) [OF hok, of a m False] by auto
  have wild: "wilderness s = a" using lay by (simp add: layout_3_def)
  have keep': "anchored pin k (us @ [(a, n, False)])" "in_use_small (us @ [(a, n, False)])"
    using keep n' pin by (auto simp: anchored_def in_use_small_def)
  show ?thesis
  proof (cases "grant E (brk s) (n - m)")
    case True
    from enlarge_ok [OF sane hok keep(1) _ n'(1,3) pin [symmetric] True, of "a + META_3"] n(2) obtain s1 s' where
      s': "sbrk (grant E) (n - m) s = (Some (brk s), s1)" "enlarge E (a + META_3) (n - m) s1 = Inr (a + META_3, s')"
      "heap_ok_3 E s' (us @ [(a, n, False)])" "\<forall>x < brk s. data s' x = data s x" by auto
    have "s1 = snd (sbrk (grant E) (n - m) s)" using s'(1) by simp
    then have "wilderness s1 = a" using wild True by (simp add: sbrk_def)
    then have run: "realloc_wild E n s = Inr (a + META_3, s')"
      using wild md sub s'(1,2) by (simp add: realloc_wild_def)
    note bb = below_brk_same [OF lay s'(4)]
    have "\<forall>i < min m n. data s' (a + META_3 + i) = data s (a + META_3 + i)" using bb(2) by simp
    from in_place_resized [OF ok bs pin s'(3) refl refl keep' bb(1) this] run show ?thesis by auto
  next
    case False
    then have "realloc_wild E n s = Inr (NULL, s)" using wild md sub by (simp add: realloc_wild_def sbrk_def)
    moreover have "ok_3 E pin k s \<and> resized pin (a + META_3) m n NULL s s"
      by (rule in_place_refused [OF ok bs pin hok refl refl keep]) simp_all
    ultimately show ?thesis by blast
  qed
qed

lemma realloc_next_ok:
  assumes ok: "ok_3 E pin k s" and bs: "blocks_3 s = us @ (a, m, False) # (b, l, True) # vs" and pin: "a \<noteq> pin"
    and n: "request_ok k n" "n \<le> m + l + META_3" and prev: "us = [] \<or> \<not> snd (snd (last us))"
  shows "\<exists>q s'. realloc_next E (a + META_3) (prev_of us) n s = Inr (q, s') \<and> ok_3 E pin k s' \<and>
    resized pin (a + META_3) m n q s s'"
proof -
  have sane: "sane E" using ok by (simp add: ok_3_def)
  obtain s1 s2 j rest where mm: "mark_free a s = Inr s1" "masked_merge E (prev_of us) s1 = Inr s2"
    "heap_ok_3 E s2 (coalesce us @ (a, j, True) # rest)" "m + l + META_3 \<le> j" "live_of META_3 rest = live_of META_3 vs"
    "kept s s2" "anchored pin k (coalesce us @ (a, j, True) # rest)" "in_use_small (coalesce us @ (a, j, True) # rest)"
    using mark_and_merge [OF ok bs pin prev] by blast
  have "n \<le> j" "data s2 = data s" using n(2) mm(4,6) by (auto simp: kept_def)
  with realloc_shrinks [OF ok bs pin n(1) sane mm(3) _ coalesce_live _ mm(7,8)] mm(5)
  obtain s' where "split_3 E a n s2 = Inr s'" "ok_3 E pin k s'" "resized pin (a + META_3) m n (a + META_3) s s'" by auto
  with mm(1,2) show ?thesis by (auto simp: realloc_next_def)
qed

lemma realloc_next_wild_ok:
  assumes ok: "ok_3 E pin k s" and bs: "blocks_3 s = us @ [(a, m, False), (b, l, True)]" and pin: "a \<noteq> pin"
    and n: "request_ok k n" "m + l + META_3 < n" and prev: "us = [] \<or> \<not> snd (snd (last us))"
  shows "\<exists>q s'. realloc_next_wild E (a + META_3) n s = Inr (q, s') \<and> ok_3 E pin k s' \<and>
    resized pin (a + META_3) m n q s s'"
proof -
  have sane: "sane E" using ok by (simp add: ok_3_def)
  have bs': "blocks_3 s = us @ (a, m, False) # (b, l, True) # []" using bs by simp
  obtain s1 s2 j rest where mm: "mark_free a s = Inr s1" "merge_3 E s1 = Inr s2"
    "heap_ok_3 E s2 (coalesce us @ (a, j, True) # rest)"
    "coalesce ((a, m, True) # (b, l, True) # []) = (a, j, True) # rest" "kept s s2"
    "anchored pin k (coalesce us @ (a, j, True) # rest)" "in_use_small (coalesce us @ (a, j, True) # rest)"
    using mark_and_merge [OF ok bs' pin prev] by blast
  define j' where "j' = m + l + META_3"
  from mm(4) have j: "j = j'" "rest = []" "m \<le> j'" "j' < n" using n(2) by (auto simp: j'_def)
  have n': "k \<le> n" "n < MMAP_THRESHOLD" "n < 2 ^ 31" using n(1) by (auto simp: request_ok_def MMAP_THRESHOLD_def META_3_def)
  obtain s3 where s3: "claim a s2 = Inr s3" "heap_ok_3 E s3 (coalesce us @ [(a, j', False)])" "kept s2 s3"
    using claim_ok [OF mm(3)] j by auto
  have keep: "anchored pin k (coalesce us @ [(a, j', False)])" "in_use_small (coalesce us @ [(a, j', False)])"
    "anchored pin k (coalesce us @ [(a, n, False)])" "in_use_small (coalesce us @ [(a, n, False)])"
    using mm(6,7) j n' pin by (auto simp: anchored_def in_use_small_def)
  have same: "data s3 = data s" "brk s3 = brk s" using mm(5) s3(3) by (simp_all add: kept_def)
  have lay: "layout_3 s (us @ (a, m, False) # [(b, l, True)])" and lay3: "layout_3 s3 (coalesce us @ [(a, j', False)])"
    using ok bs s3(2) by (simp_all add: ok_3_def heap_ok_3_def)
  have wild: "wilderness s3 = a" using lay3 by (simp add: layout_3_def)
  obtain md where md: "mds s3 a = Some md" "msize md = j'" using heap_ok_3_block(1) [OF s3(2), of a j' False] by auto
  have sub: "sz_sub n j' = n - j'" using j n' by (simp add: sz_sub_exact)
  have live: "live_of META_3 (coalesce us) = live_of META_3 us" "live_of META_3 [] = live_of META_3 [(b, l, True)]"
    by (simp_all add: coalesce_live)
  show ?thesis
  proof (cases "grant E (brk s3) (n - j')")
    case True
    have "j' \<le> n" using j by simp
    from enlarge_ok [OF sane s3(2) keep(1) this n'(1,3) pin [symmetric] True, of "a + META_3"] obtain s4 s' where
      s': "sbrk (grant E) (n - j') s3 = (Some (brk s3), s4)" "enlarge E (a + META_3) (n - j') s4 = Inr (a + META_3, s')"
      "heap_ok_3 E s' (coalesce us @ [(a, n, False)])" "\<forall>x < brk s3. data s' x = data s3 x" by blast
    have run: "realloc_next_wild E (a + META_3) n s = Inr (a + META_3, s')"
      using mm(1,2) s3(1) wild md sub s'(1,2) by (simp add: realloc_next_wild_def)
    have "\<forall>x < brk s. data s' x = data s x" using s'(4) same by simp
    note bb = below_brk_same [OF lay this]
    have "\<forall>i < min m n. data s' (a + META_3 + i) = data s (a + META_3 + i)" using bb(2) by simp
    from in_place_resized [OF ok bs pin s'(3) live keep(3,4) bb(1) this order_refl] run show ?thesis by auto
  next
    case False
    then have "realloc_next_wild E (a + META_3) n s = Inr (NULL, s3)"
      using mm(1,2) s3(1) wild md sub by (simp add: realloc_next_wild_def sbrk_def)
    moreover have "ok_3 E pin k s3 \<and> resized pin (a + META_3) m n NULL s s3"
      by (rule in_place_refused [OF ok bs pin s3(2) live keep(1,2) same(1) j(3)])
    ultimately show ?thesis by blast
  qed
qed

text \<open>Moving to another block.\<close>

lemma realloc_elsewhere_ok:
  assumes ok: "ok_3 E pin k s" and p: "(p, m) \<in> live_3 pin s" and n: "request_ok k n" "m \<le> n"
  shows "\<exists>q s'. realloc_elsewhere E p n s = Inr (q, s') \<and> ok_3 E pin k s' \<and> resized pin p m n q s s'"
proof -
  have r: "round_3 k n = n" using n(1) by (simp add: round_3_def request_ok_def max_def)
  from m3.malloc_law [OF ok, of n] obtain q s1 where s1: "smalloc_3 E n s = Inr (q, s1)" "ok_3 E pin k s1"
    "same_bytes (live_3 pin s) (data s) (data s1)"
    and q: "if q = 0 then live_3 pin s1 = live_3 pin s
      else \<exists>i. n \<le> i \<and> 0 < n \<and> disjoint_from (live_3 pin s) q i \<and> live_3 pin s1 = insert (q, i) (live_3 pin s)"
    unfolding r by blast
  show ?thesis
  proof (cases "q = NULL")
    case True
    with q p have "live_3 pin s1 = insert (p, m) (live_3 pin s - {(p, m)})" by auto
    with s1 True show ?thesis by (auto simp: realloc_elsewhere_def resized_def)
  next
    case False
    with q obtain i where i: "n \<le> i" "0 < n" "disjoint_from (live_3 pin s) q i"
      "live_3 pin s1 = insert (q, i) (live_3 pin s)" by auto
    have in1: "(q, i) \<in> live_3 pin s1" "(p, m) \<in> live_3 pin s1" using i(4) p by auto
    then have b: "META_3 \<le> q" "(q - META_3, i, False) \<in> set (blocks_3 s1)" "META_3 \<le> p"
      "(p - META_3, m, False) \<in> set (blocks_3 s1)"
      by (auto simp: live_3_alt live_of_iff)
    have hok1: "heap_ok_3 E s1 (blocks_3 s1)" using s1(2) by (simp add: ok_3_def)
    obtain md where md: "mds s1 (p - META_3) = Some md" "msize md = m" using heap_ok_3_block(1) [OF hok1 b(4)] by auto
    have "m \<le> i" using n(2) i(1) by simp
    from memmove_3_ok [OF hok1 b(2) this b(4) order_refl] b(1,3) obtain s2 where
      s2: "memmove META_3 q p m s1 = Inr s2" "heap_ok_3 E s2 (blocks_3 s1)"
      "\<forall>x. data s2 x = (if q \<le> x \<and> x < q + m then data s1 (p + (x - q)) else data s1 x)" by auto
    have ok2: "ok_3 E pin k s2 \<and> blocks_3 s2 = blocks_3 s1"
      using s1(2) by (intro ok_3I s2(2)) (simp_all add: ok_3_def)
    then have live2: "live_3 pin s2 = live_3 pin s1" by (simp add: live_3_def)
    obtain s3 where s3: "sfree_3 E p s2 = Inr s3" "ok_3 E pin k s3" "live_3 pin s3 = insert (q, i) (live_3 pin s - {(p, m)})"
      "disjoint_from (live_3 pin s - {(p, m)}) q i" "\<forall>x < m. data s3 (q + x) = data s (p + x)"
      "same_bytes (live_3 pin s - {(p, m)}) (data s) (data s3)"
      using m3.move_block [OF ok p s1(3) i(3,4) \<open>m \<le> i\<close> conjunct1 [OF ok2] live2 s2(3)] by blast
    have run: "realloc_elsewhere E p n s = Inr (q, s3)"
      using s1(1) False md s2(1) s3(1) by (simp add: realloc_elsewhere_def move_old_def)
    have "resized pin p m n q s s3" using False s3 i(1) by (auto simp: resized_def)
    with run s3(2) show ?thesis by blast
  qed
qed

lemma srealloc_larger:
  assumes ok: "ok_3 E pin k s" and p: "(a + META_3, m) \<in> live_3 pin s" and n: "request_ok k n" "m < n"
    and bs: "blocks_3 s = us @ (a, m, False) # vs" and pin: "a \<noteq> pin" and pr: "us = [] \<or> \<not> snd (snd (last us))"
  shows "\<exists>q s'. srealloc_3 E (a + META_3) n s = Inr (q, s') \<and> ok_3 E pin k s' \<and> resized pin (a + META_3) m n q s s'"
proof -
  have hok: "heap_ok_3 E s (us @ (a, m, False) # vs)" and small: "in_use_small (us @ (a, m, False) # vs)"
    and fu: "fuel E \<le> 2 ^ 31" using ok bs by (simp_all add: ok_3_def sane_def)
  have n': "0 < n" "n \<le> SIZE_LIMIT" "m < MMAP_THRESHOLD"
    using n small by (auto simp: request_ok_def SIZE_LIMIT_def MMAP_THRESHOLD_def in_use_small_def)
  note run = srealloc_3_cases [OF hok pr n'(1,2) n(2) n'(3) fu]
  have elsewhere: "\<exists>q s'. realloc_elsewhere E (a + META_3) n s = Inr (q, s') \<and> ok_3 E pin k s' \<and>
      resized pin (a + META_3) m n q s s'"
    using realloc_elsewhere_ok [OF ok p n(1)] n(2) by simp
  show ?thesis
  proof (cases vs)
    case Nil
    with run realloc_wild_ok [OF ok _ pin n] bs show ?thesis by auto
  next
    case (Cons v ws)
    obtain b l g where v: "v = (b, l, g)" by (cases v)
    consider "g" "n \<le> m + l + META_3" | "g" "\<not> n \<le> m + l + META_3" "ws = []" | "\<not> g \<or> \<not> n \<le> m + l + META_3 \<and> ws \<noteq> []"
      by blast
    then show ?thesis
    proof cases
      case 1
      with realloc_next_ok [OF ok _ pin n(1) _ pr, of m b l ws] bs Cons v run show ?thesis by simp
    next
      case 2
      with realloc_next_wild_ok [OF ok _ pin n(1) _ pr, of m b l] bs Cons v run show ?thesis by simp
    next
      case 3
      with elsewhere run Cons v show ?thesis by auto
    qed
  qed
qed

text \<open>
  C14: on an anchored heap, \<open>srealloc\<close> of a live block whose address-order predecessor is not
  free, to a size in range, never faults and keeps the first bytes of the block, up to the
  smaller size, in the block it returns; the other live blocks keep their bytes and stay apart
  from it. When it returns null, the block and all other live blocks keep their bytes.
\<close>

theorem srealloc_3_preserves:
  assumes ok: "ok_3 E pin k s" and p: "(p, m) \<in> live_3 pin s" and n: "request_ok k n"
    and prev: "\<And>us c j vs. blocks_3 s \<noteq> us @ (c, j, True) # (p - META_3, m, False) # vs"
  shows "\<exists>q s'. srealloc_3 E p n s = Inr (q, s') \<and> ok_3 E pin k s' \<and> resized pin p m n q s s'"
proof -
  define a where "a = p - META_3"
  from p have pa: "p = a + META_3" "(a, m, False) \<in> set (blocks_3 s)" "a \<noteq> pin"
    by (auto simp: live_3_alt live_of_iff a_def)
  from pa(2) obtain us vs where bs: "blocks_3 s = us @ (a, m, False) # vs" by (meson split_list)
  have pr: "us = [] \<or> \<not> snd (snd (last us))"
  proof (cases us rule: rev_cases)
    case (snoc zs z)
    with prev [of zs "fst z" "fst (snd z)" vs] bs pa(1) show ?thesis by (cases z) auto
  qed simp
  have sane: "sane E" and hok: "heap_ok_3 E s (us @ (a, m, False) # vs)" and keep: "anchored pin k (us @ (a, m, False) # vs)"
    "in_use_small (us @ (a, m, False) # vs)" using ok bs by (simp_all add: ok_3_def)
  have n': "0 < n" "n \<le> SIZE_LIMIT" "m < MMAP_THRESHOLD"
    using n keep(2) by (auto simp: request_ok_def SIZE_LIMIT_def MMAP_THRESHOLD_def in_use_small_def)
  show ?thesis
  proof (cases "n \<le> m")
    case True
    obtain md where md: "mds s a = Some md" "msize md = m" using heap_ok_3_block(1) [OF hok, of a m False] by auto
    have "cookie_ok E s a" using heap_ok_3_block(2) [OF hok, of a m False] by simp
    with md True n' have run: "srealloc_3 E p n s = rbind (split_3 E a n s) (\<lambda>s. Inr (p, s))"
      by (simp add: srealloc_3_def pa(1))
    from realloc_shrinks [OF ok bs pa(3) n sane hok True refl refl keep refl] run pa(1) show ?thesis by auto
  next
    case False
    with srealloc_larger [OF ok _ n _ bs pa(3) pr] p pa(1) show ?thesis by simp
  qed
qed

definition demo_heap_3 :: heap_3 where
  "demo_heap_3 = (case smalloc_3 demo_env 1000 (started_3 demo_env 1000 60) of Inr (p, s) \<Rightarrow> s | Inl e \<Rightarrow> empty_heap_3 0)"

lemma demo_heap_3_ok: "ok_3 demo_env 1000 60 demo_heap_3" "blocks_3 demo_heap_3 = [(1000, 60, False), (1100, 1000, False)]"
proof -
  have "ok_3 demo_env 1000 60 (started_3 demo_env 1000 60)" by (rule demo_started)
  from smalloc_3_ok [OF this, of 1000] show "ok_3 demo_env 1000 60 demo_heap_3"
    by (auto simp: demo_heap_3_def request_ok_def META_3_def SPLIT_THRESHOLD_def MMAP_THRESHOLD_def)
  show "blocks_3 demo_heap_3 = [(1000, 60, False), (1100, 1000, False)]"
    by (simp add: demo_heap_3_def started_3_def eval_3)
qed

theorem srealloc_3_preserves_witness:
  "\<exists>q s'. srealloc_3 demo_env 1140 1500 demo_heap_3 = Inr (q, s') \<and> ok_3 demo_env 1000 60 s' \<and>
     resized 1000 1140 1000 1500 q demo_heap_3 s'"
proof (rule srealloc_3_preserves [OF demo_heap_3_ok(1)])
  show "(1140, 1000) \<in> live_3 1000 demo_heap_3" by (simp add: live_3_def demo_heap_3_ok META_3_def)
  show "request_ok 60 1500" by (simp add: request_ok_def META_3_def SPLIT_THRESHOLD_def MMAP_THRESHOLD_def)
  show "blocks_3 demo_heap_3 \<noteq> us @ (c, j, True) # (1140 - META_3, 1000, False) # vs" for us c j vs
    by (auto simp: demo_heap_3_ok META_3_def Cons_eq_append_conv)
qed

end
