(* ===== verification/Alloc3.thy ===== *)
theory Alloc3
  imports Realloc3
begin

text \<open>
  The properties of \<^verbatim>\<open>malloc_3.cpp\<close>: runs of requests refine best-fit allocation with
  coalescing, live blocks stay apart, \<open>srealloc\<close> in place keeps the bytes, corrupted headers
  end the program; and what happens outside the conditions of these theorems.
\<close>

section \<open>Runs of requests\<close>

inductive run_3 :: "grants \<Rightarrow> request list \<Rightarrow> nat \<Rightarrow> block list \<Rightarrow> nat \<Rightarrow> block list \<Rightarrow> bool" for g where
  done_3: "run_3 g [] b bs b bs"
| malloc_3: "alloc_3 g n b bs p b1 bs1 \<Longrightarrow> run_3 g rs b1 bs1 b' bs' \<Longrightarrow> run_3 g (Malloc n # rs) b bs b' bs'"
| free_null_3: "run_3 g rs b bs b' bs' \<Longrightarrow> run_3 g (Free NULL # rs) b bs b' bs'"
| free_3: "run_3 g rs b (coalesce (us @ (a, n, True) # vs)) b' bs' \<Longrightarrow>
    run_3 g (Free (a + META_3) # rs) b (us @ (a, n, False) # vs) b' bs'"

definition demo_requests_3 :: "request list" where
  "demo_requests_3 = [Malloc 1000, Malloc 500, Free 1140, Malloc 600, Free 2180]"

lemma demo_honest_3:
  "honest (smalloc_3 demo_env) (sfree_3 demo_env) (live_3 1000) demo_requests_3 (started_3 demo_env 1000 60)"
  by (simp add: demo_requests_3_def started_3_def eval_3)

text \<open>
  C2: on an anchored heap, every honest sequence of \<open>smalloc\<close> and \<open>sfree\<close> requests in range,
  none of which frees the anchor, ends without a fault; the blocks it ends with are those of
  best-fit allocation with splitting, wilderness growth and coalescing, no two free blocks are
  neighbours, and the statistics report the blocks.
\<close>

theorem malloc_3_simulates:
  assumes "ok_3 E pin k s" and "honest (smalloc_3 E) (sfree_3 E) (live_3 pin) rs s"
    and "\<forall>n. Malloc n \<in> set rs \<longrightarrow> request_ok k n" and "settled (blocks_3 s)"
  shows "\<exists>s'. run_requests (smalloc_3 E) (sfree_3 E) rs s = Inr s' \<and> ok_3 E pin k s' \<and>
    run_3 (grant E) rs (brk s) (blocks_3 s) (brk s') (blocks_3 s') \<and> settled (blocks_3 s') \<and>
    num_free_blocks_3 s' = of_nat (length (free_of (blocks_3 s'))) \<and>
    num_free_bytes_3 s' = of_nat (bytes_of (free_of (blocks_3 s'))) \<and>
    num_allocated_blocks_3 s' = of_nat (length (blocks_3 s')) \<and>
    num_allocated_bytes_3 s' = of_nat (bytes_of (blocks_3 s')) \<and>
    num_meta_data_bytes_3 s' = size_meta_data_3 * of_nat (length (blocks_3 s'))"
  using assms
proof (induction rs arbitrary: s)
  case Nil
  then show ?case
    by (simp add: ok_3_def heap_ok_3_def layout_3_def counters_def done_3 num_free_blocks_3_def num_free_bytes_3_def
        num_allocated_blocks_3_def num_allocated_bytes_3_def num_meta_data_bytes_3_def size_meta_data_3_def)
next
  case (Cons r rs)
  show ?case
  proof (cases r)
    case (Malloc n)
    with Cons.prems smalloc_3_ok [OF Cons.prems(1), of n] obtain p s1 where s1: "smalloc_3 E n s = Inr (p, s1)"
      "alloc_3 (grant E) n (brk s) (blocks_3 s) p (brk s1) (blocks_3 s1)" "ok_3 E pin k s1" by auto
    have "settled (blocks_3 s1)"
      using alloc_3_keeps(3) [OF s1(2), of k pin] Cons.prems Malloc by (auto simp: ok_3_def)
    with s1 Cons.IH [of s1] Cons.prems Malloc malloc_3 [OF s1(2)] show ?thesis by auto
  next
    case (Free p)
    show ?thesis
    proof (cases "p = NULL")
      case True
      with Cons.IH [of s] Cons.prems Free free_null_3 show ?thesis by (auto simp: sfree_3_def)
    next
      case False
      with Cons.prems Free obtain m where "(p, m) \<in> live_3 pin s" by auto
      from sfree_3_ok' [OF Cons.prems(1) this] obtain us vs s1 where s1: "sfree_3 E p s = Inr s1"
        "blocks_3 s = us @ (p - META_3, m, False) # vs" "META_3 \<le> p"
        "blocks_3 s1 = coalesce (us @ (p - META_3, m, True) # vs)" "ok_3 E pin k s1" "kept s s1" by blast
      have "run_3 (grant E) (Free p # rs) (brk s) (blocks_3 s) b' bs'"
        if "run_3 (grant E) rs (brk s1) (blocks_3 s1) b' bs'" for b' bs'
        using that free_3 [of "grant E" rs "brk s" us "p - META_3" m vs b' bs'] s1 by (simp add: kept_def)
      with Cons.IH [of s1] Cons.prems Free s1 settled_coalesce show ?thesis by auto
    qed
  qed
qed

theorem malloc_3_simulates_witness:
  "\<exists>s'. run_requests (smalloc_3 demo_env) (sfree_3 demo_env) demo_requests_3 (started_3 demo_env 1000 60) = Inr s' \<and>
     settled (blocks_3 s')"
  using malloc_3_simulates [OF demo_started(1) demo_honest_3] demo_started(2)
  by (auto simp: demo_requests_3_def request_ok_def META_3_def SPLIT_THRESHOLD_def MMAP_THRESHOLD_def)

text \<open>
  C13: a client whose first allocation is small and kept, whose later requests are rounded up
  to its size and below the threshold for \<open>mmap\<close>, and that frees only live blocks, is served
  without a fault, and no two live blocks share a byte.
\<close>

theorem malloc_3_separate:
  assumes "sane E" and "0 < k" "k \<le> SPLIT_THRESHOLD" and "0 < b" and "grant E b (k + META_3)"
    and "honest (\<lambda>n. smalloc_3 E (round_3 k n)) (sfree_3 E) (live_3 b) rs (started_3 E b k)"
  shows "\<exists>s'. run_requests (\<lambda>n. smalloc_3 E (round_3 k n)) (sfree_3 E) rs (started_3 E b k) = Inr s' \<and>
    separate (live_3 b s')"
  using m3.run_separate [OF started_3_ok(1) [OF assms(1-5)] _ assms(6)] started_3_ok(4) [OF assms(1-5)]
  by (auto simp: separate_def)

theorem malloc_3_separate_witness:
  "\<exists>s'. run_requests (\<lambda>n. smalloc_3 demo_env (round_3 60 n)) (sfree_3 demo_env) demo_requests_3
      (started_3 demo_env 1000 60) = Inr s' \<and> separate (live_3 1000 s')"
proof (rule malloc_3_separate [OF demo_sane])
  show "honest (\<lambda>n. smalloc_3 demo_env (round_3 60 n)) (sfree_3 demo_env) (live_3 1000) demo_requests_3
      (started_3 demo_env 1000 60)"
    by (simp add: demo_requests_3_def started_3_def eval_3 round_3_def request_ok_def)
qed (simp_all add: demo_env_def SPLIT_THRESHOLD_def META_3_def)

section \<open>Outside the conditions\<close>

text \<open>
  \<open>HeapListInsert\<close> of a block smaller than all blocks of the list (at least two) drops every
  block of the list but the last.
\<close>

theorem insert_smallest_drops:
  assumes "heap_list E s xs" and "new \<notin> set xs" "cookie_ok E s new" "new \<noteq> NULL" and "length xs \<le> fuel E"
    and "xs \<noteq> []" and "\<forall>x \<in> set xs. size_at s new < size_at s x"
  shows "\<exists>s'. HeapListInsert E new s = Inr s' \<and> heap_list E s' [new, last xs]"
  using HeapListInsert_ok [OF assms(1-5)] insert_at_smallest [of xs "size_at s" new "[]"] assms(6,7) by auto

text \<open>A list of two blocks of 50 and 60 bytes, and a new block of 40 bytes.\<close>

definition two_blocks_3 :: heap_3 where
  "two_blocks_3 = (empty_heap_3 1000)\<lparr>head := 1000, mds := [
     1000 \<mapsto> \<lparr>msize = 50, is_free = False, nxt = 1100, prv = NULL, cookie = 42\<rparr>,
     1100 \<mapsto> \<lparr>msize = 60, is_free = False, nxt = NULL, prv = 1000, cookie = 42\<rparr>,
     1300 \<mapsto> \<lparr>msize = 40, is_free = False, nxt = NULL, prv = NULL, cookie = 42\<rparr>]\<rparr>"

lemma two_blocks_3_list: "heap_list demo_env two_blocks_3 [1000, 1100]"
  "cookie_ok demo_env two_blocks_3 1300" "size_at two_blocks_3 1300 = 40"
  "size_at two_blocks_3 1000 = 50" "size_at two_blocks_3 1100 = 60"
  by (simp_all add: two_blocks_3_def heap_list_def cookie_ok_def links_def size_at_def demo_env_def)

theorem insert_smallest_drops_witness:
  "\<exists>s'. HeapListInsert demo_env 1300 two_blocks_3 = Inr s' \<and> heap_list demo_env s' [1300, 1100]"
  using insert_smallest_drops [OF two_blocks_3_list(1) _ two_blocks_3_list(2)]
  by (simp add: two_blocks_3_list demo_env_def)

text \<open>
  Three allocations of 1000, 2000 and 500 bytes, of which the first two are then freed,
  make \<open>sfree\<close> dereference a null pointer: the first block has been dropped from the list.
\<close>

theorem free_dropped_block_crashes:
  "run_requests (smalloc_3 demo_env) (sfree_3 demo_env) [Malloc 1000, Malloc 2000, Malloc 500, Free 1040, Free 2080]
     (empty_heap_3 1000) = Inl Segv"
  by (simp add: eval_3)

text \<open>
  A block that \<open>srealloc\<close> enlarges in place to 200000 bytes is taken by \<open>sfree\<close> for a mapped
  one, and unlinking it dereferences its null previous pointer.
\<close>

theorem free_enlarged_block_crashes:
  "rbind (smalloc_3 demo_env 1000 (empty_heap_3 1000)) (\<lambda>(p, s).
     rbind (srealloc_3 demo_env p 200000 s) (\<lambda>(q, s). sfree_3 demo_env q s)) = Inl Segv"
  by (simp add: eval_3 srealloc_3_def neighbours_def realloc_wild_def enlarge_def grow_wilderness_def mm_unlink_def)

text \<open>
  When \<open>srealloc\<close> merges a block with the free block before it and splits the result, the
  new header is written before the bytes are moved: byte 460 of the old block is lost.
\<close>

theorem realloc_previous_corrupts:
  "(case rbind (smalloc_3 demo_env 1000 (empty_heap_3 1000)) (\<lambda>(p1, s).
      rbind (smalloc_3 demo_env 1000 s) (\<lambda>(p2, s).
      rbind (smalloc_3 demo_env 1000 s) (\<lambda>(p3, s).
      rbind (sfree_3 demo_env p1 (s\<lparr>data := (data s)(p2 + 460 \<mapsto> 7)\<rparr>)) (\<lambda>s.
      rbind (srealloc_3 demo_env p2 1500 s) (\<lambda>(q, s'). Inr (data s (p2 + 460), data s' (q + 460))))))) of
    Inl e \<Rightarrow> False | Inr (before, after) \<Rightarrow> before = Some 7 \<and> after = None)"
  by (simp add: eval_3 srealloc_3_def neighbours_def find_prev.simps realloc_prev_def mark_free_def masked_merge_def
      move_old_def memmove_def)

section \<open>Corrupted headers\<close>

text \<open>
  C26: when the cookie in front of a block is not the program's, \<open>sfree\<close> and \<open>srealloc\<close> of this
  block end the program with the status 0xdeadbeef and touch nothing.
\<close>

theorem corrupted_header_exits:
  assumes "mds s p = Some m" and "cookie m \<noteq> MAIN_COOKIE E" and "p \<noteq> NULL" and "0 < n" "n \<le> SIZE_LIMIT"
  shows "sfree_3 E (p + META_3) s = Inl (Exit (0xdeadbeef - 2 ^ 32)) \<and>
    srealloc_3 E (p + META_3) n s = Inl (Exit (0xdeadbeef - 2 ^ 32))"
  using assms by (simp_all add: sfree_3_def srealloc_3_def validateCookie_def DEADBEEF_def c_int_def)

theorem corrupted_header_exits_witness:
  "sfree_3 demo_env (1000 + META_3) (two_blocks_3\<lparr>mds := [1000 \<mapsto> split_header (demo_env\<lparr>MAIN_COOKIE := 1\<rparr>) 8]\<rparr>) =
     Inl (Exit (0xdeadbeef - 2 ^ 32))"
  by (rule conjunct1 [OF corrupted_header_exits [of _ _ "split_header (demo_env\<lparr>MAIN_COOKIE := 1\<rparr>) 8" _ 1]])
    (simp_all add: split_header_def demo_env_def SIZE_LIMIT_def)

section \<open>The memory list\<close>

text \<open>
  A block that is not smaller than the head of the list enters it at a place that keeps the
  list sorted by size; removing it again gives the list before; no size, flag or cookie changes.
\<close>

theorem list_insert_remove:
  assumes l: "sorted_list E s xs" and new: "new \<notin> set xs" "cookie_ok E s new" "new \<noteq> NULL" and n: "length xs \<le> fuel E"
    and hd: "xs \<noteq> []" "size_at s (hd xs) \<le> size_at s new"
  shows "\<exists>s' ys s'' zs. HeapListInsert E new s = Inr s' \<and> sorted_list E s' ys \<and> mset ys = mset (new # xs) \<and>
    HeapListRemove E new s' = Inr s'' \<and> sorted_list E s'' zs \<and> mset zs = mset xs \<and> body (mds s'') = body (mds s)"
proof -
  from sorted_list_insert [OF l new n hd_in_set [OF hd(1)] hd(2)] obtain s' ys where
    s': "HeapListInsert E new s = Inr s'" "relinked s s'" "sorted_list E s' ys" "mset ys = mset (new # xs)" by blast
  then have "new \<in> set ys" by (metis list.set_intros(1) set_mset_mset)
  from sorted_list_remove [OF s'(3) this] s' show ?thesis by (fastforce simp: relinked_def)
qed

theorem list_insert_remove_witness:
  "\<exists>s' ys. HeapListInsert demo_env 1100 (two_blocks_3\<lparr>mds := (mds two_blocks_3)(1000 \<mapsto>
       \<lparr>msize = 50, is_free = False, nxt = NULL, prv = NULL, cookie = 42\<rparr>)\<rparr>) = Inr s' \<and> sorted_list demo_env s' ys \<and>
     mset ys = {#1100, 1000#}"
proof -
  let ?s = "two_blocks_3\<lparr>mds := (mds two_blocks_3)(1000 \<mapsto> \<lparr>msize = 50, is_free = False, nxt = NULL, prv = NULL, cookie = 42\<rparr>)\<rparr>"
  have "sorted_list demo_env ?s [1000]" "cookie_ok demo_env ?s 1100" "size_at ?s 1000 = 50" "size_at ?s 1100 = 60"
    by (simp_all add: two_blocks_3_def sorted_list_def heap_list_def cookie_ok_def links_def size_at_def demo_env_def)
  moreover have "1 \<le> fuel demo_env" by (simp add: demo_env_def)
  ultimately show ?thesis using list_insert_remove [of demo_env ?s "[1000]" 1100] by fastforce
qed

section \<open>Mapped blocks\<close>

definition mm_list :: "env \<Rightarrow> heap_3 \<Rightarrow> ptr list \<Rightarrow> bool" where
  "mm_list E s ms \<longleftrightarrow> dll (links (mds s)) NULL ms NULL \<and> mmhead s = hd_or ms NULL \<and> distinct ms \<and>
     NULL \<notin> set ms \<and> (\<forall>x \<in> set ms. cookie_ok E s x)"

lemma mm_list_node:
  assumes "mm_list E s (us @ p # vs)"
  shows "\<exists>m. mds s p = Some m \<and> nxt m = hd_or vs NULL \<and> prv m = last_or NULL us \<and> cookie m = MAIN_COOKIE E"
  using assms dll_split [of "links (mds s)" NULL us p vs NULL]
  by (auto simp: mm_list_def cookie_ok_def links_def)

lemma mm_last_ok:
  "mm_list E s (us @ p # vs) \<Longrightarrow> length vs < n \<Longrightarrow> mm_last n E p s = Inr (last (p # vs))"
proof (induction vs arbitrary: us p n)
  case Nil
  then show ?case using mm_list_node [OF Nil(1)] by (subst mm_last.simps) auto
next
  case (Cons y vs)
  obtain m where m: "mds s p = Some m" "nxt m = y" using mm_list_node [OF Cons.prems(1)] by auto
  have "cookie_ok E s p" "y \<noteq> NULL" using Cons.prems(1) by (auto simp: mm_list_def)
  moreover have "mm_last (n - 1) E y s = Inr (last (y # vs))"
    using Cons.prems by (intro Cons.IH [of "us @ [p]"]) auto
  ultimately show ?case using m Cons.prems(2) by (subst mm_last.simps) simp
qed

lemma mm_listI:
  assumes "dll (links (mds s)) NULL ms NULL" "mmhead s = hd_or ms NULL" "distinct ms" "NULL \<notin> set ms"
    and "\<And>x. x \<in> set ms \<Longrightarrow> \<exists>m. mds s x = Some m \<and> cookie m = MAIN_COOKIE E"
  shows "mm_list E s ms"
  using assms by (auto simp: mm_list_def cookie_ok_def)

text \<open>Unlinking a mapped block.\<close>

lemma mm_unlink_ok:
  assumes l: "mm_list E s (us @ x # vs)"
  shows "\<exists>s'. mm_unlink E x s = Inr s' \<and> mm_list E s' (us @ vs) \<and> body (mds s') = body (mds s) \<and>
    s' = s\<lparr>mds := mds s', mmhead := mmhead s'\<rparr> \<and> mds s' x = mds s x"
proof -
  obtain xm where xm: "mds s x = Some xm" "nxt xm = hd_or vs NULL" "prv xm = last_or NULL us"
    using mm_list_node [OF l] by auto
  have d: "distinct (us @ x # vs)" "NULL \<notin> set (us @ x # vs)" "dll (links (mds s)) NULL (us @ x # vs) NULL"
    and ck: "\<And>y. y \<in> set (us @ x # vs) \<Longrightarrow> cookie_ok E s y" and mh: "mmhead s = hd_or us x"
    using l by (auto simp: mm_list_def)
  show ?thesis
  proof (cases us rule: rev_cases)
    case Nil
    show ?thesis
    proof (cases vs)
      case Nv: Nil
      have "mm_unlink E x s = Inr (s\<lparr>mmhead := NULL\<rparr>)" using xm mh Nil Nv by (simp add: mm_unlink_def)
      then show ?thesis using Nil Nv by (auto simp: mm_list_def)
    next
      case (Cons y ws)
      obtain ym where ym: "mds s y = Some ym" "nxt ym = hd_or ws NULL" "prv ym = x" "cookie ym = MAIN_COOKIE E"
        using mm_list_node [of E s "[x]" y ws] l Cons Nil by auto
      have cy: "cookie_ok E s y" using ck Cons by simp
      let ?s = "s\<lparr>mmhead := y, mds := (mds s)(y \<mapsto> ym\<lparr>prv := NULL\<rparr>)\<rparr>"
      have "cookie_ok E (s\<lparr>mmhead := y\<rparr>) y" using cy by (simp add: cookie_ok_def)
      then have "mm_unlink E x s = Inr ?s"
        using xm mh ym Nil Cons d by (simp add: mm_unlink_def list_3)
      moreover have "mm_list E ?s (y # ws)"
        using d ym ck Cons Nil by (intro mm_listI) (auto simp: dll_simps cookie_ok_def)
      moreover have "body (mds ?s) = body (mds s)" "mds ?s x = mds s x"
        using ym d Cons by (auto simp: body_upd body_same)
      ultimately show ?thesis using Nil Cons by (intro exI [of _ ?s]) simp
    qed
  next
    case (snoc ws w)
    obtain wm where wm: "mds s w = Some wm" "nxt wm = x" "prv wm = last_or NULL ws" "cookie wm = MAIN_COOKIE E"
      using mm_list_node [of E s ws w "x # vs"] l snoc by auto
    have h: "x \<noteq> mmhead s" using mh d snoc by (cases ws) auto
    have cw: "cookie_ok E s w" using ck snoc by simp
    show ?thesis
    proof (cases vs)
      case Nil
      let ?s = "s\<lparr>mds := (mds s)(w \<mapsto> wm\<lparr>nxt := NULL\<rparr>)\<rparr>"
      have "cookie_ok E ?s w" using cw wm by (simp add: cookie_ok_def)
      then have "mm_unlink E x s = Inr ?s" using xm wm h Nil snoc by (simp add: mm_unlink_def list_3)
      moreover have "mm_list E ?s (ws @ [w])"
        using d wm ck mh Nil snoc by (intro mm_listI) (auto simp: dll_simps cookie_ok_def)
      moreover have "body (mds ?s) = body (mds s)" "mds ?s x = mds s x"
        using wm d snoc by (auto simp: body_upd body_same)
      ultimately show ?thesis using Nil snoc by (intro exI [of _ ?s]) simp
    next
      case (Cons y zs)
      obtain ym where ym: "mds s y = Some ym" "nxt ym = hd_or zs NULL" "prv ym = x" "cookie ym = MAIN_COOKIE E"
        using mm_list_node [of E s "us @ [x]" y zs] l Cons by auto
      have n: "w \<noteq> y" "y \<noteq> w" "y \<noteq> NULL" using d snoc Cons by auto
      let ?t = "s\<lparr>mds := (mds s)(w \<mapsto> wm\<lparr>nxt := y\<rparr>)\<rparr>"
      let ?s = "s\<lparr>mds := (mds s)(w \<mapsto> wm\<lparr>nxt := y\<rparr>, y \<mapsto> ym\<lparr>prv := w\<rparr>)\<rparr>"
      have "cookie_ok E ?t w" using cw wm by (simp add: cookie_ok_def)
      then have "mm_unlink E x s = Inr ?s" using xm wm ym h n Cons snoc by (simp add: mm_unlink_def list_3)
      moreover have "mm_list E ?s (ws @ w # y # zs)"
        using d wm ym n ck mh Cons snoc by (intro mm_listI) (auto simp: dll_simps cookie_ok_def)
      moreover have "body (mds ?s) = body (mds s)" "mds ?s x = mds s x"
        using wm ym n d snoc Cons by (auto simp: body_upd body_same fun_upd_idem_iff body_def)
      ultimately show ?thesis using Cons snoc by (intro exI [of _ ?s]) simp
    qed
  qed
qed

text \<open>A large request: a fresh mapping at the end of the list.\<close>

lemma smalloc_mmap_ok:
  assumes l: "mm_list E s ms" and n: "MMAP_THRESHOLD \<le> n" "n \<le> SIZE_LIMIT" and len: "length ms \<le> fuel E"
    and a: "mm E (n + META_3) = Some a" "a \<noteq> NULL" and apart: "\<forall>x \<in> set ms. \<not> overlaps a META_3 x META_3"
  shows "\<exists>s'. smalloc_3 E n s = Inr (a + META_3, s') \<and> mm_list E s' (ms @ [a]) \<and> size_at s' a = n \<and>
    regions s' = (a, n + META_3) # regions s \<and> (\<forall>x \<in> set ms. body (mds s') x = body (mds s) x) \<and>
    num_allocated_blocks s' = num_allocated_blocks s + 1 \<and> num_allocated_bytes s' = num_allocated_bytes s + of_nat n \<and>
    num_meta_data_bytes s' = num_meta_data_bytes s + of_nat META_3"
proof -
  have add: "sz_add n META_3 = n + META_3" using n by (simp add: sz_add_exact SIZE_LIMIT_def META_3_def)
  define s1 where "s1 = s\<lparr>regions := (a, n + META_3) # regions s,
      data := (\<lambda>x. if a \<le> x \<and> x < a + (n + META_3) then Some 0 else data s x)\<rparr>"
  have s1: "mmap (mm E) (n + META_3) s = (Some a, s1)" using a by (simp add: mmap_def s1_def)
  define s2 where "s2 = s1\<lparr>mds := (\<lambda>q. if q = a then Some (fresh_header E n) else if overlaps a META_3 q META_3 then None else mds s q),
      data := (\<lambda>x. if a \<le> x \<and> x < a + META_3 then None else data s1 x)\<rparr>"
  have "in_mem s1 a META_3" by (simp add: in_mem_def s1_def)
  then have s2: "store_md META_3 a (fresh_header E n) s1 = Inr s2"
    by (simp add: store_md_def s2_def) (simp add: s1_def cong: if_cong)
  define s3 where "s3 = newAllocAdjustment_3 n s2"
  have ax: "a \<notin> set ms" using apart by (auto simp: overlaps_def)
  have m3: "mds s3 a = Some (fresh_header E n)" "\<And>x. x \<in> set ms \<Longrightarrow> mds s3 x = mds s x"
    using apart ax by (auto simp: s3_def s2_def)
  have f3: "mmhead s3 = mmhead s" "regions s3 = (a, n + META_3) # regions s"
    "num_allocated_blocks s3 = num_allocated_blocks s + 1" "num_allocated_bytes s3 = num_allocated_bytes s + of_nat n"
    "num_meta_data_bytes s3 = num_meta_data_bytes s + of_nat META_3"
    by (simp_all add: s3_def s2_def s1_def)
  have l3: "dll (links (mds s3)) NULL ms NULL"
    using l m3(2) dll_cong [of ms "links (mds s3)" "links (mds s)"] by (auto simp: mm_list_def links_def)
  have n0: "n \<noteq> 0" using n by (auto simp: MMAP_THRESHOLD_def)
  show ?thesis
  proof (cases ms rule: rev_cases)
    case Nil
    let ?s = "s3\<lparr>mmhead := a\<rparr>"
    have "cookie_ok E ?s a" using m3 by (simp add: cookie_ok_def fresh_header_def)
    moreover have "mmhead s = NULL" using l Nil by (simp add: mm_list_def)
    ultimately have "smalloc_3 E n s = Inr (a + META_3, ?s)"
      using n n0 s1 s2 add f3 by (simp add: smalloc_3_def smalloc_mmap_def fresh_header_def s3_def)
    moreover have "mm_list E ?s [a]"
      using m3 a by (intro mm_listI) (auto simp: links_def fresh_header_def)
    ultimately show ?thesis using Nil m3 f3 by (auto simp: size_at_def fresh_header_def)
  next
    case (snoc us w)
    obtain wm where wm: "mds s w = Some wm" "nxt wm = NULL" "prv wm = last_or NULL us" "cookie wm = MAIN_COOKIE E"
      using mm_list_node [of E s us w "[]"] l snoc by auto
    have l3': "mm_list E s3 ms"
      using l l3 m3(2) f3(1) by (auto simp: mm_list_def cookie_ok_def)
    have last: "mm_last (fuel E) E (mmhead s) s3 = Inr w"
    proof (cases ms)
      case (Cons y zs)
      have "mmhead s = y" using l Cons by (simp add: mm_list_def)
      moreover have "last (y # zs) = w" using Cons snoc by (metis last_snoc)
      moreover have "mm_last (fuel E) E y s3 = Inr (last (y # zs))"
        using mm_last_ok [of E s3 "[]" y zs "fuel E"] l3' Cons len by simp
      ultimately show ?thesis by simp
    qed (simp add: snoc)
    have wn: "w \<noteq> a" "mmhead s \<noteq> NULL" using ax l snoc by (cases us; auto simp: mm_list_def)+
    let ?s = "s3\<lparr>mds := (mds s3)(w \<mapsto> wm\<lparr>nxt := a\<rparr>, a \<mapsto> (fresh_header E n)\<lparr>prv := w\<rparr>)\<rparr>"
    have w3: "mds s3 w = Some wm" using m3(2) wm snoc by simp
    have "rbind (set_nxt w a s3) (set_prv a w) = Inr ?s"
      using wn m3(1) w3 by (simp add: list_3)
    then have "rbind (set_nxt w a s3) (\<lambda>s. rbind (set_prv a w s) (\<lambda>s. Inr (a + META_3, s))) = Inr (a + META_3, ?s)"
      by (simp add: rbind_assoc [symmetric])
    moreover have "mmhead s2 = mmhead s" by (simp add: s2_def s1_def)
    ultimately have "smalloc_3 E n s = Inr (a + META_3, ?s)"
      using n n0 s1 s2 add f3 wn last
      by (simp add: smalloc_3_def smalloc_mmap_def s3_def [symmetric] flip: fresh_header_def)
    moreover have "mm_list E ?s (ms @ [a])"
    proof (intro mm_listI)
      show "dll (links (mds ?s)) NULL (ms @ [a]) NULL"
        using l3 l wm snoc ax wn by (auto simp: dll_simps mm_list_def fresh_header_def)
      show "\<exists>m. mds ?s x = Some m \<and> cookie m = MAIN_COOKIE E" if "x \<in> set (ms @ [a])" for x
        using that l3' wm by (auto simp: mm_list_def cookie_ok_def fresh_header_def)
    qed (use l ax a f3 snoc in \<open>auto simp: mm_list_def\<close>)
    moreover have "body (mds ?s) x = body (mds s) x" if "x \<in> set ms" for x
      using that m3(2) [OF that] wm ax by (auto simp: body_upd) (auto simp: body_def)
    ultimately show ?thesis using f3 by (auto simp: size_at_def fresh_header_def)
  qed
qed

text \<open>Freeing a mapped block.\<close>

lemma sfree_mapped_ok:
  assumes l: "mm_list E s (us @ x # vs)" and n: "size_at s x = n" "MMAP_THRESHOLD \<le> n" "n \<le> SIZE_LIMIT"
    and r: "(x, n + META_3) \<in> set (regions s)"
    and apart: "\<forall>y \<in> set (us @ vs). \<not> overlaps x (n + META_3) y META_3"
  shows "\<exists>s'. sfree_3 E (x + META_3) s = Inr s' \<and> mm_list E s' (us @ vs) \<and>
    regions s' = remove1 (x, n + META_3) (regions s) \<and> (\<forall>y \<in> set (us @ vs). body (mds s') y = body (mds s) y) \<and>
    num_allocated_blocks s' = num_allocated_blocks s - 1 \<and> num_allocated_bytes s' = num_allocated_bytes s - of_nat n \<and>
    num_meta_data_bytes s' = num_meta_data_bytes s - of_nat META_3"
proof -
  obtain s1 where s1: "mm_unlink E x s = Inr s1" "mm_list E s1 (us @ vs)" "body (mds s1) = body (mds s)"
    "s1 = s\<lparr>mds := mds s1, mmhead := mmhead s1\<rparr>" using mm_unlink_ok [OF l] by blast
  obtain h p where s1': "s1 = s\<lparr>mds := h, mmhead := p\<rparr>" using s1(4) by metis
  have ck: "cookie_ok E s x" using l by (simp add: mm_list_def)
  obtain xm where xm: "mds s x = Some xm" "msize xm = n" using n ck by (auto simp: size_at_def cookie_ok_def)
  have add: "sz_add n META_3 = n + META_3" using n by (simp add: sz_add_exact SIZE_LIMIT_def META_3_def)
  let ?s = "s1\<lparr>num_allocated_blocks := num_allocated_blocks s - 1, num_allocated_bytes := num_allocated_bytes s - of_nat n,
    num_meta_data_bytes := num_meta_data_bytes s - of_nat META_3, regions := remove1 (x, n + META_3) (regions s),
    mds := (\<lambda>q. if overlaps x (n + META_3) q META_3 then None else h q),
    data := (\<lambda>y. if x \<le> y \<and> y < x + (n + META_3) then None else data s y)\<rparr>"
  have "sfree_3 E (x + META_3) s = Inr ?s"
    using ck xm n(2) add s1(1) r by (simp add: sfree_3_def munmap_def s1' cong: if_cong)
  moreover have "mds ?s y = mds s1 y" if "y \<in> set (us @ vs)" for y
    using that apart by (auto simp: s1')
  then have eq: "\<forall>y \<in> set (us @ vs). mds ?s y = mds s1 y" by blast
  moreover have "mm_list E ?s (us @ vs)"
  proof -
    have "dll (links (mds ?s)) NULL (us @ vs) NULL = dll (links (mds s1)) NULL (us @ vs) NULL"
      using eq by (intro dll_cong) (auto simp: links_def)
    moreover have "\<forall>y \<in> set (us @ vs). cookie_ok E ?s y = cookie_ok E s1 y" using eq by (auto simp: cookie_ok_def)
    ultimately show ?thesis using s1(2) by (simp add: mm_list_def)
  qed
  moreover have "\<forall>y \<in> set (us @ vs). body (mds ?s) y = body (mds s) y"
    using eq s1(3) by (auto simp: body_def fun_eq_iff)
  ultimately show ?thesis by (intro exI [of _ ?s]) simp
qed

text \<open>
  A request of at least 128 KiB maps a new region, appended to the list of mapped blocks;
  freeing the block unmaps exactly this region and restores the list and the statistics.
\<close>

theorem mapped_roundtrip:
  assumes "mm_list E s ms" and "MMAP_THRESHOLD \<le> n" "n \<le> SIZE_LIMIT" and "length ms \<le> fuel E"
    and "mm E (n + META_3) = Some a" "a \<noteq> NULL" and "\<forall>x \<in> set ms. \<not> overlaps a (n + META_3) x META_3"
  shows "\<exists>s1 s2. smalloc_3 E n s = Inr (a + META_3, s1) \<and> mm_list E s1 (ms @ [a]) \<and>
    regions s1 = (a, n + META_3) # regions s \<and> num_allocated_blocks_3 s1 = num_allocated_blocks_3 s + 1 \<and>
    sfree_3 E (a + META_3) s1 = Inr s2 \<and> mm_list E s2 ms \<and> regions s2 = regions s \<and>
    num_allocated_blocks_3 s2 = num_allocated_blocks_3 s \<and> num_allocated_bytes_3 s2 = num_allocated_bytes_3 s \<and>
    num_meta_data_bytes_3 s2 = num_meta_data_bytes_3 s"
proof -
  have "\<forall>x \<in> set ms. \<not> overlaps a META_3 x META_3" using assms(7) by (auto simp: overlaps_def)
  from smalloc_mmap_ok [OF assms(1-6) this] obtain s1 where s1: "smalloc_3 E n s = Inr (a + META_3, s1)"
    "mm_list E s1 (ms @ [a])" "size_at s1 a = n" "regions s1 = (a, n + META_3) # regions s"
    "num_allocated_blocks s1 = num_allocated_blocks s + 1" "num_allocated_bytes s1 = num_allocated_bytes s + of_nat n"
    "num_meta_data_bytes s1 = num_meta_data_bytes s + of_nat META_3" by blast
  from sfree_mapped_ok [of E s1 ms a "[]" n] s1 assms(2,3,7) show ?thesis
    by (auto simp: num_allocated_blocks_3_def num_allocated_bytes_3_def num_meta_data_bytes_3_def)
qed

theorem mapped_roundtrip_witness:
  "\<exists>s1 s2. smalloc_3 demo_env 200000 (empty_heap_3 1000) = Inr (2000000 + META_3, s1) \<and>
     sfree_3 demo_env (2000000 + META_3) s1 = Inr s2 \<and> mm_list demo_env s2 []"
proof -
  have "mm_list demo_env (empty_heap_3 1000) []" by (simp add: mm_list_def empty_heap_3_def)
  from mapped_roundtrip [OF this, of 200000 2000000] show ?thesis
    by (auto simp: demo_env_def MMAP_THRESHOLD_def SIZE_LIMIT_def)
qed

section \<open>scalloc\<close>

lemma memset0_3_ok:
  assumes ok: "heap_ok_3 E s bs" and d: "(a, m, f) \<in> set bs" "l \<le> m"
  shows "\<exists>s'. memset0 META_3 (a + META_3) l s = Inr s' \<and> heap_ok_3 E s' bs \<and>
    (\<forall>x. data s' x = (if a + META_3 \<le> x \<and> x < a + META_3 + l then Some 0 else data s x))"
proof (cases "l = 0")
  case True
  with ok show ?thesis by (auto simp: memset0_def)
next
  case False
  have im: "in_mem s (a + META_3) l"
    using heap_ok_3_block(5,6) [OF ok d(1)] d(2) by (auto intro!: in_mem_brk)
  let ?t = "s\<lparr>mds := (\<lambda>q. if overlaps (a + META_3) l q META_3 then None else mds s q),
    data := (\<lambda>x. if a + META_3 \<le> x \<and> x < a + META_3 + l then Some 0 else data s x)\<rparr>"
  have lay: "layout_3 s bs" using ok by (simp add: heap_ok_3_def)
  have "\<not> overlaps (a + META_3) l b META_3" if b: "b \<in> fst ` set bs" for b
  proof -
    from b obtain i h where "(b, i, h) \<in> set bs" by auto
    from laid_apart [OF layout_3_laid [OF lay] this d(1)] d(2) show ?thesis
      by (cases "b = a") (auto simp: overlaps_def)
  qed
  then have "heap_ok_3 E ?t bs" by (intro heap_ok_3_same_headers [OF ok]) (auto simp: counters_def)
  with False im show ?thesis by (auto simp: memset0_def)
qed

text \<open>
  C25: on an anchored heap, \<open>scalloc\<close> of a product in range returns null and leaves the live
  blocks alone, or returns a new live block, apart from the others, whose bytes are zero.
\<close>

theorem scalloc_3_zeroes:
  assumes ok: "ok_3 E pin k s" and n: "request_ok k (num * sz)"
  shows "\<exists>p s'. scalloc_3 E num sz s = Inr (p, s') \<and> ok_3 E pin k s' \<and>
    same_bytes (live_3 pin s) (data s) (data s') \<and>
    (if p = NULL then live_3 pin s' = live_3 pin s
     else (\<exists>m \<ge> num * sz. disjoint_from (live_3 pin s) p m \<and> live_3 pin s' = insert (p, m) (live_3 pin s)) \<and>
       (\<forall>i < num * sz. data s' (p + i) = Some 0))"
proof -
  let ?n = "num * sz"
  have r: "round_3 k ?n = ?n" using n by (simp add: round_3_def request_ok_def max_def)
  have md: "?n mod 2 ^ 64 = ?n" using n by (simp add: request_ok_def MMAP_THRESHOLD_def)
  from m3.malloc_law [OF ok, of ?n] obtain p s1 where s1: "smalloc_3 E ?n s = Inr (p, s1)" "ok_3 E pin k s1"
    "same_bytes (live_3 pin s) (data s) (data s1)"
    and p: "if p = 0 then live_3 pin s1 = live_3 pin s
      else \<exists>i. ?n \<le> i \<and> 0 < ?n \<and> disjoint_from (live_3 pin s) p i \<and> live_3 pin s1 = insert (p, i) (live_3 pin s)"
    unfolding r by blast
  show ?thesis
  proof (cases "p = NULL")
    case True
    with s1 p md show ?thesis by (simp add: scalloc_3_def)
  next
    case False
    with p obtain i where i: "?n \<le> i" "disjoint_from (live_3 pin s) p i" "live_3 pin s1 = insert (p, i) (live_3 pin s)"
      by auto
    then have b: "META_3 \<le> p" "(p - META_3, i, False) \<in> set (blocks_3 s1)"
      by (auto simp: live_3_alt live_of_iff set_eq_iff)
    have hok1: "heap_ok_3 E s1 (blocks_3 s1)" using s1(2) by (simp add: ok_3_def)
    from memset0_3_ok [OF hok1 b(2) i(1)] b(1) obtain s2 where s2: "memset0 META_3 p ?n s1 = Inr s2"
      "heap_ok_3 E s2 (blocks_3 s1)" "\<forall>x. data s2 x = (if p \<le> x \<and> x < p + ?n then Some 0 else data s1 x)" by auto
    have ok2: "ok_3 E pin k s2 \<and> blocks_3 s2 = blocks_3 s1"
      using s1(2) by (intro ok_3I s2(2)) (simp_all add: ok_3_def)
    then have live2: "live_3 pin s2 = live_3 pin s1" by (simp add: live_3_def)
    have "data s2 x = data s x" if q: "(q, j) \<in> live_3 pin s" and x: "q \<le> x" "x < q + j" for q j x
    proof -
      have "\<not> (p \<le> x \<and> x < p + ?n)" using i(1,2) q x by (fastforce simp: disjoint_from_def overlaps_def)
      with s2(3) same_bytesD [OF s1(3) q x] show ?thesis by auto
    qed
    then have "same_bytes (live_3 pin s) (data s) (data s2)" by (auto simp: same_bytes_def)
    moreover have "scalloc_3 E num sz s = Inr (p, s2)" using s1(1) s2(1) md False by (simp add: scalloc_3_def)
    ultimately show ?thesis using False ok2 live2 i s2(3) by auto
  qed
qed

theorem scalloc_3_zeroes_witness:
  "\<exists>p s'. scalloc_3 demo_env 10 20 demo_heap_3 = Inr (p, s') \<and> ok_3 demo_env 1000 60 s'"
  using scalloc_3_zeroes [OF demo_heap_3_ok(1), of 10 20]
  by (auto simp: request_ok_def META_3_def SPLIT_THRESHOLD_def MMAP_THRESHOLD_def)

end
