(* ===== verification/Wrappers.thy ===== *)
theory Wrappers
  imports Prelude
begin

text \<open>
  The system-call wrappers of \<^verbatim>\<open>web_server/segel.c\<close>. What the kernel returns is the argument of
  the wrapper; the wrapper passes it on or ends the whole process. The connection helpers
  (\<open>open_clientfd\<close>, \<open>open_listenfd\<close>) are functions of the results of the calls they make.
\<close>

section \<open>Errors\<close>

text \<open>The error functions print a message and call \<open>exit(0)\<close>.\<close>

definition unix_error :: "'a res" where "unix_error = Inl (Exit 0)"
definition posix_error :: "'a res" where "posix_error = Inl (Exit 0)"
definition dns_error :: "'a res" where "dns_error = Inl (Exit 0)"
definition app_error :: "'a res" where "app_error = Inl (Exit 0)"

section \<open>Processes and files\<close>

definition Gethostname :: "int \<Rightarrow> int res" where
  "Gethostname rc = (if rc < 0 then unix_error else Inr rc)"

definition Setenv :: "int \<Rightarrow> int res" where
  "Setenv rc = (if rc < 0 then unix_error else Inr rc)"

definition Fork :: "int \<Rightarrow> int res" where
  "Fork rc = (if rc < 0 then unix_error else Inr rc)"

definition Execve :: "int \<Rightarrow> unit res" where
  "Execve rc = (if rc < 0 then unix_error else Inr ())"

definition Wait :: "int \<Rightarrow> int res" where
  "Wait rc = (if rc < 0 then unix_error else Inr rc)"

definition WaitPid :: "int \<Rightarrow> int res" where
  "WaitPid rc = (if rc < 0 then unix_error else Inr rc)"

definition Open :: "int \<Rightarrow> int res" where
  "Open rc = (if rc < 0 then unix_error else Inr rc)"

definition Read :: "int \<Rightarrow> int res" where
  "Read rc = (if rc < 0 then unix_error else Inr rc)"

definition Write :: "int \<Rightarrow> int res" where
  "Write rc = (if rc < 0 then unix_error else Inr rc)"

definition Lseek :: "int \<Rightarrow> int res" where
  "Lseek rc = (if rc < 0 then unix_error else Inr rc)"

definition Close :: "int \<Rightarrow> unit res" where
  "Close rc = (if rc < 0 then unix_error else Inr ())"

definition Select :: "int \<Rightarrow> int res" where
  "Select rc = (if rc < 0 then unix_error else Inr rc)"

definition Dup2 :: "int \<Rightarrow> int res" where
  "Dup2 rc = (if rc < 0 then unix_error else Inr rc)"

definition Stat :: "int \<Rightarrow> unit res" where
  "Stat rc = (if rc < 0 then unix_error else Inr ())"

definition Fstat :: "int \<Rightarrow> unit res" where
  "Fstat rc = (if rc < 0 then unix_error else Inr ())"

section \<open>Memory mapping\<close>

text \<open>\<open>MAP_FAILED\<close> is the address with all bits set.\<close>

definition MAP_FAILED :: nat where "MAP_FAILED = 2 ^ 64 - 1"

definition Mmap :: "nat \<Rightarrow> nat res" where
  "Mmap p = (if p = MAP_FAILED then unix_error else Inr p)"

definition Munmap :: "int \<Rightarrow> unit res" where
  "Munmap rc = (if rc < 0 then unix_error else Inr ())"

section \<open>Sockets\<close>

definition Socket :: "int \<Rightarrow> int res" where
  "Socket rc = (if rc < 0 then unix_error else Inr rc)"

definition Setsockopt :: "int \<Rightarrow> unit res" where
  "Setsockopt rc = (if rc < 0 then unix_error else Inr ())"

definition Bind :: "int \<Rightarrow> unit res" where
  "Bind rc = (if rc < 0 then unix_error else Inr ())"

definition Listen :: "int \<Rightarrow> unit res" where
  "Listen rc = (if rc < 0 then unix_error else Inr ())"

definition Accept :: "int \<Rightarrow> int res" where
  "Accept rc = (if rc < 0 then unix_error else Inr rc)"

definition Connect :: "int \<Rightarrow> unit res" where
  "Connect rc = (if rc < 0 then unix_error else Inr ())"

definition Gethostbyname :: "ptr \<Rightarrow> ptr res" where
  "Gethostbyname p = (if p = NULL then dns_error else Inr p)"

definition Gethostbyaddr :: "ptr \<Rightarrow> ptr res" where
  "Gethostbyaddr p = (if p = NULL then dns_error else Inr p)"

section \<open>Connection helpers\<close>

definition open_clientfd :: "int \<Rightarrow> ptr \<Rightarrow> int \<Rightarrow> int" where
  "open_clientfd sock hp conn =
     (if sock < 0 then -1 else if hp = NULL then -2 else if conn < 0 then -1 else sock)"

definition open_listenfd :: "int \<Rightarrow> int \<Rightarrow> int \<Rightarrow> int \<Rightarrow> int" where
  "open_listenfd sock opt bnd lstn =
     (if sock < 0 then -1 else if opt < 0 then -1 else if bnd < 0 then -1
      else if lstn < 0 then -1 else sock)"

definition Open_clientfd :: "int \<Rightarrow> ptr \<Rightarrow> int \<Rightarrow> int res" where
  "Open_clientfd sock hp conn = (let rc = open_clientfd sock hp conn in
     if rc < 0 then (if rc = -1 then unix_error else dns_error) else Inr rc)"

definition Open_listenfd :: "int \<Rightarrow> int \<Rightarrow> int \<Rightarrow> int \<Rightarrow> int res" where
  "Open_listenfd sock opt bnd lstn = (let rc = open_listenfd sock opt bnd lstn in
     if rc < 0 then unix_error else Inr rc)"

text \<open>A wrapper that returns has passed on a result that is not an error.\<close>

lemma Open_clientfd_Inr:
  "Open_clientfd sock hp conn = Inr fd \<longleftrightarrow> 0 \<le> sock \<and> hp \<noteq> NULL \<and> 0 \<le> conn \<and> fd = sock"
  by (auto simp: Open_clientfd_def open_clientfd_def unix_error_def dns_error_def Let_def)

lemma Open_listenfd_Inr:
  "Open_listenfd sock opt bnd lstn = Inr fd \<longleftrightarrow>
   0 \<le> sock \<and> 0 \<le> opt \<and> 0 \<le> bnd \<and> 0 \<le> lstn \<and> fd = sock"
  by (auto simp: Open_listenfd_def open_listenfd_def unix_error_def Let_def)

lemmas wrapper_defs = Gethostname_def Setenv_def Fork_def Execve_def Wait_def WaitPid_def Open_def Read_def Write_def Lseek_def Close_def Select_def Dup2_def Stat_def Fstat_def Mmap_def Munmap_def Socket_def Setsockopt_def Bind_def Listen_def Accept_def Connect_def
  Gethostbyname_def Gethostbyaddr_def unix_error_def dns_error_def

end
