(* ===== verification/Rio.thy ===== *)
theory Rio
  imports Wrappers
begin

text \<open>
  The robust I/O package of \<^verbatim>\<open>web_server/segel.c\<close> over a connection. What the kernel does is
  scripted in the connection: the outcomes of the successive \<open>read\<close> calls (some bytes, an
  interruption, a failure; end of file when the script ends) and of the \<open>write\<close> calls (at
  most so many bytes accepted; everything when the script ends). The buffer of a \<open>rio_t\<close> is
  the list of its unread bytes. \<open>stream\<close> is what a script delivers: the functions of the package
  turn out to depend on it only, not on how the kernel cuts it.
\<close>

section \<open>Connections and system calls\<close>

datatype rd = Data string | RIntr | RFail
datatype wr = Wrote nat | WIntr | WFail

record conn =
  rds :: "rd list"
  wrs :: "wr list"
  sent :: string
  errno_intr :: bool
  unread :: string

definition RIO_BUFSIZE :: nat where "RIO_BUFSIZE = 8192"
definition MAXLINE :: nat where "MAXLINE = 8192"
definition MAXBUF :: nat where "MAXBUF = 8192"

definition c_read :: "nat \<Rightarrow> conn \<Rightarrow> int \<times> string \<times> conn" where
  "c_read n s = (case rds s of
     [] \<Rightarrow> (0, [], s)
   | RIntr # es \<Rightarrow> (-1, [], s\<lparr>rds := es, errno_intr := True\<rparr>)
   | RFail # es \<Rightarrow> (-1, [], s\<lparr>rds := es, errno_intr := False\<rparr>)
   | Data bs # es \<Rightarrow> (int (length (take n bs)), take n bs,
       s\<lparr>rds := (if drop n bs = [] then es else Data (drop n bs) # es)\<rparr>))"

definition c_write :: "string \<Rightarrow> conn \<Rightarrow> int \<times> conn" where
  "c_write bs s = (case wrs s of
     [] \<Rightarrow> (int (length bs), s\<lparr>sent := sent s @ bs\<rparr>)
   | WIntr # es \<Rightarrow> (-1, s\<lparr>wrs := es, errno_intr := True\<rparr>)
   | WFail # es \<Rightarrow> (-1, s\<lparr>wrs := es, errno_intr := False\<rparr>)
   | Wrote k # es \<Rightarrow> (int (length (take k bs)), s\<lparr>wrs := es, sent := sent s @ take k bs\<rparr>))"

section \<open>The package\<close>

function readn_loop :: "nat \<Rightarrow> string \<Rightarrow> conn \<Rightarrow> (string \<times> conn) option \<times> conn" where
  "readn_loop nleft got s =
     (if nleft = 0 then (Some (got, s), s)
      else case c_read nleft s of (nread, bs, s1) \<Rightarrow>
        if nread < 0 then (if errno_intr s1 then readn_loop nleft got s1 else (None, s1))
        else if nread = 0 then (Some (got, s1), s1)
        else readn_loop (nleft - nat nread) (got @ bs) s1)"
  by pat_completeness auto

termination
  by (relation "measure (\<lambda>(nleft, got, s). nleft + length (rds s))")
    (auto simp: c_read_def split: list.splits rd.splits if_splits)

declare readn_loop.simps [simp del]

text \<open>The result and the bytes stored in the buffer; -1 with what was stored before on an error.\<close>

definition rio_readn :: "nat \<Rightarrow> conn \<Rightarrow> int \<times> string \<times> conn" where
  "rio_readn n s = (case readn_loop n [] s of
     (None, s1) \<Rightarrow> (-1, [], s1) | (Some (got, s1), _) \<Rightarrow> (int (length got), got, s1))"

function writen_loop :: "string \<Rightarrow> conn \<Rightarrow> bool \<times> conn" where
  "writen_loop bufp s =
     (if bufp = [] then (True, s)
      else case c_write bufp s of (nwritten, s1) \<Rightarrow>
        if nwritten \<le> 0 then (if errno_intr s1 then writen_loop bufp s1 else (False, s1))
        else writen_loop (drop (nat nwritten) bufp) s1)"
  by pat_completeness auto

termination
  by (relation "measure (\<lambda>(bufp, s). length bufp + length (wrs s))")
    (auto simp: c_write_def split: list.splits wr.splits if_splits)

declare writen_loop.simps [simp del]

definition rio_writen :: "string \<Rightarrow> conn \<Rightarrow> int \<times> conn" where
  "rio_writen bs s = (case writen_loop bs s of (done, s1) \<Rightarrow> (if done then int (length bs) else -1, s1))"

function rio_read :: "nat \<Rightarrow> conn \<Rightarrow> int \<times> string \<times> conn" where
  "rio_read n s =
     (if unread s = [] then
        (case c_read RIO_BUFSIZE s of (cnt, bs, s1) \<Rightarrow>
          if cnt < 0 then (if errno_intr s1 then rio_read n s1 else (-1, [], s1))
          else if cnt = 0 then (0, [], s1)
          else rio_read n (s1\<lparr>unread := bs\<rparr>))
      else (int (length (take n (unread s))), take n (unread s), s\<lparr>unread := drop n (unread s)\<rparr>))"
  by pat_completeness auto

termination
  by (relation "measure (\<lambda>(n, s). length (rds s) + (if unread s = [] then 1 else 0))")
    (auto simp: c_read_def RIO_BUFSIZE_def split: list.splits rd.splits if_splits)

declare rio_read.simps [simp del]

definition rio_readinitb :: "conn \<Rightarrow> conn" where
  "rio_readinitb s = s\<lparr>unread := []\<rparr>"

lemma rio_read_result:
  "rio_read n s = (r, bs, s1) \<Longrightarrow> r = int (length bs) \<or> r = -1 \<and> bs = [] \<and> \<not> errno_intr s1"
proof (induction n s rule: rio_read.induct)
  case (1 n s)
  show ?case
  proof (cases "unread s = []")
    case True
    obtain c cs s2 where c: "c_read RIO_BUFSIZE s = (c, cs, s2)" by (metis prod_cases3)
    show ?thesis using 1 True c
      by (subst (asm) (3) rio_read.simps) (auto split: if_splits)
  next
    case False
    then show ?thesis using 1(3) by (subst (asm) rio_read.simps) auto
  qed
qed

function readnb_loop :: "nat \<Rightarrow> string \<Rightarrow> conn \<Rightarrow> int \<times> string \<times> conn" where
  "readnb_loop nleft got s =
     (if nleft = 0 then (int (length got), got, s)
      else case rio_read nleft s of (nread, bs, s1) \<Rightarrow>
        if nread < 0 then (if errno_intr s1 then readnb_loop nleft got s1 else (-1, got, s1))
        else if nread = 0 then (int (length got), got, s1)
        else readnb_loop (nleft - nat nread) (got @ bs) s1)"
  by pat_completeness auto

termination
  by (relation "measure (\<lambda>(nleft, got, s). nleft)") (auto dest!: rio_read_result [OF sym])

declare readnb_loop.simps [simp del]

definition rio_readnb :: "nat \<Rightarrow> conn \<Rightarrow> int \<times> string \<times> conn" where
  "rio_readnb n s = readnb_loop n [] s"

text \<open>
  \<open>rio_readlineb\<close> stores into a caller's buffer: \<open>None\<close> is a buffer whose contents are
  indeterminate. At end of file with no data the buffer is left as it was. The
  result is the counter \<open>n\<close> of the loop, not the number of bytes stored.
\<close>

function line_loop :: "nat \<Rightarrow> nat \<Rightarrow> string option \<Rightarrow> string \<Rightarrow> conn \<Rightarrow> int \<times> string option \<times> conn" where
  "line_loop n maxlen buf got s =
     (if n < maxlen then
        (case rio_read 1 s of (rc, bs, s1) \<Rightarrow>
          if rc = 1 then
            (if bs = ''\<newline>'' then (int n, Some (got @ bs), s1)
             else line_loop (n + 1) maxlen buf (got @ bs) s1)
          else if rc = 0 then (if n = 1 then (0, buf, s1) else (int n, Some got, s1))
          else (-1, None, s1))
      else (int n, Some got, s))"
  by pat_completeness auto

termination
  by (relation "measure (\<lambda>(n, maxlen, buf, got, s). maxlen - n)") auto

declare line_loop.simps [simp del]

definition rio_readlineb :: "nat \<Rightarrow> string option \<Rightarrow> conn \<Rightarrow> int \<times> string option \<times> conn" where
  "rio_readlineb maxlen buf s = line_loop 1 maxlen buf [] s"

section \<open>The wrappers\<close>

definition Rio_readn :: "nat \<Rightarrow> conn \<Rightarrow> (int \<times> string \<times> conn) res" where
  "Rio_readn n s = (case rio_readn n s of (r, bs, s1) \<Rightarrow> if r < 0 then unix_error else Inr (r, bs, s1))"

definition Rio_writen :: "string \<Rightarrow> conn \<Rightarrow> conn res" where
  "Rio_writen bs s = (case rio_writen bs s of (r, s1) \<Rightarrow>
     if r \<noteq> int (length bs) then unix_error else Inr s1)"

definition Rio_readinitb :: "conn \<Rightarrow> conn" where
  "Rio_readinitb s = rio_readinitb s"

definition Rio_readnb :: "nat \<Rightarrow> conn \<Rightarrow> (int \<times> string \<times> conn) res" where
  "Rio_readnb n s = (case rio_readnb n s of (r, bs, s1) \<Rightarrow> if r < 0 then unix_error else Inr (r, bs, s1))"

definition Rio_readlineb :: "nat \<Rightarrow> string option \<Rightarrow> conn \<Rightarrow> (int \<times> string option \<times> conn) res" where
  "Rio_readlineb maxlen buf s = (case rio_readlineb maxlen buf s of (r, b, s1) \<Rightarrow>
     if r < 0 then unix_error else Inr (r, b, s1))"

section \<open>What a connection still has to deliver\<close>

fun stream :: "rd list \<Rightarrow> string" where
  "stream [] = []"
| "stream (Data bs # es) = bs @ stream es"
| "stream (RIntr # es) = stream es"
| "stream (RFail # es) = []"

definition content :: "conn \<Rightarrow> string" where
  "content s = unread s @ stream (rds s)"

text \<open>No read fails, and only the end of the script is an end of file.\<close>

definition sound_rds :: "rd list \<Rightarrow> bool" where
  "sound_rds es \<longleftrightarrow> RFail \<notin> set es \<and> Data [] \<notin> set es"

definition sound :: "conn \<Rightarrow> bool" where
  "sound s \<longleftrightarrow> sound_rds (rds s)"

lemma sound_rds_simps [simp]:
  "sound_rds []" "sound_rds (RIntr # es) = sound_rds es" "\<not> sound_rds (RFail # es)"
  "sound_rds (Data bs # es) \<longleftrightarrow> bs \<noteq> [] \<and> sound_rds es"
  by (auto simp: sound_rds_def)

text \<open>One call of \<open>read\<close> on a sound connection: interrupted, or the next bytes of the stream.\<close>

lemma c_read_sound:
  assumes "c_read n s = (r, bs, s1)" "sound s" "0 < n"
  shows "(r < 0 \<and> bs = [] \<and> errno_intr s1 \<or> r = int (length bs)) \<and> sound s1 \<and>
    bs @ stream (rds s1) = stream (rds s) \<and> length bs \<le> n \<and> (r = 0 \<longrightarrow> stream (rds s) = []) \<and>
    unread s1 = unread s \<and> wrs s1 = wrs s \<and> sent s1 = sent s"
  using assms by (auto simp: c_read_def sound_def split: list.splits rd.splits if_splits)

lemma rio_read_sound:
  "sound s \<Longrightarrow> 0 < n \<Longrightarrow>
   \<exists>bs s1. rio_read n s = (int (length bs), bs, s1) \<and> sound s1 \<and> content s = bs @ content s1 \<and>
     length bs \<le> n \<and> (bs = [] \<longrightarrow> content s = []) \<and> wrs s1 = wrs s \<and> sent s1 = sent s"
proof (induction n s rule: rio_read.induct)
  case (1 n s)
  note IH = "1.IH" and prems = "1.prems"
  show ?case
  proof (cases "unread s = []")
    case False
    then show ?thesis using prems
      by (subst rio_read.simps) (auto simp: content_def sound_def)
  next
    case True
    obtain c cs s2 where c: "c_read RIO_BUFSIZE s = (c, cs, s2)" by (metis prod_cases3)
    have b: "0 < RIO_BUFSIZE" by (simp add: RIO_BUFSIZE_def)
    note c_sound = c_read_sound [OF c prems(1) b]
    consider (intr) "c < 0" "errno_intr s2" | (eof) "c = 0" | (data) "0 < c" "c = int (length cs)"
      using c_sound by linarith
    then show ?thesis
    proof cases
      case intr
      have step: "rio_read n s = rio_read n s2"
        using True c intr by (subst rio_read.simps) simp
      have "sound s2" "content s2 = content s" "wrs s2 = wrs s" "sent s2 = sent s"
        using c_sound intr by (auto simp: content_def)
      then show ?thesis using IH(1) [OF True c [symmetric] refl intr] prems(2) step by simp
    next
      case eof
      then show ?thesis using True c c_sound
        by (subst rio_read.simps) (auto simp: content_def)
    next
      case data
      have step: "rio_read n s = rio_read n (s2\<lparr>unread := cs\<rparr>)"
        using True c data by (subst rio_read.simps) simp
      have "sound (s2\<lparr>unread := cs\<rparr>)" "content (s2\<lparr>unread := cs\<rparr>) = content s"
        "wrs s2 = wrs s" "sent s2 = sent s"
        using c_sound data True by (auto simp: content_def sound_def)
      then show ?thesis using IH(2) [OF True c [symmetric] refl] prems(2) step data by simp
    qed
  qed
qed

lemma readnb_loop_sound:
  "sound s \<Longrightarrow> \<exists>s1. readnb_loop n got s =
      (int (length (got @ take n (content s))), got @ take n (content s), s1) \<and>
     sound s1 \<and> content s1 = drop n (content s) \<and> wrs s1 = wrs s \<and> sent s1 = sent s"
proof (induction n got s rule: readnb_loop.induct)
  case (1 n got s)
  show ?case
  proof (cases "n = 0")
    case True then show ?thesis using 1(3) by (subst readnb_loop.simps) simp
  next
    case False
    then obtain bs s1 where r: "rio_read n s = (int (length bs), bs, s1)" "sound s1"
      "content s = bs @ content s1" "length bs \<le> n" "bs = [] \<longrightarrow> content s = []"
      "wrs s1 = wrs s" "sent s1 = sent s"
      using rio_read_sound [OF 1(3), of n] by auto
    show ?thesis
    proof (cases "bs = []")
      case True
      then show ?thesis using r False by (subst readnb_loop.simps) auto
    next
      case ne: False
      then show ?thesis using 1(2) [OF False r(1) [symmetric] refl] r False
        by (subst readnb_loop.simps) auto
    qed
  qed
qed

lemma readn_loop_sound:
  "sound s \<Longrightarrow> \<exists>s1. readn_loop n got s =
      (Some (got @ take n (stream (rds s)), s1), s1) \<and>
     sound s1 \<and> stream (rds s1) = drop n (stream (rds s)) \<and> unread s1 = unread s \<and>
     wrs s1 = wrs s \<and> sent s1 = sent s"
proof (induction n got s rule: readn_loop.induct)
  case (1 n got s)
  show ?case
  proof (cases "n = 0")
    case True then show ?thesis using 1(3) by (subst readn_loop.simps) simp
  next
    case False
    then have pos: "0 < n" by simp
    obtain c cs s1 where c: "c_read n s = (c, cs, s1)" by (metis prod_cases3)
    note c_sound = c_read_sound [OF c 1(3) pos]
    have st: "stream (rds s) = cs @ stream (rds s1)" using c_sound by simp
    consider (intr) "c < 0" "errno_intr s1" "cs = []" | (eof) "c = 0" | (data) "0 < c" "c = int (length cs)"
      using c_sound by linarith
    then show ?thesis
    proof cases
      case intr
      then show ?thesis using 1(1) [OF False c [symmetric] refl intr(1,2)] c c_sound st pos
        by (subst readn_loop.simps) simp
    next
      case eof
      then show ?thesis using c c_sound st pos by (subst readn_loop.simps) auto
    next
      case data
      then have n: "\<not> c < 0" "c \<noteq> 0" by auto
      show ?thesis using 1(2) [OF False c [symmetric] refl n] c c_sound st data
        by (subst readn_loop.simps) (auto simp: pos)
    qed
  qed
qed

section \<open>Lines\<close>

text \<open>The line a text starts with: up to its newline, but at most \<open>k\<close> bytes.\<close>

fun line_of :: "nat \<Rightarrow> string \<Rightarrow> string" where
  "line_of 0 xs = []"
| "line_of (Suc k) [] = []"
| "line_of (Suc k) (c # cs) = c # (if c = CHR ''\<newline>'' then [] else line_of k cs)"

definition ends :: "string \<Rightarrow> bool" where
  "ends l \<longleftrightarrow> l \<noteq> [] \<and> last l = CHR ''\<newline>''"

lemma line_of_Nil [simp]: "line_of k [] = []"
  by (cases k) auto

lemma line_of_prefix: "line_of k xs @ drop (length (line_of k xs)) xs = xs"
  by (induction k xs rule: line_of.induct) auto

lemma length_line_of: "length (line_of k xs) \<le> k \<and> length (line_of k xs) \<le> length xs"
  by (induction k xs rule: line_of.induct) auto

lemma line_of_empty: "line_of k xs = [] \<longleftrightarrow> k = 0 \<or> xs = []"
  by (cases k; cases xs) auto

lemma line_of_Cons: "0 < k \<Longrightarrow>
  line_of k (c # cs) = c # (if c = CHR ''\<newline>'' then [] else line_of (k - 1) cs)"
  by (cases k) auto

lemma line_of_whole:
  "CHR ''\<newline>'' \<notin> set l \<Longrightarrow> length l < k \<Longrightarrow> line_of k (l @ CHR ''\<newline>'' # xs) = l @ ''\<newline>''"
  by (induction l arbitrary: k) (auto simp: line_of_Cons)

lemma line_loop_sound:
  "sound s \<Longrightarrow> 1 \<le> n \<Longrightarrow> \<exists>s1. line_loop n maxlen buf got s =
     (let l = line_of (maxlen - n) (content s); stays = (n = 1 \<and> n < maxlen \<and> content s = [])
      in (if stays then 0 else int (n + length l) - (if ends l then 1 else 0),
          if stays then buf else Some (got @ l), s1)) \<and>
     sound s1 \<and> content s1 = drop (length (line_of (maxlen - n) (content s))) (content s) \<and>
     wrs s1 = wrs s \<and> sent s1 = sent s"
proof (induction n maxlen buf got s rule: line_loop.induct)
  case (1 n maxlen buf got s)
  show ?case
  proof (cases "n < maxlen")
    case False
    then show ?thesis using 1(2,3) by (subst line_loop.simps) (simp add: ends_def)
  next
    case True
    obtain bs s1 where r: "rio_read 1 s = (int (length bs), bs, s1)" "sound s1"
      "content s = bs @ content s1" "length bs \<le> 1" "bs = [] \<longrightarrow> content s = []"
      "wrs s1 = wrs s" "sent s1 = sent s"
      using rio_read_sound [OF 1(2), of 1] by auto
    consider (eof) "bs = []" | (one) c where "bs = [c]" using r(4) by (cases bs) auto
    then show ?thesis
    proof cases
      case eof
      then show ?thesis using r True by (subst line_loop.simps) (auto simp: ends_def)
    next
      case one
      have l: "line_of (maxlen - n) (content s) =
          c # (if c = CHR ''\<newline>'' then [] else line_of (maxlen - (n + 1)) (content s1))"
        using True r(3) one by (simp add: line_of_Cons)
      show ?thesis
      proof (cases "c = CHR ''\<newline>''")
        case nl: True
        then show ?thesis using r True one l by (subst line_loop.simps) (auto simp: ends_def)
      next
        case False
        then have n: "bs \<noteq> ''\<newline>''" "int (length bs) = 1" using one by auto
        have e: "ends (c # l') \<longleftrightarrow> ends l'" for l' using False by (simp add: ends_def)
        show ?thesis using 1(1) [OF True r(1) [symmetric] refl n(2) n(1)] 1(3) r True one l False e
          by (subst line_loop.simps) (auto simp: Let_def)
      qed
    qed
  qed
qed

section \<open>Writing\<close>

text \<open>No write fails and every write takes at least a byte.\<close>

definition sound_wrs :: "wr list \<Rightarrow> bool" where
  "sound_wrs es \<longleftrightarrow> WFail \<notin> set es \<and> Wrote 0 \<notin> set es"

lemma c_write_sound:
  assumes "c_write bs s = (r, s1)" "sound_wrs (wrs s)" "bs \<noteq> []"
  shows "(r < 0 \<and> errno_intr s1 \<and> sent s1 = sent s \<or>
      (\<exists>k. r = int k \<and> 0 < k \<and> k \<le> length bs \<and> sent s1 = sent s @ take k bs)) \<and>
    sound_wrs (wrs s1) \<and> rds s1 = rds s \<and> unread s1 = unread s"
proof (cases "wrs s")
  case Nil
  then show ?thesis using assms by (auto simp: c_write_def intro!: exI [of _ "length bs"])
next
  case (Cons e es)
  then show ?thesis using assms
    by (cases e) (auto simp: c_write_def sound_wrs_def min_def)
qed

lemma writen_loop_sound:
  "sound_wrs (wrs s) \<Longrightarrow> \<exists>s1. writen_loop bs s = (True, s1) \<and> sent s1 = sent s @ bs \<and>
     sound_wrs (wrs s1) \<and> rds s1 = rds s \<and> unread s1 = unread s"
proof (induction bs s rule: writen_loop.induct)
  case (1 bs s)
  show ?case
  proof (cases "bs = []")
    case True then show ?thesis using 1(3) by (subst writen_loop.simps) simp
  next
    case False
    obtain r s1 where w: "c_write bs s = (r, s1)" by fastforce
    note w_sound = c_write_sound [OF w 1(3) False]
    consider (intr) "r < 0" "errno_intr s1" "sent s1 = sent s" |
      (some) k where "r = int k" "0 < k" "k \<le> length bs" "sent s1 = sent s @ take k bs"
      using w_sound by blast
    then show ?thesis
    proof cases
      case intr
      then have r: "r \<le> 0" by simp
      show ?thesis using 1(1) [OF False w [symmetric] r intr(2)] w w_sound intr r False
        by (subst writen_loop.simps) auto
    next
      case some
      then have r: "\<not> r \<le> 0" by simp
      show ?thesis using 1(2) [OF False w [symmetric] r] w w_sound some r False
        by (subst writen_loop.simps) auto
    qed
  qed
qed

lemma Rio_writen_sound:
  "sound_wrs (wrs s) \<Longrightarrow> \<exists>s1. Rio_writen bs s = Inr s1 \<and> sent s1 = sent s @ bs \<and>
     sound_wrs (wrs s1) \<and> rds s1 = rds s \<and> unread s1 = unread s"
  using writen_loop_sound [of s bs] by (auto simp: Rio_writen_def rio_writen_def)

section \<open>The interface of a source of lines\<close>

text \<open>
  What the callers of \<open>Rio_readlineb\<close> rely on. \<open>rest\<close> is the text that is still to be
  read, \<open>frame\<close> whatever else of the state must stay as it is, \<open>k\<close> the longest line that fits.
\<close>

locale line_source =
  fixes readline :: "string option \<Rightarrow> 's \<Rightarrow> (int \<times> string option \<times> 's) res"
    and rest :: "'s \<Rightarrow> string" and ok :: "'s \<Rightarrow> bool" and frame :: "'s \<Rightarrow> 'f" and k :: nat
  assumes k_pos: "0 < k"
    and at_end: "ok s \<Longrightarrow> rest s = [] \<Longrightarrow>
      \<exists>s1. readline b s = Inr (0, b, s1) \<and> ok s1 \<and> rest s1 = [] \<and> frame s1 = frame s"
    and at_line: "ok s \<Longrightarrow> rest s \<noteq> [] \<Longrightarrow>
      \<exists>n s1. readline b s = Inr (n, Some (line_of k (rest s)), s1) \<and> 0 < n \<and> ok s1 \<and>
        rest s1 = drop (length (line_of k (rest s))) (rest s) \<and> frame s1 = frame s"

function lines_of :: "nat \<Rightarrow> string \<Rightarrow> string list" where
  "lines_of k xs = (if k = 0 \<or> xs = [] then []
     else line_of k xs # lines_of k (drop (length (line_of k xs)) xs))"
  by pat_completeness auto

termination
  by (relation "measure (\<lambda>(k, xs). length xs)") (auto simp: line_of_empty)

declare lines_of.simps [simp del]

lemma lines_of_Nil [simp]: "lines_of k [] = []"
  by (simp add: lines_of.simps)

lemma lines_of_Cons:
  "0 < k \<Longrightarrow> xs \<noteq> [] \<Longrightarrow>
   lines_of k xs = line_of k xs # lines_of k (drop (length (line_of k xs)) xs)"
  by (subst lines_of.simps) simp

lemma concat_lines_of: "0 < k \<Longrightarrow> concat (lines_of k xs) = xs"
proof (induction k xs rule: lines_of.induct)
  case (1 k xs)
  then show ?case by (cases "xs = []") (simp_all add: lines_of_Cons line_of_prefix)
qed

lemma lines_of_whole:
  "CHR ''\<newline>'' \<notin> set l \<Longrightarrow> length l < k \<Longrightarrow>
   lines_of k (l @ CHR ''\<newline>'' # xs) = (l @ ''\<newline>'') # lines_of k xs"
  by (subst lines_of_Cons) (simp_all add: line_of_whole)

interpretation rio: line_source "Rio_readlineb MAXLINE" content sound "\<lambda>s. (wrs s, sent s)" "MAXLINE - 1"
proof (unfold_locales, goal_cases)
  case 1
  show ?case by (simp add: MAXLINE_def)
next
  case (2 s b)
  then show ?case using line_loop_sound [of s 1 MAXLINE b "[]"]
    by (auto simp: Rio_readlineb_def rio_readlineb_def MAXLINE_def)
next
  case (3 s b)
  let ?l = "line_of (MAXLINE - 1) (content s)"
  have "?l \<noteq> []" using 3 by (simp add: line_of_empty MAXLINE_def)
  then have "1 \<le> int (1 + length ?l) - (if ends ?l then 1 else 0)" by (cases ?l) auto
  then show ?case using line_loop_sound [of s 1 MAXLINE b "[]"] 3
    by (auto simp: Rio_readlineb_def rio_readlineb_def Let_def)
qed

text \<open>C15: reading a line depends only on the bytes that are still to come, not on how \<open>read\<close>
  cuts them or how often it is interrupted: \<open>rio_readlineb\<close> stores the text up to and including
  the next newline, at most \<open>maxlen - 1\<close> bytes of it, leaves the rest, and touches
  neither the caller's buffer nor anything else when the stream is at its end. The number it
  returns is the length of the line if that ends in a newline and one more than the
  bytes stored otherwise.\<close>

theorem rio_readlineb_line:
  assumes "sound s" "2 \<le> maxlen"
  shows "\<exists>s1. rio_readlineb maxlen buf s =
      (let l = line_of (maxlen - 1) (content s) in
       if content s = [] then (0, buf, s1)
       else (int (length l) + (if ends l then 0 else 1), Some l, s1)) \<and>
    line_of (maxlen - 1) (content s) @ content s1 = content s \<and>
    sound s1 \<and> wrs s1 = wrs s \<and> sent s1 = sent s"
proof -
  have "line_of (maxlen - 1) (content s) @ drop (length (line_of (maxlen - 1) (content s))) (content s) = content s"
    by (rule line_of_prefix)
  then show ?thesis using line_loop_sound [of s 1 maxlen buf "[]"] assms
    by (auto simp: rio_readlineb_def Let_def split: if_splits)
qed

text \<open>C27: \<open>rio_readn\<close> and \<open>rio_readnb\<close> return exactly the next \<open>n\<close> bytes of the stream, fewer
  only when it ends before, whatever the short reads and interruptions on the way; the
  unbuffered one bypasses the bytes already in the buffer.\<close>

theorem rio_read_exact:
  assumes "sound s"
  shows "(\<exists>s1. rio_readnb n s = (int (min n (length (content s))), take n (content s), s1) \<and>
      sound s1 \<and> content s1 = drop n (content s) \<and> sent s1 = sent s) \<and>
    (\<exists>s1. rio_readn n s = (int (min n (length (stream (rds s)))), take n (stream (rds s)), s1) \<and>
      sound s1 \<and> stream (rds s1) = drop n (stream (rds s)) \<and> unread s1 = unread s \<and> sent s1 = sent s)"
  using readnb_loop_sound [OF assms, of n "[]"] readn_loop_sound [OF assms, of n "[]"]
  by (auto simp: rio_readnb_def rio_readn_def min.commute)

text \<open>\<open>rio_writen\<close> sends every byte exactly once and in order however the kernel splits or
  interrupts the writes, and returns the number of bytes it was given.\<close>

theorem rio_writen_all:
  assumes "sound_wrs (wrs s)"
  shows "\<exists>s1. rio_writen bs s = (int (length bs), s1) \<and> sent s1 = sent s @ bs \<and>
    content s1 = content s \<and> sound_wrs (wrs s1)"
  using writen_loop_sound [OF assms, of bs] by (auto simp: rio_writen_def content_def)

text \<open>A line that arrives in three pieces with an interruption between them.\<close>

definition demo_conn :: conn where
  "demo_conn = \<lparr>rds = [Data ''GE'', RIntr, Data ''T /'', Data ''\<newline>host''], wrs = [Wrote 2, WIntr],
     sent = [], errno_intr = False, unread = []\<rparr>"

lemma demo_conn_sound: "sound demo_conn" "sound_wrs (wrs demo_conn)"
    "content demo_conn = ''GET /\<newline>host''"
  by (simp_all add: demo_conn_def sound_def sound_wrs_def content_def)

theorem rio_readlineb_line_witness:
  "\<exists>s1. rio_readlineb 80 None demo_conn = (6, Some ''GET /\<newline>'', s1) \<and> content s1 = ''host''"
proof -
  have l: "line_of 79 ''GET /\<newline>host'' = ''GET /\<newline>''" by (simp add: line_of_Cons)
  show ?thesis
    using rio_readlineb_line [of demo_conn 80 None] by (auto simp: demo_conn_sound l ends_def)
qed

theorem rio_read_exact_witness:
  "\<exists>s1. rio_readnb 7 demo_conn = (7, ''GET /\<newline>h'', s1) \<and> content s1 = ''ost''"
  using rio_read_exact [of demo_conn 7] by (auto simp: demo_conn_sound)

theorem rio_writen_all_witness:
  "\<exists>s1. rio_writen ''hello'' demo_conn = (5, s1) \<and> sent s1 = ''hello''"
  using rio_writen_all [of demo_conn "''hello''"] by (auto simp: demo_conn_sound) (simp add: demo_conn_def)

end
