(* ===== verification/CString.thy ===== *)
theory CString
  imports Prelude "HOL-Library.Sublist"
begin

text \<open>
  What the programs use of \<^verbatim>\<open>string.h\<close>, \<^verbatim>\<open>stdio.h\<close> and \<^verbatim>\<open>stdlib.h\<close>, on strings as lists of
  characters: the C string in a buffer (\<open>c_str\<close>), searching, tokens as \<open>%s\<close> reads them,
  decimal conversion in both directions, and the capacity of a buffer (\<open>fits\<close>).
\<close>

section \<open>Buffers\<close>

abbreviation nl :: char where "nl \<equiv> CHR ''\<newline>''"
abbreviation cr :: char where "cr \<equiv> CHR 0x0D"

definition CRLF :: string where "CRLF = [cr, nl]"

lemma length_CRLF [simp]: "length CRLF = 2"
  by (simp add: CRLF_def)

definition c_str :: "string \<Rightarrow> string" where
  "c_str s = takeWhile (\<lambda>c. c \<noteq> CHR 0x00) s"

lemma c_str_id [simp]: "CHR 0x00 \<notin> set s \<Longrightarrow> c_str s = s"
  by (auto simp: c_str_def takeWhile_eq_all_conv)

lemma length_c_str: "length (c_str s) \<le> length s"
  by (simp add: c_str_def length_takeWhile_le)

lemma set_c_str: "set (c_str s) \<subseteq> set s"
  by (auto simp: c_str_def dest: set_takeWhileD)

text \<open>A string copied to an array of \<open>cap\<close> characters needs room for its terminator.\<close>

definition fits :: "nat \<Rightarrow> string \<Rightarrow> string res" where
  "fits cap s = (if length s < cap then Inr s else Inl Ub)"

lemma fits_Inr [simp]: "length s < cap \<Longrightarrow> fits cap s = Inr s"
  by (simp add: fits_def)

lemma fits_Ub: "cap \<le> length s \<Longrightarrow> fits cap s = Inl Ub"
  by (simp add: fits_def)

lemma fits_Inr_iff [res_simps]: "fits cap s = Inr t \<longleftrightarrow> length s < cap \<and> t = s"
  by (auto simp: fits_def)

section \<open>Searching\<close>

fun strstr :: "string \<Rightarrow> string \<Rightarrow> bool" where
  "strstr [] p = (p = [])"
| "strstr (c # cs) p = (take (length p) (c # cs) = p \<or> strstr cs p)"

lemma strstr_iff: "strstr s p \<longleftrightarrow> (\<exists>a b. s = a @ p @ b)"
proof (induction s p rule: strstr.induct)
  case (2 c cs p)
  have hd: "take (length p) (c # cs) = p \<longleftrightarrow> (\<exists>b. c # cs = p @ b)"
    by (metis append_eq_conv_conj)
  have "(\<exists>a b. c # cs = a @ p @ b) \<longleftrightarrow> (\<exists>b. c # cs = p @ b) \<or> (\<exists>a b. cs = a @ p @ b)"
    by (auto simp: Cons_eq_append_conv)
  then show ?case using 2 hd by simp
qed auto

lemma strstr_sublist: "strstr s p \<longleftrightarrow> sublist p s"
  by (auto simp: strstr_iff sublist_def)

lemma strstr_append: "strstr s p \<Longrightarrow> strstr (a @ s @ b) p"
  unfolding strstr_sublist by (meson sublist_appendI sublist_order.order_trans)

lemma not_strstr_part: "\<not> strstr (a @ s @ b) p \<Longrightarrow> \<not> strstr s p"
  using strstr_append by blast

text \<open>\<open>strcasecmp\<close> in the C locale.\<close>

definition lower :: "char \<Rightarrow> char" where
  "lower c = (if 65 \<le> (of_char c :: nat) \<and> (of_char c :: nat) \<le> 90 then char_of ((of_char c :: nat) + 32) else c)"

definition same_nocase :: "string \<Rightarrow> string \<Rightarrow> bool" where
  "same_nocase s t \<longleftrightarrow> map lower s = map lower t"

section \<open>Tokens\<close>

definition is_space :: "char \<Rightarrow> bool" where
  "is_space c \<longleftrightarrow> c = CHR '' '' \<or> c \<in> {CHR 0x09, CHR 0x0A, CHR 0x0B, CHR 0x0C, CHR 0x0D}"

text \<open>What \<open>%s\<close> reads, with the rest of the input: nothing at the end of the string.\<close>

definition token :: "string \<Rightarrow> string \<times> string" where
  "token s = (let t = dropWhile is_space s
     in (takeWhile (\<lambda>c. \<not> is_space c) t, dropWhile (\<lambda>c. \<not> is_space c) t))"

lemma token_length: "length (fst (token s)) + length (snd (token s)) \<le> length s"
proof -
  have "length (fst (token s) @ snd (token s)) \<le> length s"
    unfolding token_def Let_def fst_conv snd_conv takeWhile_dropWhile_id by (rule length_dropWhile_le)
  then show ?thesis by simp
qed

lemma token_no_space: "c \<in> set (fst (token s)) \<Longrightarrow> \<not> is_space c"
  by (auto simp: token_def Let_def dest: set_takeWhileD)

lemma token_word:
  assumes "w \<noteq> []" "\<forall>c\<in>set w. \<not> is_space c" "is_space d"
  shows "token (w @ d # s) = (w, d # s)" "token (d # w @ e # s) = token (w @ e # s)"
proof -
  have h: "\<not> is_space (hd w)" using assms by simp
  then have "dropWhile is_space (w @ d # s) = w @ d # s" using assms(1) by (cases w) auto
  then show "token (w @ d # s) = (w, d # s)" using assms by (simp add: token_def)
  show "token (d # w @ e # s) = token (w @ e # s)" using assms by (simp add: token_def)
qed

section \<open>Decimal numbers\<close>

definition digit :: "nat \<Rightarrow> char" where "digit d = char_of (48 + d)"

fun digits :: "nat \<Rightarrow> string" where
  "digits n = (if n < 10 then [digit n] else digits (n div 10) @ [digit (n mod 10)])"

declare digits.simps [simp del]

definition dec :: "int \<Rightarrow> string" where
  "dec i = (if i < 0 then CHR ''-'' # digits (nat (- i)) else digits (nat i))"

text \<open>\<open>%06ld\<close>\<close>

definition dec06 :: "int \<Rightarrow> string" where
  "dec06 i = (let ds = digits (nat \<bar>i\<bar>) in
     if i < 0 then CHR ''-'' # replicate (5 - length ds) CHR ''0'' @ ds
     else replicate (6 - length ds) CHR ''0'' @ ds)"

lemma length_digits: "0 < k \<Longrightarrow> n < 10 ^ k \<Longrightarrow> length (digits n) \<le> k"
proof (induction n arbitrary: k rule: digits.induct)
  case (1 n)
  show ?case
  proof (cases "n < 10")
    case True
    then show ?thesis using 1(2) by (simp add: digits.simps)
  next
    case False
    then have "k \<noteq> 1" using 1(3) by auto
    then obtain j where j: "k = Suc j" "0 < j" using 1(2) by (cases k) auto
    have "length (digits (n div 10)) \<le> j" using 1(1) [OF False j(2)] 1(3) j by simp
    then show ?thesis using False j by (subst digits.simps) simp
  qed
qed

lemma length_dec: "0 < k \<Longrightarrow> \<bar>i\<bar> < 10 ^ k \<Longrightarrow> length (dec i) \<le> Suc k"
  using length_digits [of k "nat \<bar>i\<bar>"] by (auto simp: dec_def nat_less_iff)

lemma length_dec06: "\<bar>i\<bar> < 10 ^ 20 \<Longrightarrow> length (dec06 i) \<le> 21"
  using length_digits [of 20 "nat \<bar>i\<bar>"] by (auto simp: dec06_def Let_def nat_less_iff)

text \<open>The digits a string starts with and their value; \<open>atoi\<close> is undefined when the value does
  not fit in an \<open>int\<close>.\<close>

definition is_digit :: "char \<Rightarrow> bool" where
  "is_digit c \<longleftrightarrow> 48 \<le> (of_char c :: nat) \<and> (of_char c :: nat) \<le> 57"

definition value_of :: "string \<Rightarrow> nat" where
  "value_of ds = foldl (\<lambda>a c. 10 * a + (of_char c - 48)) 0 ds"

definition as_int :: "int \<Rightarrow> int res" where
  "as_int i = (if - (2 ^ 31) \<le> i \<and> i < 2 ^ 31 then Inr i else Inl Ub)"

definition atoi :: "string \<Rightarrow> int res" where
  "atoi s = (let t = dropWhile is_space s in
     case t of
       [] \<Rightarrow> Inr 0
     | c # r \<Rightarrow>
         if c = CHR ''-'' then as_int (- int (value_of (takeWhile is_digit r)))
         else if c = CHR ''+'' then as_int (int (value_of (takeWhile is_digit r)))
         else as_int (int (value_of (takeWhile is_digit t))))"

lemma is_digit_digit: "d < 10 \<Longrightarrow> is_digit (digit d) \<and> (of_char (digit d) :: nat) = 48 + d"
  by (simp add: is_digit_def digit_def of_char_of)

lemma digits_all_digits: "\<forall>c\<in>set (digits n). is_digit c"
  by (induction n rule: digits.induct) (subst digits.simps, auto simp: is_digit_digit)

lemma value_of_digits: "value_of (digits n) = n"
proof (induction n rule: digits.induct)
  case (1 n)
  have snoc: "value_of (xs @ [c]) = 10 * value_of xs + (of_char c - 48)" for xs c
    by (simp add: value_of_def)
  have one: "value_of [c] = of_char c - 48" for c by (simp add: value_of_def)
  show ?case using 1 by (subst digits.simps) (simp add: snoc one is_digit_digit)
qed

lemma digits_not_Nil [simp]: "digits n \<noteq> []"
  by (subst digits.simps) simp

lemma is_digit_plain: "is_digit c \<Longrightarrow> \<not> is_space c \<and> c \<noteq> CHR ''-'' \<and> c \<noteq> CHR ''+'' \<and> c \<noteq> CHR 0x00"
  by (auto simp: is_digit_def is_space_def)

lemma takeWhile_digits:
  "\<not> is_digit d \<Longrightarrow> takeWhile is_digit (digits n @ d # s) = digits n"
  "takeWhile is_digit (digits n) = digits n"
  using digits_all_digits [of n] by (simp_all add: takeWhile_eq_all_conv)

lemma atoi_digits: "atoi (digits n) = as_int (int n)"
proof -
  obtain c r where c: "digits n = c # r" by (cases "digits n") auto
  then have d: "is_digit c" using digits_all_digits [of n] by simp
  then have "dropWhile is_space (c # r) = c # r" using is_digit_plain by simp
  then have "atoi (c # r) = as_int (int (value_of (takeWhile is_digit (c # r))))"
    using is_digit_plain [OF d] by (simp only: atoi_def Let_def list.case if_False)
  then show ?thesis
    unfolding c [symmetric] takeWhile_digits(2) value_of_digits .
qed

lemma atoi_minus: "atoi (CHR ''-'' # digits n) = as_int (- int n)"
proof -
  have "dropWhile is_space (CHR ''-'' # digits n) = CHR ''-'' # digits n" by (simp add: is_space_def)
  then show ?thesis by (simp only: atoi_def Let_def list.case simp_thms if_True takeWhile_digits value_of_digits)
qed

lemma atoi_dec: "- (2 ^ 31) \<le> i \<Longrightarrow> i < 2 ^ 31 \<Longrightarrow> atoi (dec i) = Inr i"
  by (cases "i < 0") (simp_all add: dec_def atoi_digits atoi_minus as_int_def)

end
