(* ===== verification/Request.thy ===== *)
theory Request
  imports Rio CString
begin

text \<open>
  The request handler of \<^verbatim>\<open>web_server/request.c\<close> over a connection of \<open>Rio\<close>. The file system and
  what the kernel answers to the calls of the handler are the parameter \<open>os\<close>; a CGI
  program is the text its process writes to the connection. A worker that meets an error of a
  system call ends the whole server: \<open>Inl (Exit 0)\<close>. A buffer whose contents are indeterminate is
  \<open>None\<close>, using one or overflowing one is \<open>Inl Ub\<close>.
\<close>

section \<open>Data\<close>

record timeval =
  tv_sec :: int
  tv_usec :: int

record statistics =
  arrival_time :: timeval
  dispatch_interval :: timeval
  thread_id :: int
  requests_count :: int
  static_requests_count :: int
  dynamic_requests_count :: int

definition ERR501 :: int where "ERR501 = -501"
definition ERR404 :: int where "ERR404 = -404"
definition ERR403 :: int where "ERR403 = -403"
definition DYNAMIC :: int where "DYNAMIC = 0"
definition STATIC :: int where "STATIC = 1"

record file_info =
  st_reg :: bool
  st_rusr :: bool
  st_xusr :: bool
  bytes :: string

record os =
  files :: "string \<Rightarrow> file_info option"
  open_rc :: "string \<Rightarrow> int"
  mmap_at :: "int \<Rightarrow> nat"
  close_rc :: int
  munmap_rc :: int
  fork_rc :: int
  wait_rc :: int
  setenv_rc :: int
  dup2_rc :: int
  exec :: "string \<Rightarrow> (string \<Rightarrow> string) option"

section \<open>Statistics and error replies\<close>

text \<open>The \<open>sprintf\<close> calls append to the text the buffer holds.\<close>

definition buf_stats :: "statistics \<Rightarrow> int \<Rightarrow> string res" where
  "buf_stats stats is_static =
     rbind (as_int (requests_count stats + 1)) (\<lambda>r.
     rbind (as_int (static_requests_count stats + (if is_static = 1 then 1 else 0))) (\<lambda>st.
     rbind (as_int (dynamic_requests_count stats + (if is_static = 0 then 1 else 0))) (\<lambda>dy.
     fits MAXLINE
      (''Stat-Req-Arrival:: '' @ dec (tv_sec (arrival_time stats)) @ ''.''
         @ dec06 (tv_usec (arrival_time stats)) @ CRLF @
       ''Stat-Req-Dispatch:: '' @ dec (tv_sec (dispatch_interval stats)) @ ''.''
         @ dec06 (tv_usec (dispatch_interval stats)) @ CRLF @
       ''Stat-Thread-Id:: '' @ dec (thread_id stats) @ CRLF @
       ''Stat-Thread-Count:: '' @ dec r @ CRLF @
       ''Stat-Thread-Static:: '' @ dec st @ CRLF @
       ''Stat-Thread-Dynamic:: '' @ dec dy @ CRLF))))"

definition error_body :: "string \<Rightarrow> string \<Rightarrow> string \<Rightarrow> string \<Rightarrow> string" where
  "error_body cause errnum shortmsg longmsg =
     ''<html><title>OS-HW3 Error</title>'' @ ''<body bgcolor=fffff>'' @ CRLF @
     errnum @ '': '' @ shortmsg @ CRLF @
     ''<p>'' @ longmsg @ '': '' @ cause @ CRLF @
     ''<hr>OS-HW3 Web Server'' @ CRLF"

definition requestError ::
    "string \<Rightarrow> string \<Rightarrow> string \<Rightarrow> string \<Rightarrow> statistics \<Rightarrow> conn \<Rightarrow> conn res" where
  "requestError cause errnum shortmsg longmsg stats s =
     rbind (fits MAXBUF (error_body cause errnum shortmsg longmsg)) (\<lambda>body.
     rbind (fits MAXLINE (''HTTP/1.0 '' @ errnum @ '' '' @ shortmsg @ CRLF)) (\<lambda>buf.
     rbind (Rio_writen buf s) (\<lambda>s.
     rbind (Rio_writen (''Content-Type: text/html'' @ CRLF) s) (\<lambda>s.
     rbind (Rio_writen (''Content-Length: '' @ dec (int (length body)) @ CRLF) s) (\<lambda>s.
     rbind (buf_stats stats (-1)) (\<lambda>buf.
     rbind (fits MAXLINE (buf @ CRLF)) (\<lambda>buf.
     rbind (Rio_writen buf s) (\<lambda>s.
     Rio_writen body s))))))))"

section \<open>Reading the headers\<close>

text \<open>
  The loop of \<open>requestReadhdrs\<close>, over the function that reads a line: it reads into the buffer
  until that holds the empty line. At end of file the buffer stays as it is, and so
  does the outcome of the comparison: the loop has fuel.
\<close>

fun hdrs_loop :: "(string option \<Rightarrow> 's \<Rightarrow> (int \<times> string option \<times> 's) res) \<Rightarrow>
    nat \<Rightarrow> string option \<Rightarrow> 's \<Rightarrow> 's res" where
  "hdrs_loop readline n buf s =
     (if n = 0 then Inl Fuel
      else rbind (readline buf s) (\<lambda>(_, b, s1).
        case b of None \<Rightarrow> Inl Ub
        | Some l \<Rightarrow> if c_str l = CRLF then Inr s1 else hdrs_loop readline (n - 1) b s1))"

declare hdrs_loop.simps [simp del]

definition requestReadhdrs :: "nat \<Rightarrow> conn \<Rightarrow> conn res" where
  "requestReadhdrs n s = hdrs_loop (Rio_readlineb MAXLINE) n None s"

section \<open>Names\<close>

text \<open>Whether the content is static, the file name, and the arguments of a CGI program.\<close>

definition requestParseURI :: "string \<Rightarrow> (int \<times> string \<times> string option) res" where
  "requestParseURI uri =
     (if strstr uri ''..'' then Inr (1, ''./public/home.html'', None)
      else if \<not> strstr uri ''cgi'' then
        rbind (fits MAXLINE (''./public/'' @ uri)) (\<lambda>filename.
          if uri = [] then Inl Ub
          else if last uri = CHR ''/'' then
            rbind (fits MAXLINE (filename @ ''home.html'')) (\<lambda>f. Inr (1, f, Some []))
          else Inr (1, filename, Some []))
      else
        rbind (if CHR ''?'' \<in> set uri
               then rbind (fits MAXLINE (tl (dropWhile (\<lambda>c. c \<noteq> CHR ''?'') uri)))
                      (\<lambda>args. Inr (args, takeWhile (\<lambda>c. c \<noteq> CHR ''?'') uri))
               else Inr ([], uri)) (\<lambda>(cgiargs, path).
        rbind (fits MAXLINE (''./public/'' @ path)) (\<lambda>filename.
          Inr (0, filename, Some cgiargs))))"

definition requestGetFiletype :: "string \<Rightarrow> string" where
  "requestGetFiletype filename =
     (if strstr filename ''.html'' then ''text/html''
      else if strstr filename ''.gif'' then ''image/gif''
      else if strstr filename ''.jpg'' then ''image/jpeg''
      else ''text/plain'')"

section \<open>Serving\<close>

text \<open>The child process: what it writes to the connection; it ends itself on an error.\<close>

definition cgi_child :: "os \<Rightarrow> string \<Rightarrow> string \<Rightarrow> string" where
  "cgi_child os filename cgiargs =
     (case rbind (Setenv (setenv_rc os)) (\<lambda>_. Dup2 (dup2_rc os)) of
        Inl _ \<Rightarrow> []
      | Inr _ \<Rightarrow> (case exec os filename of None \<Rightarrow> [] | Some program \<Rightarrow> program cgiargs))"

definition requestServeDynamic :: "os \<Rightarrow> string \<Rightarrow> string \<Rightarrow> statistics \<Rightarrow> conn \<Rightarrow> conn res" where
  "requestServeDynamic os filename cgiargs stats s =
     rbind (Rio_writen (''HTTP/1.0 200 OK'' @ CRLF @ ''Server: OS-HW3 Web Server'' @ CRLF) s) (\<lambda>s.
     rbind (buf_stats stats 0) (\<lambda>buf.
     rbind (Rio_writen buf s) (\<lambda>s.
     rbind (Fork (fork_rc os)) (\<lambda>pid.
     rbind (WaitPid (wait_rc os)) (\<lambda>_.
     Inr (s\<lparr>sent := sent s @ cgi_child os filename cgiargs\<rparr>))))))"

definition requestServeStatic ::
    "os \<Rightarrow> string \<Rightarrow> int \<Rightarrow> string \<Rightarrow> statistics \<Rightarrow> conn \<Rightarrow> conn res" where
  "requestServeStatic os filename filesize contents stats s =
     rbind (Open (open_rc os filename)) (\<lambda>srcfd.
     rbind (Mmap (mmap_at os filesize)) (\<lambda>srcp.
     rbind (Close (close_rc os)) (\<lambda>_.
     rbind (fits MAXBUF (''HTTP/1.0 200 OK'' @ CRLF @ ''Server: OS-HW3 Web Server'' @ CRLF @
       ''Content-Length: '' @ dec filesize @ CRLF @
       ''Content-Type: '' @ requestGetFiletype filename @ CRLF)) (\<lambda>buf.
     rbind (Rio_writen buf s) (\<lambda>s.
     rbind (buf_stats stats 1) (\<lambda>buf.
     rbind (fits MAXBUF (buf @ CRLF)) (\<lambda>buf.
     rbind (Rio_writen buf s) (\<lambda>s.
     rbind (Rio_writen (take (nat filesize) contents) s) (\<lambda>s.
     rbind (Munmap (munmap_rc os)) (\<lambda>_. Inr s))))))))))"

section \<open>The handler\<close>

text \<open>The three tokens of the request line; an array no token was read into is indeterminate.\<close>

definition sscanf3 :: "string \<Rightarrow> string option \<times> string option \<times> string option" where
  "sscanf3 l = (let (m, r1) = token l; (u, r2) = token r1; (v, r3) = token r2;
       opt = (\<lambda>w. if w = [] then None else Some w)
     in (opt m, opt u, opt v))"

definition not_found :: string where "not_found = ''OS-HW3 Server could not find this file''"
definition not_readable :: string where "not_readable = ''OS-HW3 Server could not read this file''"
definition not_runnable :: string where
  "not_runnable = ''OS-HW3 Server could not run this CGI program''"
definition not_implemented :: string where
  "not_implemented = ''OS-HW3 Server does not implement this method''"

definition requestServe :: "os \<Rightarrow> statistics \<Rightarrow> string \<Rightarrow> conn \<Rightarrow> (int \<times> conn) res" where
  "requestServe os stats uri s =
     rbind (requestParseURI uri) (\<lambda>(is_static, filename, cgiargs).
     case files os filename of
       None \<Rightarrow> rbind (requestError filename ''404'' ''Not found'' not_found stats s)
                 (\<lambda>s. Inr (ERR404, s))
     | Some sbuf \<Rightarrow>
         if is_static \<noteq> 0 then
           (if \<not> st_reg sbuf \<or> \<not> st_rusr sbuf then
              rbind (requestError filename ''403'' ''Forbidden'' not_readable stats s)
                (\<lambda>s. Inr (ERR403, s))
            else rbind (requestServeStatic os filename (c_int (length (bytes sbuf))) (bytes sbuf) stats s)
                (\<lambda>s. Inr (is_static, s)))
         else
           (if \<not> st_reg sbuf \<or> \<not> st_xusr sbuf then
              rbind (requestError filename ''403'' ''Forbidden'' not_runnable stats s)
                (\<lambda>s. Inr (ERR403, s))
            else (case cgiargs of None \<Rightarrow> Inl Ub
              | Some args \<Rightarrow> rbind (requestServeDynamic os filename args stats s)
                (\<lambda>s. Inr (is_static, s)))))"

definition requestHandle :: "os \<Rightarrow> nat \<Rightarrow> statistics \<Rightarrow> conn \<Rightarrow> (int \<times> conn) res" where
  "requestHandle os n stats s =
     rbind (Rio_readlineb MAXLINE None (Rio_readinitb s)) (\<lambda>(_, buf, s).
     case buf of None \<Rightarrow> Inl Ub
     | Some l \<Rightarrow> (case sscanf3 (c_str l) of (meth, uri, version) \<Rightarrow>
       case meth of None \<Rightarrow> Inl Ub
       | Some m \<Rightarrow>
           if \<not> same_nocase m ''GET'' then
             rbind (requestError m ''501'' ''Not Implemented'' not_implemented stats s)
               (\<lambda>s. Inr (ERR501, s))
           else rbind (requestReadhdrs n s) (\<lambda>s.
             case uri of None \<Rightarrow> Inl Ub | Some u \<Rightarrow> requestServe os stats u s)))"

section \<open>The header loop over a source of lines\<close>

definition blank :: "string \<Rightarrow> bool" where
  "blank l \<longleftrightarrow> c_str l = CRLF"

context line_source
begin

lemma read_next:
  assumes "ok s" "lines_of k (rest s) = l # ls"
  obtains n s1 where "readline b s = Inr (n, Some l, s1)" "0 < n" "ok s1" "frame s1 = frame s"
    "lines_of k (rest s1) = ls"
proof -
  have ne: "rest s \<noteq> []" using assms(2) by auto
  have l: "l = line_of k (rest s)" "ls = lines_of k (drop (length l) (rest s))"
    using assms(2) lines_of_Cons [OF k_pos ne] by auto
  show thesis using at_line [OF assms(1) ne] l that by metis
qed

lemma hdrs_found:
  "ok s \<Longrightarrow> lines_of k (rest s) = hs @ l # post \<Longrightarrow> blank l \<Longrightarrow> \<forall>h\<in>set hs. \<not> blank h \<Longrightarrow> length hs < n \<Longrightarrow>
   \<exists>s1. hdrs_loop readline n b s = Inr s1 \<and> ok s1 \<and> frame s1 = frame s \<and> lines_of k (rest s1) = post"
proof (induction hs arbitrary: s b n)
  case Nil
  then have "lines_of k (rest s) = l # post" by simp
  from read_next [OF Nil.prems(1) this]
  obtain m s1 where "readline b s = Inr (m, Some l, s1)" "ok s1" "frame s1 = frame s"
    "lines_of k (rest s1) = post" by metis
  then show ?case using Nil by (subst hdrs_loop.simps) (simp add: blank_def)
next
  case (Cons h hs)
  from Cons.prems(2) have "lines_of k (rest s) = h # (hs @ l # post)" by simp
  from read_next [OF Cons.prems(1) this]
  obtain m s1 where s1: "readline b s = Inr (m, Some h, s1)" "ok s1" "frame s1 = frame s"
    "lines_of k (rest s1) = hs @ l # post" by metis
  have "length hs < n - 1" using Cons.prems(5) by simp
  from Cons.IH [OF s1(2,4) Cons.prems(3) _ this, of "Some h"]
  show ?case using s1 Cons.prems by (subst hdrs_loop.simps) (auto simp: blank_def)
qed

lemma hdrs_stuck:
  "ok s \<Longrightarrow> \<forall>h\<in>set (lines_of k (rest s)). \<not> blank h \<Longrightarrow>
   rest s \<noteq> [] \<or> (\<exists>l. b = Some l \<and> \<not> blank l) \<Longrightarrow> hdrs_loop readline n b s = Inl Fuel"
proof (induction n arbitrary: s b)
  case 0
  then show ?case by (simp add: hdrs_loop.simps)
next
  case (Suc n)
  show ?case
  proof (cases "rest s = []")
    case True
    then obtain l where l: "b = Some l" "\<not> blank l" using Suc.prems by auto
    obtain s1 where s1: "readline b s = Inr (0, b, s1)" "ok s1" "rest s1 = []"
      using at_end [OF Suc.prems(1) True] by auto
    have "hdrs_loop readline n b s1 = Inl Fuel" using Suc.IH [OF s1(2)] s1 l by simp
    then show ?thesis using s1 l by (subst hdrs_loop.simps) (simp add: blank_def)
  next
    case False
    define l where "l = line_of k (rest s)"
    have ls: "lines_of k (rest s) = l # lines_of k (drop (length l) (rest s))"
      using lines_of_Cons [OF k_pos False] by (simp add: l_def)
    obtain m s1 where s1: "readline b s = Inr (m, Some l, s1)" "ok s1"
      "lines_of k (rest s1) = lines_of k (drop (length l) (rest s))"
      by (rule read_next [OF Suc.prems(1) ls])
    have "\<not> blank l" "hdrs_loop readline n (Some l) s1 = Inl Fuel"
      using Suc.IH [OF s1(2), of "Some l"] s1(3) Suc.prems(2) ls by auto
    then show ?thesis using s1 by (subst hdrs_loop.simps) (simp add: blank_def)
  qed
qed

lemma hdrs_at_end:
  "ok s \<Longrightarrow> rest s = [] \<Longrightarrow> 0 < n \<Longrightarrow> hdrs_loop readline n None s = Inl Ub"
  using at_end [of s None] by (subst hdrs_loop.simps) auto

end

text \<open>C28: \<open>requestReadhdrs\<close> returns exactly when an empty line is still to come, as soon as it has
  read that line, for any way the bytes arrive. When the client closes the connection
  before, it never returns: the loop does not look at the end of file (no fuel is enough), and with
  nothing at all to read it compares an indeterminate buffer.\<close>

theorem requestReadhdrs_terminates:
  assumes "sound s" "k = MAXLINE - 1"
  shows "((\<exists>n s1. requestReadhdrs n s = Inr s1) \<longleftrightarrow> (\<exists>l\<in>set (lines_of k (content s)). blank l)) \<and>
    (\<forall>hs l post n. lines_of k (content s) = hs @ l # post \<and> blank l \<and> \<not> list_ex blank hs \<and>
       length hs < n \<longrightarrow> (\<exists>s1. requestReadhdrs n s = Inr s1 \<and> sent s1 = sent s \<and>
         lines_of k (content s1) = post)) \<and>
    (content s \<noteq> [] \<and> \<not> list_ex blank (lines_of k (content s)) \<longrightarrow>
       (\<forall>n. requestReadhdrs n s = Inl Fuel)) \<and>
    (content s = [] \<longrightarrow> (\<forall>n>0. requestReadhdrs n s = Inl Ub))"
proof -
  have found: "\<exists>s1. requestReadhdrs n s = Inr s1 \<and> sent s1 = sent s \<and> lines_of k (content s1) = post"
    if "lines_of k (content s) = hs @ l # post" "blank l" "\<not> list_ex blank hs" "length hs < n" for hs l post n
    using rio.hdrs_found [OF assms(1), of hs l post n None] that
    by (auto simp: requestReadhdrs_def assms(2) list_ex_iff)
  have stuck: "requestReadhdrs n s = Inl Fuel"
    if "content s \<noteq> []" "\<not> list_ex blank (lines_of k (content s))" for n
    using rio.hdrs_stuck [OF assms(1)] that by (auto simp: requestReadhdrs_def assms(2) list_ex_iff)
  have none: "requestReadhdrs n s = Inl Ub" if "content s = []" "0 < n" for n
    using rio.hdrs_at_end [OF assms(1)] that by (simp add: requestReadhdrs_def)
  have zero: "requestReadhdrs 0 s = Inl Fuel"
    by (simp add: requestReadhdrs_def hdrs_loop.simps)
  have "\<exists>n s1. requestReadhdrs n s = Inr s1" if l: "\<exists>l\<in>set (lines_of k (content s)). blank l"
  proof -
    obtain hs l post where "lines_of k (content s) = hs @ l # post" "blank l" "\<forall>h\<in>set hs. \<not> blank h"
      using split_list_first_prop [OF l] by blast
    then show ?thesis using found [of hs l post "Suc (length hs)"] by (auto simp: list_ex_iff)
  qed
  moreover have "\<exists>l\<in>set (lines_of k (content s)). blank l" if "requestReadhdrs n s = Inr s1" for n s1
    using that stuck [of n] none [of n] zero by (cases "n = 0"; cases "content s = []") (auto simp: list_ex_iff)
  ultimately show ?thesis using found stuck none by blast
qed

text \<open>A request that arrives in two pieces, and its headers alone.\<close>

definition demo_request :: conn where
  "demo_request = \<lparr>rds = [Data ''GET /x.gif HTTP/1.1\<newline>ho'', RIntr, Data (''st: h\<newline>'' @ CRLF)], wrs = [WIntr],
     sent = [], errno_intr = False, unread = []\<rparr>"

definition demo_headers :: conn where
  "demo_headers = demo_request\<lparr>rds := [Data ''ho'', RIntr, Data (''st: h\<newline>'' @ CRLF)]\<rparr>"

lemma demo_headers_sound: "sound demo_headers" "content demo_headers = ''host: h\<newline>'' @ CRLF"
  by (simp_all add: demo_headers_def demo_request_def sound_def content_def CRLF_def)

lemma lines_of_demo_headers: "lines_of 8191 (''host: h\<newline>'' @ CRLF) = [''host: h\<newline>'', CRLF]"
  using lines_of_whole [of "''host: h''" 8191 CRLF] lines_of_whole [of "[cr]" 8191 "[]"]
  by (simp add: CRLF_def)

lemma blank_demo: "\<not> blank ''host: h\<newline>''" "blank CRLF"
  by (simp_all add: blank_def CRLF_def)

theorem requestReadhdrs_terminates_witness:
  "\<exists>s1. requestReadhdrs 2 demo_headers = Inr s1 \<and> sent s1 = []"
proof -
  have "\<exists>s1. requestReadhdrs 2 demo_headers = Inr s1 \<and> sent s1 = sent demo_headers \<and>
      lines_of 8191 (content s1) = []"
    using requestReadhdrs_terminates [of demo_headers 8191] demo_headers_sound lines_of_demo_headers
      blank_demo
    by (auto simp: MAXLINE_def dest: spec [where x = "[''host: h\<newline>'']"])
  then show ?thesis by (auto simp: demo_headers_def demo_request_def)
qed

section \<open>Names stay inside the public directory\<close>

lemma not_dotdot_public:
  assumes "\<not> strstr u ''..''"
  shows "\<not> strstr (''./public/'' @ u) ''..''"
    and "last u = CHR ''/'' \<Longrightarrow> u \<noteq> [] \<Longrightarrow> \<not> strstr (''./public/'' @ u @ ''home.html'') ''..''"
proof -
  show *: "\<not> strstr (''./public/'' @ u) ''..''" using assms by (cases u) auto
  assume "last u = CHR ''/''" "u \<noteq> []"
  then obtain v where u: "u = v @ ''/''" by (metis append_butlast_last_id)
  have tail: "strstr (w @ ''/home.html'') ''..'' \<Longrightarrow> strstr (w @ ''/'') ''..''" for w
    by (induction w) (auto simp: take_Cons' split: if_splits)
  have e: "''/'' @ ''home.html'' = ''/home.html''" by simp
  show "\<not> strstr (''./public/'' @ u @ ''home.html'') ''..''"
    using tail [of "''./public/'' @ v"] * unfolding u append_assoc e by blast
qed

lemma cut_at_mark:
  "CHR ''?'' \<in> set u \<Longrightarrow>
   u = takeWhile (\<lambda>c. c \<noteq> CHR ''?'') u @ CHR ''?'' # tl (dropWhile (\<lambda>c. c \<noteq> CHR ''?'') u)"
  by (induction u) auto

lemma not_strstr_take: "\<not> strstr u p \<Longrightarrow> \<not> strstr (takeWhile P u) p"
  using not_strstr_part [of "[]" "takeWhile P u" "dropWhile P u" p] by simp

text \<open>The pure content of the function, when no buffer overflows.\<close>

definition resolve :: "string \<Rightarrow> int \<times> string \<times> string option" where
  "resolve uri =
     (if strstr uri ''..'' then (1, ''./public/home.html'', None)
      else if \<not> strstr uri ''cgi'' then
        (1, ''./public/'' @ uri @ (if last uri = CHR ''/'' then ''home.html'' else []), Some [])
      else if CHR ''?'' \<in> set uri then
        (0, ''./public/'' @ takeWhile (\<lambda>c. c \<noteq> CHR ''?'') uri,
         Some (tl (dropWhile (\<lambda>c. c \<noteq> CHR ''?'') uri)))
      else (0, ''./public/'' @ uri, Some []))"

lemma requestParseURI_Inr: "requestParseURI uri = Inr r \<Longrightarrow> r = resolve uri"
  by (auto simp: requestParseURI_def resolve_def res_simps split: if_splits)

lemma requestParseURI_resolve:
  assumes "uri \<noteq> []" "length uri + 19 \<le> MAXLINE"
  shows "requestParseURI uri = Inr (resolve uri)"
proof -
  have q: "length (tl (dropWhile (\<lambda>c. c \<noteq> CHR ''?'') uri)) < MAXLINE"
    using length_dropWhile_le [of "\<lambda>c. c \<noteq> CHR ''?''" uri] assms(2) by simp
  have t: "length (takeWhile (\<lambda>c. c \<noteq> CHR ''?'') uri) + 19 \<le> MAXLINE"
    using length_takeWhile_le [of "\<lambda>c. c \<noteq> CHR ''?''" uri] assms(2) by simp
  show ?thesis using assms q t
    by (auto simp: requestParseURI_def resolve_def simp del: length_tl)
qed

text \<open>C29: whatever URI a client sends, the file name the server computes starts with
  \<open>./public/\<close> and contains no \<open>..\<close>, so a request cannot name a file outside the
  public directory; it is dynamic content exactly for a URI with \<open>cgi\<close> in it, and then the
  name after the directory and the CGI arguments are the URI cut at its first
  question mark.\<close>

theorem requestParseURI_confined:
  assumes "requestParseURI uri = Inr (k, filename, cgiargs)"
  shows "prefix ''./public/'' filename \<and> \<not> strstr filename ''..'' \<and>
    (k = DYNAMIC \<longleftrightarrow> strstr uri ''cgi'' \<and> \<not> strstr uri ''..'') \<and> (k = DYNAMIC \<or> k = STATIC) \<and>
    (k = DYNAMIC \<longrightarrow> (\<exists>args. cgiargs = Some args \<and>
       (CHR ''?'' \<notin> set uri \<and> args = [] \<and> uri = drop 9 filename \<or>
        CHR ''?'' \<notin> set (drop 9 filename) \<and> uri = drop 9 filename @ ''?'' @ args)))"
proof -
  let ?p = "takeWhile (\<lambda>c. c \<noteq> CHR ''?'') uri"
  have r: "(k, filename, cgiargs) = resolve uri" using requestParseURI_Inr [OF assms] .
  have mark: "CHR ''?'' \<notin> set ?p" by (auto dest: set_takeWhileD)
  have "\<not> strstr ''./public/home.html'' ''..''" by simp
  moreover have "\<not> strstr (''./public/'' @ ?p) ''..''" if "\<not> strstr uri ''..''"
    by (rule not_dotdot_public(1) [OF not_strstr_take [OF that]])
  moreover have "uri \<noteq> []" if "\<not> strstr uri ''..''" "\<not> strstr uri ''cgi''"
    using assms that by (auto simp: requestParseURI_def res_simps)
  ultimately have "\<not> strstr filename ''..''"
    using r not_dotdot_public [of uri]
    by (auto simp: resolve_def simp del: strstr.simps split: if_splits)
  then show ?thesis using r mark cut_at_mark [of uri]
    by (auto simp: resolve_def DYNAMIC_def STATIC_def prefix_def simp del: strstr.simps split: if_splits)
qed

theorem requestParseURI_confined_witness:
  "\<exists>f a. requestParseURI ''cgi/../x'' = Inr (STATIC, f, a) \<and> prefix ''./public/'' f \<and> \<not> strstr f ''..''"
  using requestParseURI_confined [of "''cgi/../x''" 1 "''./public/home.html''" None]
  by (simp add: requestParseURI_def STATIC_def)

text \<open>C30: a URI of at most 8173 characters is always resolved; a static one of 8183 characters or more
  (the request line leaves room for 8187) is written past the end of the array for
  the file name.\<close>

theorem requestParseURI_bounds:
  "(uri \<noteq> [] \<and> length uri \<le> 8173 \<longrightarrow> requestParseURI uri = Inr (resolve uri)) \<and>
   (\<not> strstr uri ''cgi'' \<and> \<not> strstr uri ''..'' \<and> 8183 \<le> length uri \<longrightarrow> requestParseURI uri = Inl Ub)"
proof -
  have "fits MAXLINE (''./public/'' @ uri) = Inl Ub" if "8183 \<le> length uri"
    using that by (intro fits_Ub) (simp add: MAXLINE_def)
  then show ?thesis using requestParseURI_resolve [of uri]
    by (auto simp: requestParseURI_def MAXLINE_def simp del: strstr.simps)
qed

lemma not_strstr_replicate: "c \<noteq> hd p \<Longrightarrow> p \<noteq> [] \<Longrightarrow> \<not> strstr (replicate n c) p"
  by (cases p) (auto simp: strstr_iff append_eq_append_conv2 replicate_app_Cons_same
    dest!: arg_cong [where f = set] split: if_splits)

theorem requestParseURI_bounds_witness:
  "requestParseURI (replicate 8183 CHR ''x'') = Inl Ub \<and>
   requestParseURI ''x'' = Inr (STATIC, ''./public/x'', Some [])"
  using requestParseURI_bounds [of "replicate 8183 CHR ''x''"] requestParseURI_bounds [of "''x''"]
  by (simp add: not_strstr_replicate resolve_def STATIC_def)

section \<open>What the handler promises\<close>

text \<open>The counters are far from overflow and the times are those of a 64-bit \<open>timeval\<close>.\<close>

definition int_ok :: "int \<Rightarrow> bool" where "int_ok i \<longleftrightarrow> \<bar>i\<bar> < 2 ^ 31 - 1"
definition time_ok :: "timeval \<Rightarrow> bool" where
  "time_ok t \<longleftrightarrow> \<bar>tv_sec t\<bar> < 2 ^ 63 \<and> \<bar>tv_usec t\<bar> < 2 ^ 63"

definition stats_ok :: "statistics \<Rightarrow> bool" where
  "stats_ok st \<longleftrightarrow> time_ok (arrival_time st) \<and> time_ok (dispatch_interval st) \<and> int_ok (thread_id st) \<and>
     int_ok (requests_count st) \<and> int_ok (static_requests_count st) \<and> int_ok (dynamic_requests_count st)"

definition header :: "string \<Rightarrow> string \<Rightarrow> string" where
  "header name value = name @ value @ CRLF"

definition stats_text :: "statistics \<Rightarrow> int \<Rightarrow> string" where
  "stats_text stats is_static =
     header ''Stat-Req-Arrival:: '' (dec (tv_sec (arrival_time stats)) @ ''.'' @ dec06 (tv_usec (arrival_time stats))) @
     header ''Stat-Req-Dispatch:: '' (dec (tv_sec (dispatch_interval stats)) @ ''.'' @ dec06 (tv_usec (dispatch_interval stats))) @
     header ''Stat-Thread-Id:: '' (dec (thread_id stats)) @
     header ''Stat-Thread-Count:: '' (dec (requests_count stats + 1)) @
     header ''Stat-Thread-Static:: '' (dec (static_requests_count stats + (if is_static = 1 then 1 else 0))) @
     header ''Stat-Thread-Dynamic:: '' (dec (dynamic_requests_count stats + (if is_static = 0 then 1 else 0)))"

lemma length_dec_int: "\<bar>i\<bar> \<le> 2 ^ 31 \<Longrightarrow> length (dec i) \<le> 11"
  using length_dec [of 10 i] by simp

lemma length_dec_long: "\<bar>i\<bar> < 2 ^ 63 \<Longrightarrow> length (dec i) \<le> 20"
  using length_dec [of 19 i] by simp

lemma buf_stats_ok:
  assumes "stats_ok stats"
  shows "buf_stats stats k = Inr (stats_text stats k) \<and> length (stats_text stats k) \<le> 300"
proof -
  note bounds = assms [unfolded stats_ok_def int_ok_def time_ok_def]
  have longs: "length (dec (tv_sec (arrival_time stats))) \<le> 20"
    "length (dec (tv_sec (dispatch_interval stats))) \<le> 20"
    "length (dec06 (tv_usec (arrival_time stats))) \<le> 21"
    "length (dec06 (tv_usec (dispatch_interval stats))) \<le> 21"
    using bounds by (auto intro!: length_dec_long length_dec06)
  have ints: "length (dec (thread_id stats)) \<le> 11" "length (dec (requests_count stats + 1)) \<le> 11"
    "length (dec (static_requests_count stats + (if k = 1 then 1 else 0))) \<le> 11"
    "length (dec (dynamic_requests_count stats + (if k = 0 then 1 else 0))) \<le> 11"
    using bounds by (auto intro!: length_dec_int)
  have len: "length (stats_text stats k) \<le> 300"
    using add_mono [OF add_mono [OF add_mono [OF longs(1,2)] add_mono [OF longs(3,4)]]
        add_mono [OF add_mono [OF ints(1,2)] add_mono [OF ints(3,4)]]]
    unfolding stats_text_def header_def length_append length_CRLF by simp
  have "as_int (requests_count stats + 1) = Inr (requests_count stats + 1)"
    "as_int (static_requests_count stats + (if k = 1 then 1 else 0)) =
       Inr (static_requests_count stats + (if k = 1 then 1 else 0))"
    "as_int (dynamic_requests_count stats + (if k = 0 then 1 else 0)) =
       Inr (dynamic_requests_count stats + (if k = 0 then 1 else 0))"
    using bounds by (auto simp: as_int_def)
  moreover have "length (stats_text stats k) < MAXLINE" using len by (simp add: MAXLINE_def)
  then have "fits MAXLINE (stats_text stats k) = Inr (stats_text stats k)" by simp
  ultimately show ?thesis using len
    by (simp only: buf_stats_def rbind.simps stats_text_def header_def append_assoc simp_thms)
qed

text \<open>The form of a reply: status line, header lines, an empty line, the body.\<close>

definition http_reply :: "string \<Rightarrow> string \<Rightarrow> string \<Rightarrow> string" where
  "http_reply status headers body = ''HTTP/1.0 '' @ status @ CRLF @ headers @ CRLF @ body"

definition content_length :: "string \<Rightarrow> string" where
  "content_length body = header ''Content-Length: '' (dec (int (length body)))"

definition error_reply :: "string \<Rightarrow> string \<Rightarrow> string \<Rightarrow> string \<Rightarrow> statistics \<Rightarrow> string" where
  "error_reply cause errnum shortmsg longmsg stats =
     (let body = error_body cause errnum shortmsg longmsg in
      http_reply (errnum @ '' '' @ shortmsg)
        (header ''Content-Type: '' ''text/html'' @ content_length body @ stats_text stats (-1)) body)"

definition server_header :: string where
  "server_header = header ''Server: '' ''OS-HW3 Web Server''"

definition static_reply :: "string \<Rightarrow> string \<Rightarrow> statistics \<Rightarrow> string" where
  "static_reply filename contents stats =
     http_reply ''200 OK''
       (server_header @ content_length contents @
        header ''Content-Type: '' (requestGetFiletype filename) @ stats_text stats 1) contents"

text \<open>For a CGI program the server writes the status line and two headers; the program writes the
  other headers, the empty line and the body.\<close>

definition dynamic_reply :: "string \<Rightarrow> statistics \<Rightarrow> string" where
  "dynamic_reply output stats =
     ''HTTP/1.0 200 OK'' @ CRLF @ server_header @ stats_text stats 0 @ output"

definition reply :: "os \<Rightarrow> statistics \<Rightarrow> string \<Rightarrow> string \<Rightarrow> int \<times> string" where
  "reply os stats m uri =
     (if \<not> same_nocase m ''GET'' then
        (ERR501, error_reply m ''501'' ''Not Implemented'' not_implemented stats)
      else (case resolve uri of (k, filename, args) \<Rightarrow>
        (case files os filename of
           None \<Rightarrow> (ERR404, error_reply filename ''404'' ''Not found'' not_found stats)
         | Some f \<Rightarrow>
             if k = STATIC then
               (if st_reg f \<and> st_rusr f then (STATIC, static_reply filename (bytes f) stats)
                else (ERR403, error_reply filename ''403'' ''Forbidden'' not_readable stats))
             else
               (if st_reg f \<and> st_xusr f
                then (DYNAMIC, dynamic_reply (cgi_child os filename (the args)) stats)
                else (ERR403, error_reply filename ''403'' ''Forbidden'' not_runnable stats)))))"

lemma writen_then:
  assumes "sound_wrs (wrs s)"
    "\<And>s1. sound_wrs (wrs s1) \<Longrightarrow> sent s1 = sent s @ bs \<Longrightarrow> \<exists>t. f s1 = Inr t \<and> Q t"
  shows "\<exists>t. rbind (Rio_writen bs s) f = Inr t \<and> Q t"
  using Rio_writen_sound [OF assms(1), of bs] assms(2) by auto

lemma writen_last:
  assumes "sound_wrs (wrs s)" "sent s @ bs = sent0 @ r"
  shows "\<exists>t. Rio_writen bs s = Inr t \<and> sound_wrs (wrs t) \<and> sent t = sent0 @ r"
  using Rio_writen_sound [OF assms(1), of bs] assms(2) by auto

lemma buf_stats_line:
  assumes "stats_ok stats" "8000 \<le> cap"
  shows "fits cap (stats_text stats k @ CRLF) = Inr (stats_text stats k @ CRLF)"
  using buf_stats_ok [OF assms(1), of k] assms(2) by simp

lemmas reply_text = http_reply_def header_def content_length_def server_header_def

lemma requestError_sends:
  assumes "sound_wrs (wrs s)" "stats_ok stats" "length (error_body cause errnum shortmsg longmsg) < MAXBUF"
    "length errnum + length shortmsg < 1000"
  shows "\<exists>t. requestError cause errnum shortmsg longmsg stats s = Inr t \<and> sound_wrs (wrs t) \<and>
    sent t = sent s @ error_reply cause errnum shortmsg longmsg stats"
proof -
  define body where "body = error_body cause errnum shortmsg longmsg"
  have f: "fits MAXBUF body = Inr body" using assms(3) by (simp add: body_def)
  have l: "fits MAXLINE (''HTTP/1.0 '' @ errnum @ '' '' @ shortmsg @ CRLF) =
      Inr (''HTTP/1.0 '' @ errnum @ '' '' @ shortmsg @ CRLF)"
    using assms(4) by (intro fits_Inr) (simp add: MAXLINE_def)
  have st: "buf_stats stats (-1) = Inr (stats_text stats (-1))" using buf_stats_ok [OF assms(2)] by simp
  have b: "fits MAXLINE (stats_text stats (-1) @ CRLF) = Inr (stats_text stats (-1) @ CRLF)"
    using buf_stats_line [OF assms(2)] by (simp add: MAXLINE_def)
  show ?thesis
    unfolding requestError_def error_reply_def Let_def body_def [symmetric] f l rbind.simps reply_text
    by (intro writen_then assms(1)) (auto simp: st b intro!: writen_then writen_last)
qed

text \<open>The calls the handler makes on behalf of a regular file succeed.\<close>

definition calm :: "os \<Rightarrow> bool" where
  "calm os \<longleftrightarrow> (\<forall>f. 0 \<le> open_rc os f) \<and> (\<forall>n>0. mmap_at os n \<noteq> MAP_FAILED) \<and> 0 \<le> close_rc os \<and>
     0 \<le> munmap_rc os \<and> 0 \<le> fork_rc os \<and> 0 \<le> wait_rc os"

lemma length_filetype: "length (requestGetFiletype f) \<le> 10"
  by (simp add: requestGetFiletype_def)

lemma requestServeStatic_sends:
  assumes "sound_wrs (wrs s)" "stats_ok stats" "calm os" "contents \<noteq> []" "length contents < 2 ^ 31"
  shows "\<exists>t. requestServeStatic os filename (c_int (length contents)) contents stats s = Inr t \<and>
    sound_wrs (wrs t) \<and> sent t = sent s @ static_reply filename contents stats"
proof -
  have sz: "c_int (length contents) = int (length contents)" "0 < int (length contents)"
    using assms(4,5) by (auto intro: c_int_small)
  have "0 \<le> open_rc os filename" using assms(3) by (simp add: calm_def)
  then have calls: "Open (open_rc os filename) = Inr (open_rc os filename)" "Close (close_rc os) = Inr ()"
    "Munmap (munmap_rc os) = Inr ()"
    "Mmap (mmap_at os (int (length contents))) = Inr (mmap_at os (int (length contents)))"
    using assms(3) sz by (simp_all add: calm_def wrapper_defs not_less)
  have d: "length (dec (int (length contents))) \<le> 11" using assms(5) by (intro length_dec_int) simp
  have head: "fits MAXBUF (''HTTP/1.0 200 OK'' @ CRLF @ ''Server: OS-HW3 Web Server'' @ CRLF @
       ''Content-Length: '' @ dec (int (length contents)) @ CRLF @
       ''Content-Type: '' @ requestGetFiletype filename @ CRLF) =
     Inr (''HTTP/1.0 200 OK'' @ CRLF @ ''Server: OS-HW3 Web Server'' @ CRLF @
       ''Content-Length: '' @ dec (int (length contents)) @ CRLF @
       ''Content-Type: '' @ requestGetFiletype filename @ CRLF)"
    using d length_filetype [of filename] by (intro fits_Inr) (simp add: MAXBUF_def)
  have st: "buf_stats stats 1 = Inr (stats_text stats 1)" using buf_stats_ok [OF assms(2)] by simp
  have b: "fits MAXBUF (stats_text stats 1 @ CRLF) = Inr (stats_text stats 1 @ CRLF)"
    using buf_stats_line [OF assms(2)] by (simp add: MAXBUF_def)
  have whole: "take (nat (int (length contents))) contents = contents" by simp
  show ?thesis
    unfolding requestServeStatic_def static_reply_def sz(1) calls rbind.simps head st b whole reply_text
    by (intro writen_then assms(1)) (auto simp: st b calls intro!: writen_then)
qed

lemma requestServeDynamic_sends:
  assumes "sound_wrs (wrs s)" "stats_ok stats" "calm os"
  shows "\<exists>t. requestServeDynamic os filename args stats s = Inr t \<and>
    sound_wrs (wrs t) \<and> sent t = sent s @ dynamic_reply (cgi_child os filename args) stats"
proof -
  have st: "buf_stats stats 0 = Inr (stats_text stats 0)" using buf_stats_ok [OF assms(2)] by simp
  have calls: "Fork (fork_rc os) = Inr (fork_rc os)" "WaitPid (wait_rc os) = Inr (wait_rc os)"
    using assms(3) by (auto simp: calm_def wrapper_defs)
  show ?thesis
    unfolding requestServeDynamic_def dynamic_reply_def reply_text
    by (intro writen_then assms(1)) (auto simp: st calls intro!: writen_then)
qed

lemma length_error_body:
  "length (error_body cause errnum shortmsg longmsg) =
   length cause + length errnum + length shortmsg + length longmsg + 89"
  by (simp add: error_body_def)

lemma length_resolve:
  "resolve u = (k, f, a) \<Longrightarrow> length f \<le> length u + 18"
  using length_takeWhile_le [of "\<lambda>c. c \<noteq> CHR ''?''" u]
  by (auto simp: resolve_def split: if_splits)

lemma resolve_cases:
  assumes "resolve u = (k, f, a)"
  shows "k = STATIC \<or> k = DYNAMIC \<and> (\<exists>args. a = Some args)"
  using assms by (auto simp: resolve_def STATIC_def DYNAMIC_def split: if_splits)

text \<open>Every file that can be served as static content is mapped in one piece.\<close>

definition mappable :: "os \<Rightarrow> bool" where
  "mappable os \<longleftrightarrow> (\<forall>name f. files os name = Some f \<longrightarrow> bytes f \<noteq> [] \<and> length (bytes f) < 2 ^ 31)"

lemma requestError_reply:
  assumes "sound_wrs (wrs s)" "stats_ok stats" "length cause \<le> 7950"
    "length errnum + length shortmsg \<le> 18" "length longmsg \<le> 45"
  shows "\<exists>s1. rbind (requestError cause errnum shortmsg longmsg stats s) (\<lambda>s. Inr (code, s)) = Inr (code, s1) \<and>
    sent s1 = sent s @ error_reply cause errnum shortmsg longmsg stats"
  using requestError_sends [OF assms(1,2), of cause errnum shortmsg longmsg] assms(3-5)
  by (auto simp: length_error_body MAXBUF_def)

lemma messages_short:
  "length not_found \<le> 45" "length not_readable \<le> 45" "length not_runnable \<le> 45" "length not_implemented \<le> 45"
  by (simp_all add: not_found_def not_readable_def not_runnable_def not_implemented_def)

lemma requestServe_replies:
  assumes "sound_wrs (wrs s)" "stats_ok stats" "calm os" "mappable os" "same_nocase m ''GET''"
    "u \<noteq> []" "length u \<le> 7900"
  shows "\<exists>s1. requestServe os stats u s = Inr (fst (reply os stats m u), s1) \<and>
    sent s1 = sent s @ snd (reply os stats m u)"
proof -
  obtain k f a where r: "resolve u = (k, f, a)" by (metis prod_cases3)
  have p: "requestParseURI u = Inr (k, f, a)"
    using requestParseURI_resolve [OF assms(6)] assms(7) r by (simp add: MAXLINE_def)
  have len: "length f \<le> 7950" using length_resolve [OF r] assms(7) by simp
  note err = requestError_reply [OF assms(1,2) len]
  have code: "STATIC \<noteq> 0" "DYNAMIC = 0" "DYNAMIC \<noteq> STATIC" by (simp_all add: STATIC_def DYNAMIC_def)
  show ?thesis
  proof (cases "files os f")
    case None
    then show ?thesis using err [of "''404''" "''Not found''" not_found ERR404] assms(5)
      by (simp add: requestServe_def reply_def r p messages_short)
  next
    case (Some i)
    have contents: "bytes i \<noteq> []" "length (bytes i) < 2 ^ 31" using assms(4) Some by (auto simp: mappable_def)
    from resolve_cases [OF r] show ?thesis
    proof (elim disjE conjE exE)
      assume k: "k = STATIC"
      show ?thesis
      proof (cases "st_reg i \<and> st_rusr i")
        case True
        then show ?thesis
          using requestServeStatic_sends [OF assms(1-3) contents, of f] Some k code assms(5)
          by (auto simp: requestServe_def reply_def r p)
      next
        case False
        then show ?thesis using err [of "''403''" "''Forbidden''" not_readable ERR403] Some k code assms(5)
          by (auto simp: requestServe_def reply_def r p messages_short)
      qed
    next
      fix args assume k: "k = DYNAMIC" and a: "a = Some args"
      show ?thesis
      proof (cases "st_reg i \<and> st_xusr i")
        case True
        then show ?thesis
          using requestServeDynamic_sends [OF assms(1-3), of f args] Some k a code assms(5)
          by (auto simp: requestServe_def reply_def r p)
      next
        case False
        then show ?thesis using err [of "''403''" "''Forbidden''" not_runnable ERR403] Some k a code assms(5)
          by (auto simp: requestServe_def reply_def r p messages_short)
      qed
    qed
  qed
qed

lemma requestHandle_sends:
  assumes "sound s" "sound_wrs (wrs s)" "stats_ok stats" "calm os" "mappable os"
    "lines_of (MAXLINE - 1) (stream (rds s)) = l # hs @ CRLF # rest" "\<not> list_ex blank hs" "length hs < n"
    "sscanf3 (c_str l) = (Some m, Some u, Some v)" "length m \<le> 7900" "length u \<le> 7900"
  shows "\<exists>s1. requestHandle os n stats s = Inr (fst (reply os stats m u), s1) \<and>
    sent s1 = sent s @ snd (reply os stats m u)"
proof -
  have init: "sound (Rio_readinitb s)" "content (Rio_readinitb s) = stream (rds s)"
    "wrs (Rio_readinitb s) = wrs s" "sent (Rio_readinitb s) = sent s"
    using assms(1) by (auto simp: Rio_readinitb_def rio_readinitb_def sound_def content_def)
  obtain c s2 where line: "Rio_readlineb MAXLINE None (Rio_readinitb s) = Inr (c, Some l, s2)"
    "sound s2" "lines_of (MAXLINE - 1) (content s2) = hs @ CRLF # rest" "wrs s2 = wrs s" "sent s2 = sent s"
  proof (rule rio.read_next [of "Rio_readinitb s" l "hs @ CRLF # rest" None])
    show "sound (Rio_readinitb s)" "lines_of (MAXLINE - 1) (content (Rio_readinitb s)) = l # hs @ CRLF # rest"
      using assms(6) init by simp_all
  qed (use init that in auto)
  have crlf: "blank CRLF" by (rule blank_demo(2))
  have u: "u \<noteq> []" using assms(9) by (auto simp: sscanf3_def Let_def split: prod.splits if_splits)
  show ?thesis
  proof (cases "same_nocase m ''GET''")
    case True
    obtain s3 where s3: "requestReadhdrs n s2 = Inr s3" "wrs s3 = wrs s" "sent s3 = sent s"
      using rio.hdrs_found [OF line(2,3) crlf, of n None] assms(7,8) line
      by (auto simp: requestReadhdrs_def list_ex_iff)
    then show ?thesis
      using requestServe_replies [OF _ assms(3-5) True u assms(11), of s3] assms(2,9) line True
      by (auto simp: requestHandle_def)
  next
    case False
    have len: "length m \<le> 7950" using assms(10) by simp
    have "sound_wrs (wrs s2)" using assms(2) line by simp
    from requestError_reply [OF this assms(3) len, of "''501''" "''Not Implemented''" not_implemented ERR501]
    show ?thesis using False assms(9) line
      by (auto simp: requestHandle_def reply_def messages_short)
  qed
qed


section \<open>A server on which the hypotheses hold\<close>

definition demo_os :: os where
  "demo_os = \<lparr>files = [''./public//x.gif'' \<mapsto> \<lparr>st_reg = True, st_rusr = True, st_xusr = False, bytes = ''GIF89a''\<rparr>],
     open_rc = (\<lambda>_. 3), mmap_at = (\<lambda>n. if 0 < n then 4096 else MAP_FAILED), close_rc = 0, munmap_rc = 0,
     fork_rc = 7, wait_rc = 7, setenv_rc = 0, dup2_rc = 0, exec = (\<lambda>_. None)\<rparr>"

definition zero_time :: timeval where "zero_time = \<lparr>tv_sec = 0, tv_usec = 0\<rparr>"

definition demo_stats :: statistics where
  "demo_stats = \<lparr>arrival_time = zero_time, dispatch_interval = zero_time, thread_id = 1,
     requests_count = 4, static_requests_count = 3, dynamic_requests_count = 1\<rparr>"

lemma demo_os_ok: "calm demo_os" "mappable demo_os" "stats_ok demo_stats"
  by (simp_all add: demo_os_def calm_def mappable_def MAP_FAILED_def demo_stats_def stats_ok_def
    time_ok_def int_ok_def zero_time_def)

lemma demo_request_ok:
  "sound demo_request" "sound_wrs (wrs demo_request)" "sent demo_request = []"
  "lines_of 8191 (stream (rds demo_request)) = ''GET /x.gif HTTP/1.1\<newline>'' # ''host: h\<newline>'' # [CRLF]"
proof -
  have "stream (rds demo_request) = ''GET /x.gif HTTP/1.1'' @ nl # ''host: h\<newline>'' @ CRLF"
    by (simp add: demo_request_def)
  then show "lines_of 8191 (stream (rds demo_request)) = ''GET /x.gif HTTP/1.1\<newline>'' # ''host: h\<newline>'' # [CRLF]"
    using lines_of_whole [of "''GET /x.gif HTTP/1.1''" 8191 "''host: h\<newline>'' @ CRLF"] lines_of_demo_headers
    by simp
qed (simp_all add: demo_request_def sound_def sound_wrs_def CRLF_def)


section \<open>How a client can bring the server down\<close>

text \<open>A request whose method is not GET and has 8041 characters or more (the line may have
  8191) overflows the array in which the 501 reply is built.\<close>

theorem long_method_overflows:
  assumes "sound s" "lines_of (MAXLINE - 1) (stream (rds s)) = l # rest"
    "sscanf3 (c_str l) = (Some m, u, v)" "\<not> same_nocase m ''GET''" "8041 \<le> length m"
  shows "requestHandle os n stats s = Inl Ub"
proof -
  have init: "sound (Rio_readinitb s)" "content (Rio_readinitb s) = stream (rds s)"
    using assms(1) by (auto simp: Rio_readinitb_def rio_readinitb_def sound_def content_def)
  obtain c s2 where line: "Rio_readlineb MAXLINE None (Rio_readinitb s) = Inr (c, Some l, s2)"
  proof (rule rio.read_next [of "Rio_readinitb s" l rest None])
    show "sound (Rio_readinitb s)" "lines_of (MAXLINE - 1) (content (Rio_readinitb s)) = l # rest"
      using assms(2) init by simp_all
  qed (use that in auto)
  have "MAXBUF \<le> length (error_body m ''501'' ''Not Implemented'' not_implemented)"
    using assms(5) by (simp add: length_error_body MAXBUF_def not_implemented_def)
  then have "fits MAXBUF (error_body m ''501'' ''Not Implemented'' not_implemented) = Inl Ub"
    by (rule fits_Ub)
  then show ?thesis using line assms(3,4) by (simp add: requestHandle_def requestError_def)
qed

theorem long_method_overflows_witness:
  "requestHandle demo_os 1 demo_stats
     (demo_request\<lparr>rds := [Data (replicate 8100 CHR ''x'' @ ''\<newline>'')]\<rparr>) = Inl Ub"
proof -
  let ?m = "replicate 8100 CHR ''x''"
  have l: "lines_of (MAXLINE - 1) (?m @ ''\<newline>'') = [?m @ ''\<newline>'']"
    using lines_of_whole [of ?m "MAXLINE - 1" "[]"] by (simp add: MAXLINE_def)
  have "\<forall>c\<in>set ?m. \<not> is_space c" "is_space nl" "?m \<noteq> []" by (auto simp: is_space_def)
  then have t: "token (?m @ ''\<newline>'') = (?m, ''\<newline>'')" by (intro token_word(1))
  have e: "token ''\<newline>'' = ([], [])" "token [] = ([], [])" by (simp_all add: token_def is_space_def)
  have "c_str (?m @ ''\<newline>'') = ?m @ ''\<newline>''" by (intro c_str_id) auto
  then have sc: "sscanf3 (c_str (?m @ ''\<newline>'')) = (Some ?m, None, None)"
    using \<open>?m \<noteq> []\<close> by (simp add: sscanf3_def t e)
  have "length (map lower ?m) \<noteq> length (map lower ''GET'')" by simp
  then have g: "\<not> same_nocase ?m ''GET''" unfolding same_nocase_def by metis
  show ?thesis
    by (rule long_method_overflows [where l = "?m @ ''\<newline>''" and m = ?m])
      (use l sc g in \<open>simp_all add: sound_def\<close>)
qed

text \<open>One connection can end the whole server: a worker whose \<open>read\<close> fails (a client that
  resets its connection) or whose first \<open>write\<close> fails exits the process, and so does a request
  for an empty file, whose mapping \<open>mmap\<close> refuses; no reply is sent.\<close>

theorem requestHandle_exits:
  "requestHandle os n stats (s\<lparr>rds := RFail # es\<rparr>) = Inl (Exit 0) \<and>
   (files os filename = Some f \<and> st_reg f \<and> st_rusr f \<and> bytes f = [] \<and> mmap_at os 0 = MAP_FAILED \<and>
      0 \<le> open_rc os filename \<and> requestParseURI uri = Inr (STATIC, filename, a) \<longrightarrow>
      requestServe os stats uri s = Inl (Exit 0)) \<and>
   (wrs s = WFail # ws \<and> calm os \<and> contents \<noteq> [] \<and> length contents < 2 ^ 31 \<longrightarrow>
      requestServeStatic os filename (c_int (length contents)) contents stats s = Inl (Exit 0))"
proof (intro conjI impI)
  have "rio_read 1 (Rio_readinitb (s\<lparr>rds := RFail # es\<rparr>)) =
      (-1, [], (Rio_readinitb (s\<lparr>rds := RFail # es\<rparr>))\<lparr>rds := es, errno_intr := False\<rparr>)"
    by (subst rio_read.simps) (simp add: c_read_def Rio_readinitb_def rio_readinitb_def)
  then show "requestHandle os n stats (s\<lparr>rds := RFail # es\<rparr>) = Inl (Exit 0)"
    by (simp add: requestHandle_def Rio_readlineb_def rio_readlineb_def line_loop.simps MAXLINE_def
      unix_error_def)
next
  assume "files os filename = Some f \<and> st_reg f \<and> st_rusr f \<and> bytes f = [] \<and> mmap_at os 0 = MAP_FAILED \<and>
      0 \<le> open_rc os filename \<and> requestParseURI uri = Inr (STATIC, filename, a)"
  then show "requestServe os stats uri s = Inl (Exit 0)"
    by (simp add: requestServe_def STATIC_def requestServeStatic_def wrapper_defs c_int_def)
next
  assume a: "wrs s = WFail # ws \<and> calm os \<and> contents \<noteq> [] \<and> length contents < 2 ^ 31"
  then have sz: "c_int (length contents) = int (length contents)" "0 < int (length contents)"
    by (auto intro: c_int_small)
  have d: "length (dec (int (length contents))) \<le> 11" using a by (intro length_dec_int) simp
  have w: "Rio_writen (c # bs) s = Inl (Exit 0)" for c bs
    using a by (simp add: Rio_writen_def rio_writen_def writen_loop.simps c_write_def unix_error_def)
  show "requestServeStatic os filename (c_int (length contents)) contents stats s = Inl (Exit 0)"
    using a sz d length_filetype [of filename]
    by (auto simp: requestServeStatic_def calm_def wrapper_defs w fits_def MAXBUF_def not_less)
qed

theorem requestHandle_exits_witness:
  "requestServe (demo_os\<lparr>files := (\<lambda>_. Some \<lparr>st_reg = True, st_rusr = True, st_xusr = False, bytes = []\<rparr>)\<rparr>)
     demo_stats ''/x'' demo_request = Inl (Exit 0)"
  using requestHandle_exits [where os = "demo_os\<lparr>files := (\<lambda>_. Some \<lparr>st_reg = True, st_rusr = True, st_xusr = False, bytes = []\<rparr>)\<rparr>"
      and stats = demo_stats and s = demo_request and filename = "''./public//x''" and uri = "''/x''"
      and f = "\<lparr>st_reg = True, st_rusr = True, st_xusr = False, bytes = []\<rparr>" and a = "Some []"]
    requestParseURI_resolve [of "''/x''"]
  by (simp add: demo_os_def resolve_def STATIC_def MAXLINE_def)

end
