(* ===== verification/Ring.thy ===== *)
theory Ring
  imports Request "HOL-Library.Multiset"
begin

text \<open>
  The request queue of \<^verbatim>\<open>web_server/server.c\<close>: an array used as a ring, what the master and the
  workers do to it, and the compaction of \<open>drop_random\<close>. The queue
  abstracts to the list of its requests, oldest first; the interface \<open>bounded_fifo\<close> is what
  the rest of the server relies on.
\<close>

section \<open>Data\<close>

record request =
  connfd :: int
  req_arrival_time :: timeval
  req_dispatch_interval :: timeval

record requests_queue =
  items :: "request list"
  head :: nat
  tail :: nat
  qsize :: nat

definition createRequestQueue :: "request list \<Rightarrow> requests_queue" where
  "createRequestQueue mem = \<lparr>items = mem, head = 0, tail = 0, qsize = 0\<rparr>"

definition check_queue :: "nat \<Rightarrow> nat \<Rightarrow> nat \<Rightarrow> nat \<Rightarrow> bool" where
  "check_queue hd_ix tl_ix sz capacity =
     (if hd_ix = tl_ix \<and> (sz = 0 \<or> sz = capacity) then True
      else (tl_ix + capacity - hd_ix) mod capacity = sz)"

text \<open>The master puts a request at the tail; a worker takes the one at the head.\<close>

definition ring_put :: "nat \<Rightarrow> request \<Rightarrow> requests_queue \<Rightarrow> requests_queue" where
  "ring_put cap r q = q\<lparr>items := (items q)[tail q := r], tail := (tail q + 1) mod cap, qsize := qsize q + 1\<rparr>"

definition ring_head :: "requests_queue \<Rightarrow> request" where
  "ring_head q = items q ! head q"

definition ring_drop :: "nat \<Rightarrow> requests_queue \<Rightarrow> requests_queue" where
  "ring_drop cap q = q\<lparr>head := (head q + 1) mod cap, qsize := qsize q - 1\<rparr>"

section \<open>The list a queue stands for\<close>

definition slot :: "nat \<Rightarrow> requests_queue \<Rightarrow> nat \<Rightarrow> nat" where
  "slot cap q i = (head q + i) mod cap"

definition ring_list :: "nat \<Rightarrow> requests_queue \<Rightarrow> request list" where
  "ring_list cap q = map (\<lambda>i. items q ! slot cap q i) [0..<qsize q]"

definition ring_wf :: "nat \<Rightarrow> requests_queue \<Rightarrow> bool" where
  "ring_wf cap q \<longleftrightarrow> 0 < cap \<and> length (items q) = cap \<and> head q < cap \<and> qsize q \<le> cap \<and>
     tail q = slot cap q (qsize q)"

lemma slot_less: "0 < cap \<Longrightarrow> slot cap q i < cap"
  by (simp add: slot_def)

lemma mod_window_inj_le: "i \<le> j \<Longrightarrow> j < cap \<Longrightarrow> (h + i) mod cap = (h + j) mod cap \<Longrightarrow> i = j" for h :: nat
proof -
  assume ij: "i \<le> j" "j < cap" and eq: "(h + i) mod cap = (h + j) mod cap"
  then have "cap dvd (h + j) - (h + i)" by (metis add_le_cancel_left mod_eq_dvd_iff_nat)
  then have "cap dvd j - i" by simp
  moreover have "j - i < cap" using ij by simp
  ultimately show "i = j" using ij by (auto dest: dvd_imp_le)
qed

lemma slot_inj: "i < cap \<Longrightarrow> j < cap \<Longrightarrow> slot cap q i = slot cap q j \<longleftrightarrow> i = j"
  using mod_window_inj_le [of i j cap "head q"] mod_window_inj_le [of j i cap "head q"]
  by (cases "i \<le> j") (auto simp: slot_def)

lemma qsize_ring [simp]:
  "qsize (ring_put cap r q) = qsize q + 1" "qsize (ring_drop cap q) = qsize q - 1"
  by (simp_all add: ring_put_def ring_drop_def)

lemma length_ring_list [simp]: "length (ring_list cap q) = qsize q"
  by (simp add: ring_list_def)

lemma ring_list_empty: "ring_list cap q = [] \<longleftrightarrow> qsize q = 0"
  by (simp add: ring_list_def)

lemma ring_put_list:
  assumes "ring_wf cap q" "qsize q < cap"
  shows "ring_list cap (ring_put cap r q) = ring_list cap q @ [r]"
proof -
  have "slot cap (ring_put cap r q) i = slot cap q i" for i by (simp add: slot_def ring_put_def)
  moreover have "(items q)[tail q := r] ! slot cap q i = items q ! slot cap q i" if "i < qsize q" for i
    using that assms slot_inj [of i cap "qsize q" q] by (simp add: ring_wf_def)
  moreover have "(items q)[tail q := r] ! slot cap q (qsize q) = r"
    using assms slot_less [of cap q "qsize q"] by (simp add: ring_wf_def)
  ultimately show ?thesis by (simp add: ring_list_def ring_put_def)
qed

lemma ring_put_wf: "ring_wf cap q \<Longrightarrow> qsize q < cap \<Longrightarrow> ring_wf cap (ring_put cap r q)"
  by (simp add: ring_wf_def ring_put_def slot_def mod_Suc_eq)

lemma slot_drop: "slot cap (ring_drop cap q) i = slot cap q (Suc i)"
  by (simp add: slot_def ring_drop_def mod_simps)

lemma ring_drop_list:
  assumes "0 < qsize q"
  shows "ring_list cap (ring_drop cap q) = tl (ring_list cap q)"
proof -
  have "items (ring_drop cap q) = items q" "qsize (ring_drop cap q) = qsize q - 1"
    by (simp_all add: ring_drop_def)
  then show ?thesis using assms
    by (intro nth_equalityI) (auto simp: ring_list_def slot_drop nth_tl)
qed

lemma ring_drop_wf: "ring_wf cap q \<Longrightarrow> 0 < qsize q \<Longrightarrow> ring_wf cap (ring_drop cap q)"
  by (cases "qsize q") (auto simp: ring_wf_def slot_def ring_drop_def mod_simps)

lemma ring_wf_size: "ring_wf cap q \<Longrightarrow> qsize q \<le> cap"
  by (simp add: ring_wf_def)

lemma ring_head_list:
  assumes "ring_wf cap q" "0 < qsize q"
  shows "ring_head q = hd (ring_list cap q)"
  using assms by (simp add: ring_head_def ring_list_def hd_map hd_upt slot_def ring_wf_def)

lemma check_queue_wf: "ring_wf cap q \<Longrightarrow> check_queue (head q) (tail q) (qsize q) cap"
proof -
  assume wf: "ring_wf cap q"
  show ?thesis
  proof (cases "qsize q = cap")
    case True
    then show ?thesis using wf by (simp add: check_queue_def ring_wf_def slot_def)
  next
    case False
    then have n: "qsize q < cap" "head q < cap" using wf by (auto simp: ring_wf_def)
    have "(tail q + cap - head q) mod cap = qsize q"
    proof (cases "head q + qsize q < cap")
      case True
      then show ?thesis using wf n by (simp add: ring_wf_def slot_def)
    next
      case ge: False
      then have "slot cap q (qsize q) = head q + qsize q - cap"
        using n by (simp add: slot_def mod_if)
      then show ?thesis using wf n ge by (simp add: ring_wf_def)
    qed
    then show ?thesis by (simp add: check_queue_def)
  qed
qed

section \<open>The interface of a bounded queue\<close>

locale bounded_fifo =
  fixes wf :: "'q \<Rightarrow> bool" and elems :: "'q \<Rightarrow> 'a list" and bound :: nat
    and put :: "'a \<Rightarrow> 'q \<Rightarrow> 'q" and front :: "'q \<Rightarrow> 'a" and remove :: "'q \<Rightarrow> 'q"
  assumes put: "wf q \<Longrightarrow> length (elems q) < bound \<Longrightarrow> wf (put a q) \<and> elems (put a q) = elems q @ [a]"
    and take: "wf q \<Longrightarrow> elems q \<noteq> [] \<Longrightarrow>
      wf (remove q) \<and> front q = hd (elems q) \<and> elems (remove q) = tl (elems q)"
    and bounded: "wf q \<Longrightarrow> length (elems q) \<le> bound"

text \<open>A sequence of operations: \<open>Some a\<close> puts \<open>a\<close>, \<open>None\<close> takes the front, which is output.\<close>

fun fifo_run :: "('a \<Rightarrow> 'q \<Rightarrow> 'q) \<Rightarrow> ('q \<Rightarrow> 'a) \<Rightarrow> ('q \<Rightarrow> 'q) \<Rightarrow> 'a option list \<Rightarrow> 'q \<Rightarrow> 'a list \<times> 'q" where
  "fifo_run put front remove [] q = ([], q)"
| "fifo_run put front remove (Some a # xs) q = fifo_run put front remove xs (put a q)"
| "fifo_run put front remove (None # xs) q =
     (case fifo_run put front remove xs (remove q) of (out, q') \<Rightarrow> (front q # out, q'))"

text \<open>The sequence neither overfills nor takes from an empty queue that holds \<open>n\<close> elements.\<close>

fun fifo_legal :: "nat \<Rightarrow> 'a option list \<Rightarrow> nat \<Rightarrow> bool" where
  "fifo_legal cap [] n = True"
| "fifo_legal cap (Some a # xs) n = (n < cap \<and> fifo_legal cap xs (n + 1))"
| "fifo_legal cap (None # xs) n = (0 < n \<and> fifo_legal cap xs (n - 1))"

definition inputs :: "'a option list \<Rightarrow> 'a list" where
  "inputs xs = map the (filter (\<lambda>x. x \<noteq> None) xs)"

context bounded_fifo
begin

lemma first_in_first_out:
  "wf q \<Longrightarrow> fifo_legal bound xs (length (elems q)) \<Longrightarrow> fifo_run put front remove xs q = (out, q') \<Longrightarrow>
   wf q' \<and> out @ elems q' = elems q @ inputs xs"
proof (induction xs arbitrary: q out)
  case Nil
  then show ?case by (simp add: inputs_def)
next
  case (Cons x xs)
  show ?case
  proof (cases x)
    case (Some a)
    then show ?thesis
      using put [of q a] Cons.prems Cons.IH [of "put a q" out] by (simp add: inputs_def)
  next
    case None
    then have ne: "elems q \<noteq> []" using Cons.prems by auto
    note t = take [OF Cons.prems(1) ne]
    obtain out' where out: "fifo_run put front remove xs (remove q) = (out', q')" "out = front q # out'"
      using Cons.prems(3) None by (auto split: prod.splits)
    have "wf q' \<and> out' @ elems q' = elems (remove q) @ inputs xs"
      using Cons.IH [of "remove q"] Cons.prems(2) None t out(1) by simp
    then show ?thesis using t out(2) ne None by (cases "elems q") (auto simp: inputs_def)
  qed
qed

end

interpretation ring: bounded_fifo "ring_wf cap" "ring_list cap" cap "ring_put cap" ring_head "ring_drop cap"
  for cap
  by unfold_locales
    (auto simp: ring_put_wf ring_put_list ring_drop_wf ring_drop_list ring_head_list ring_list_empty ring_wf_size)

section \<open>Dropping half of the queue at random\<close>

text \<open>
  Pick and swap: in round \<open>i\<close> the result of \<open>rand\<close> picks one of the first \<open>n - i\<close> indexes, which
  is marked and swapped to the end. \<open>rnd i\<close> is what the \<open>i\<close>-th call of \<open>rand\<close> returns.
\<close>

function pick :: "(nat \<Rightarrow> nat) \<Rightarrow> nat \<Rightarrow> nat \<Rightarrow> nat \<Rightarrow> nat list \<Rightarrow> bool list \<Rightarrow> bool list" where
  "pick rnd n limit i indexes rand_indexes =
     (if i < limit then
        (let index = rnd i mod (n - i); temp = indexes ! index in
         pick rnd n limit (i + 1)
           (indexes[index := indexes ! (n - i - 1), n - i - 1 := temp])
           (rand_indexes[temp := True]))
      else rand_indexes)"
  by pat_completeness auto

termination
  by (relation "measure (\<lambda>(rnd, n, limit, i, _). limit - i)") auto

declare pick.simps [simp del]

text \<open>The picked requests move to the front, the connections of the others are collected in the
  order in which they are closed.\<close>

function compact :: "nat \<Rightarrow> nat \<Rightarrow> nat \<Rightarrow> bool list \<Rightarrow> nat \<Rightarrow> request list \<Rightarrow> nat \<Rightarrow> int list \<Rightarrow>
    request list \<times> nat \<times> int list" where
  "compact cap hd_ix n rand_indexes i its tl_ix dropped =
     (if i < n then
        (if rand_indexes ! i then
           compact cap hd_ix n rand_indexes (i + 1)
             (its[tl_ix := its ! ((hd_ix + i) mod cap)]) ((tl_ix + 1) mod cap) dropped
         else
           compact cap hd_ix n rand_indexes (i + 1) its tl_ix
             (dropped @ [connfd (its ! ((hd_ix + i) mod cap))]))
      else (its, tl_ix, dropped))"
  by pat_completeness auto

termination
  by (relation "measure (\<lambda>(cap, hd_ix, n, ch, i, _). n - i)") auto

declare compact.simps [simp del]

definition drop_half :: "(nat \<Rightarrow> nat) \<Rightarrow> nat \<Rightarrow> requests_queue \<Rightarrow> requests_queue \<times> int list" where
  "drop_half rnd cap q =
     (let n = qsize q; limit = n div 2;
          rand_indexes = pick rnd n limit 0 [0..<n] (replicate n False)
      in case compact cap (head q) n rand_indexes 0 (items q) (head q) [] of
        (its, tl_ix, dropped) \<Rightarrow> (q\<lparr>items := its, tail := tl_ix, qsize := limit\<rparr>, dropped))"

subsection \<open>The picked indexes\<close>

lemma swap_last:
  assumes "index \<le> m" "m < length xs"
  shows "drop m (xs[index := xs ! m, m := xs ! index]) = xs ! index # drop (Suc m) xs"
    and "mset (xs[index := xs ! m, m := xs ! index]) = mset xs"
proof -
  have "drop m (xs[index := xs ! m, m := xs ! index]) =
      xs ! index # drop (Suc m) (xs[index := xs ! m, m := xs ! index])"
    using assms by (simp add: Cons_nth_drop_Suc [symmetric])
  then show "drop m (xs[index := xs ! m, m := xs ! index]) = xs ! index # drop (Suc m) xs"
    using assms by simp
  show "mset (xs[index := xs ! m, m := xs ! index]) = mset xs"
    using assms by (intro mset_swap) auto
qed

lemma pick_spec:
  assumes "i \<le> limit" "limit \<le> n" "mset indexes = mset [0..<n]" "length ch = n"
    "\<forall>j<n. ch ! j \<longleftrightarrow> j \<in> set (drop (n - i) indexes)"
  shows "\<exists>ixs. mset ixs = mset [0..<n] \<and> length (pick rnd n limit i indexes ch) = n \<and>
    (\<forall>j<n. pick rnd n limit i indexes ch ! j \<longleftrightarrow> j \<in> set (drop (n - limit) ixs))"
  using assms
proof (induction rnd n limit i indexes ch rule: pick.induct)
  case (1 rnd n limit i indexes ch)
  show ?case
  proof (cases "i < limit")
    case False
    then show ?thesis using 1 by (subst pick.simps, subst pick.simps) auto
  next
    case True
    let ?m = "n - i - 1"
    define index where "index = rnd i mod (n - i)"
    define ixs where "ixs = indexes[index := indexes ! ?m, ?m := indexes ! index]"
    have len: "length indexes = n" using 1(4) by (metis length_upt mset_eq_length minus_nat.diff_0)
    have "index < n - i" using True 1(3) by (simp add: index_def)
    then have ix: "index \<le> ?m" "?m < length indexes" using True 1(3) by (auto simp: len)
    have "indexes ! index \<in> set indexes" using ix by simp
    then have t: "indexes ! index < n" using 1(4) by (metis set_mset_mset atLeastLessThan_iff set_upt)
    have suc: "Suc ?m = n - i" "n - (i + 1) = ?m" using True 1(3) by auto
    have "drop (n - (i + 1)) ixs = indexes ! index # drop (n - i) indexes"
      using swap_last(1) [OF ix] unfolding suc ixs_def .
    then have ch: "\<forall>j<n. ch[indexes ! index := True] ! j \<longleftrightarrow> j \<in> set (drop (n - (i + 1)) ixs)"
      using 1(6) 1(5) t by (auto simp: nth_list_update)
    have ms: "mset ixs = mset [0..<n]" using swap_last(2) [OF ix] 1(4) by (simp add: ixs_def)
    have step: "pick rnd n limit i indexes ch = pick rnd n limit (i + 1) ixs (ch[indexes ! index := True])"
      using True by (subst pick.simps) (simp add: Let_def index_def ixs_def)
    show ?thesis unfolding step
      by (rule 1(1) [OF True index_def refl, folded ixs_def])
        (use True 1(3,5) ms ch in \<open>simp_all\<close>)
  qed
qed

lemma count_picked:
  assumes "limit \<le> n" "mset ixs = mset [0..<n]" "length ch = n"
    "\<forall>j<n. ch ! j \<longleftrightarrow> j \<in> set (drop (n - limit) ixs)"
  shows "length (filter id ch) = limit"
proof -
  have d: "distinct ixs" "set ixs = {0..<n}" "length ixs = n"
    using assms(2) by (metis distinct_upt mset_eq_imp_distinct_iff, metis set_mset_mset set_upt,
      metis length_upt mset_eq_length minus_nat.diff_0)
  have "{j. j < n \<and> ch ! j} = set (drop (n - limit) ixs)"
    using assms(4) d(2) set_drop_subset [of "n - limit" ixs] by auto
  then have "length (filter id ch) = card (set (drop (n - limit) ixs))"
    using assms(3) by (simp add: length_filter_conv_card)
  also have "\<dots> = limit" using d assms(1) by (simp add: distinct_card)
  finally show ?thesis .
qed

subsection \<open>The compacted queue\<close>

definition kept :: "'a list \<Rightarrow> bool list \<Rightarrow> 'a list" where
  "kept xs ch = map fst (filter snd (zip xs ch))"

definition lost :: "'a list \<Rightarrow> bool list \<Rightarrow> 'a list" where
  "lost xs ch = map fst (filter (\<lambda>p. \<not> snd p) (zip xs ch))"

lemma kept_simps [simp]:
  "kept [] ch = []" "lost [] ch = []"
  "kept (x # xs) (b # ch) = (if b then x # kept xs ch else kept xs ch)"
  "lost (x # xs) (b # ch) = (if b then lost xs ch else x # lost xs ch)"
  by (simp_all add: kept_def lost_def)

lemma length_kept: "length xs = length ch \<Longrightarrow> length (kept xs ch) = length (filter id ch)"
  by (induction xs ch rule: list_induct2) auto

lemma subseq_kept: "length xs = length ch \<Longrightarrow> subseq (kept xs ch) xs"
  by (induction xs ch rule: list_induct2) auto

lemma mset_kept_lost: "length xs = length ch \<Longrightarrow> mset (kept xs ch) + mset (lost xs ch) = mset xs"
  by (induction xs ch rule: list_induct2) auto

lemma compact_spec:
  assumes "compact cap hd_ix n ch i its tl_ix dr = (its', tl', dr')"
    "0 < cap" "n \<le> cap" "length its = cap" "length L = n" "length ch = n"
    "length ks \<le> i" "i \<le> n" "tl_ix = (hd_ix + length ks) mod cap"
    "\<forall>j<length ks. its ! ((hd_ix + j) mod cap) = ks ! j"
    "\<forall>j<n. i \<le> j \<longrightarrow> its ! ((hd_ix + j) mod cap) = L ! j"
  shows "let ks' = ks @ kept (drop i L) (drop i ch) in
    length its' = cap \<and> tl' = (hd_ix + length ks') mod cap \<and>
    (\<forall>j<length ks'. its' ! ((hd_ix + j) mod cap) = ks' ! j) \<and>
    dr' = dr @ map connfd (lost (drop i L) (drop i ch))"
  using assms
proof (induction cap hd_ix n ch i its tl_ix dr arbitrary: ks rule: compact.induct)
  case (1 cap h n ch i its t dr)
  show ?case
  proof (cases "i < n")
    case False
    then show ?thesis using 1(3-) by (subst (asm) compact.simps) (simp add: Let_def)
  next
    case True
    note IH = 1(1,2) and cap = 1(4,5) and len = 1(6-8) and ks = 1(9) and tl_eq = 1(11) and
      fin = 1(12) and todo = 1(13)
    have Ld: "drop i L = L ! i # drop (Suc i) L" "drop i ch = ch ! i # drop (Suc i) ch"
      using True len by (simp_all add: Cons_nth_drop_Suc)
    have cur: "its ! ((h + i) mod cap) = L ! i" using todo True by simp
    show ?thesis
    proof (cases "ch ! i")
      case False
      have "compact cap h n ch (i + 1) its t (dr @ [connfd (L ! i)]) = (its', tl', dr')"
        using 1(3) True False cur by (subst (asm) compact.simps) simp
      from IH(2) [OF True False, unfolded cur, OF this cap len _ _ tl_eq fin] show ?thesis
        using True False ks todo by (simp add: Let_def Ld)
    next
      case ch: True
      let ?its = "its[t := L ! i]" and ?ks = "ks @ [L ! i]"
      have step: "compact cap h n ch (i + 1) ?its ((t + 1) mod cap) dr = (its', tl', dr')"
        using 1(3) True ch cur by (subst (asm) compact.simps) simp
      have t: "t < length its" using tl_eq cap(1) len(1) by simp
      have other: "t \<noteq> (h + j) mod cap" if "j < n" "j \<noteq> length ks" for j
        using that mod_window_inj_le [of j "length ks" cap h] mod_window_inj_le [of "length ks" j cap h]
          ks True cap tl_eq by (cases "j \<le> length ks") auto
      have fin': "\<forall>j<length ?ks. ?its ! ((h + j) mod cap) = ?ks ! j"
      proof (intro allI impI)
        fix j assume "j < length ?ks"
        then consider "j < length ks" | "j = length ks" by (auto simp: less_Suc_eq)
        then show "?its ! ((h + j) mod cap) = ?ks ! j"
        proof cases
          case 1
          then have "t \<noteq> (h + j) mod cap" using other [of j] ks True by auto
          then show ?thesis using fin 1 by (simp add: nth_append)
        next
          case 2
          then show ?thesis using t tl_eq by (simp add: nth_append)
        qed
      qed
      have todo': "\<forall>j<n. i + 1 \<le> j \<longrightarrow> ?its ! ((h + j) mod cap) = L ! j"
        using other todo ks by auto
      have tl': "(t + 1) mod cap = (h + length ?ks) mod cap"
        using tl_eq by (simp add: mod_simps)
      have "length ?its = cap" "length ?ks \<le> i + 1" "i + 1 \<le> n" using len ks True by auto
      from IH(1) [OF True ch, unfolded cur, OF step cap this(1) len(2,3) this(2,3) tl' fin' todo']
      show ?thesis using ch by (simp add: Let_def Ld)
    qed
  qed
qed

text \<open>The indexes that \<open>drop_random\<close> picks on a queue.\<close>

definition picked :: "(nat \<Rightarrow> nat) \<Rightarrow> requests_queue \<Rightarrow> bool list" where
  "picked rnd q = pick rnd (qsize q) (qsize q div 2) 0 [0..<qsize q] (replicate (qsize q) False)"

lemma drop_half_kept:
  assumes "ring_wf cap q" "drop_half rnd cap q = (q', dropped)"
  shows "length (picked rnd q) = qsize q" "ring_list cap q' = kept (ring_list cap q) (picked rnd q)"
    "dropped = map connfd (lost (ring_list cap q) (picked rnd q))"
    "ring_wf cap q'" "qsize q' = qsize q div 2" "head q' = head q"
proof -
  let ?n = "qsize q" and ?limit = "qsize q div 2" and ?L = "ring_list cap q"
  define ch where "ch = picked rnd q"
  have wf: "0 < cap" "?n \<le> cap" "length (items q) = cap" "head q < cap"
    using assms(1) by (auto simp: ring_wf_def)
  obtain ixs where ixs: "mset ixs = mset [0..<?n]" "length ch = ?n"
    "\<forall>j<?n. ch ! j \<longleftrightarrow> j \<in> set (drop (?n - ?limit) ixs)"
    using pick_spec [of 0 ?limit ?n "[0..<?n]" "replicate ?n False" rnd] unfolding ch_def picked_def by auto
  have count: "length (filter id ch) = ?limit" using count_picked [OF _ ixs] by simp
  obtain its tl_ix where c: "compact cap (head q) ?n ch 0 (items q) (head q) [] = (its, tl_ix, dropped)"
    "q' = q\<lparr>items := its, tail := tl_ix, qsize := ?limit\<rparr>"
    using assms(2) by (auto simp: drop_half_def Let_def ch_def picked_def split: prod.splits)
  have len: "length ?L = length ch" using ixs by simp
  have "\<forall>j<?n. 0 \<le> j \<longrightarrow> items q ! ((head q + j) mod cap) = ?L ! j"
    by (simp add: ring_list_def slot_def)
  from compact_spec [OF c(1) wf(1-3) _ ixs(2) _ _ _ _ this, of "[]"]
  have res: "length its = cap" "tl_ix = (head q + ?limit) mod cap" "dropped = map connfd (lost ?L ch)"
    "\<forall>j<?limit. its ! ((head q + j) mod cap) = kept ?L ch ! j"
    using wf(4) count length_kept [OF len] by (simp_all add: Let_def)
  show "length (picked rnd q) = qsize q" "dropped = map connfd (lost ?L (picked rnd q))"
    using ixs(2) res(3) by (simp_all add: ch_def)
  show "ring_list cap q' = kept ?L (picked rnd q)" unfolding ch_def [symmetric]
    using res(4) count length_kept [OF len] c(2)
    by (intro nth_equalityI) (simp_all add: ring_list_def slot_def)
  show "ring_wf cap q'" "qsize q' = ?limit" "head q' = head q"
    using wf res(1,2) c(2) by (auto simp: ring_wf_def slot_def)
qed

lemma drop_half_correct_aux:
  assumes "ring_wf cap q" "drop_half rnd cap q = (q', dropped)"
  shows "ring_wf cap q' \<and> qsize q' = qsize q div 2 \<and> head q' = head q \<and>
    subseq (ring_list cap q') (ring_list cap q) \<and>
    mset (map connfd (ring_list cap q')) + mset dropped = mset (map connfd (ring_list cap q))"
proof -
  note k = drop_half_kept [OF assms]
  have len: "length (ring_list cap q) = length (picked rnd q)" using k(1) by simp
  have "mset (map connfd (kept (ring_list cap q) (picked rnd q))) +
      mset (map connfd (lost (ring_list cap q) (picked rnd q))) = mset (map connfd (ring_list cap q))"
    using mset_kept_lost [OF len] by (metis image_mset_union mset_map)
  then show ?thesis using k subseq_kept [OF len] by simp
qed

text \<open>C18: whatever numbers \<open>rand\<close> returns, \<open>drop_random\<close> on a queue of \<open>n\<close> requests keeps exactly
  \<open>n div 2\<close> of them in their order, and the connections it closes are those of the other
  requests, each once; the ring stays well-formed.\<close>

theorem drop_half_correct:
  assumes "ring_wf cap q" "drop_half rnd cap q = (q', dropped)"
  shows "ring_wf cap q' \<and> qsize q' = qsize q div 2 \<and> head q' = head q \<and>
    subseq (ring_list cap q') (ring_list cap q) \<and>
    mset (map connfd (ring_list cap q')) + mset dropped = mset (map connfd (ring_list cap q))"
  using drop_half_correct_aux [OF assms] .

definition demo_ring :: requests_queue where
  "demo_ring = \<lparr>items = map (\<lambda>fd. \<lparr>connfd = fd, req_arrival_time = zero_time, req_dispatch_interval = zero_time\<rparr>) [5, 6, 7, 4],
     head = 3, tail = 2, qsize = 3\<rparr>"

lemma demo_ring_wf: "ring_wf 4 demo_ring"
  by (simp add: demo_ring_def ring_wf_def slot_def)

lemma demo_ring_list: "map connfd (ring_list 4 demo_ring) = [4, 5, 6]"
  by code_simp

lemma demo_ring_drop: "snd (drop_half (\<lambda>_. 1) 4 demo_ring) = [4, 6]"
  by code_simp

theorem drop_half_correct_witness:
  "qsize (fst (drop_half (\<lambda>_. 1) 4 demo_ring)) = 1 \<and>
   mset (map connfd (ring_list 4 (fst (drop_half (\<lambda>_. 1) 4 demo_ring)))) + {#4, 6#} = {#4, 5, 6#}"
proof -
  obtain q' where q: "drop_half (\<lambda>_. 1) 4 demo_ring = (q', [4, 6])"
    using demo_ring_drop by (metis prod.collapse)
  show ?thesis using drop_half_correct [OF demo_ring_wf q] q
    unfolding demo_ring_list by (simp add: demo_ring_def)
qed

text \<open>C17: the ring is a bounded first-in-first-out queue: any sequence of putting and taking that
  never puts into a full ring nor takes from an empty one outputs the requests in the order in
  which they were put, and the assertion \<open>check_queue\<close> on the indexes holds at its end.\<close>

theorem ring_first_in_first_out:
  assumes "ring_wf cap q" "fifo_legal cap xs (qsize q)"
    "fifo_run (ring_put cap) ring_head (ring_drop cap) xs q = (out, q')"
  shows "out @ ring_list cap q' = ring_list cap q @ inputs xs \<and> qsize q' \<le> cap \<and>
    check_queue (head q') (tail q') (qsize q') cap"
  using ring.first_in_first_out [of cap q xs out q'] assms check_queue_wf ring_wf_size by auto

theorem ring_first_in_first_out_witness:
  "map connfd (fst (fifo_run (ring_put 4) ring_head (ring_drop 4) [None, None, None] demo_ring)) = [4, 5, 6]"
proof -
  obtain out q' where r: "fifo_run (ring_put 4) ring_head (ring_drop 4) [None, None, None] demo_ring = (out, q')"
    by (metis prod.collapse)
  have "qsize q' = 0" using r by (auto simp: demo_ring_def ring_drop_def)
  then have "ring_list 4 q' = []" by (simp add: ring_list_empty)
  moreover have "fifo_legal 4 [None, None, None :: request option] (qsize demo_ring)"
    by (simp add: demo_ring_def)
  ultimately have "out = ring_list 4 demo_ring"
    using ring_first_in_first_out [OF demo_ring_wf _ r] by (simp add: inputs_def)
  then show ?thesis using r demo_ring_list by simp
qed

end
