(* ===== verification/Server.thy ===== *)
theory Server
  imports Ring
begin

text \<open>
  The master and the worker threads of \<^verbatim>\<open>web_server/server.c\<close>. Every step is what a thread does
  while it holds the mutex, or one system call outside it; a step relation interleaves
  them. A thread that waits on a condition variable is \<open>Sleeping\<close> or \<open>Asleep\<close> until it is
  signalled (or wakes up spuriously). \<open>fds\<close> is the kernel's list of the open connections:
  closing another descriptor makes the wrapper exit. \<open>accepted\<close> and \<open>taken\<close> record the history.
\<close>

section \<open>State\<close>

datatype worker_pc = Absent | Ready | Asleep | Handling request statistics | Closing int
datatype master_pc = Accepting | Holding | Sleeping

record thread_info =
  t_id :: nat
  t_requests :: int
  t_static :: int
  t_dynamic :: int
  pc :: worker_pc

record server =
  requests_queue :: requests_queue
  list_items :: "request list"
  list_size :: nat
  queue_capacity :: nat
  m_pc :: master_pc
  m_connfd :: int
  accept_time :: timeval
  workers :: "thread_info list"
  fds :: "int list"
  accepted :: "int list"
  taken :: "int list"

definition full :: "server \<Rightarrow> bool" where
  "full s \<longleftrightarrow> qsize (requests_queue s) + list_size s = queue_capacity s"

definition DO_SYS :: "int \<Rightarrow> unit res" where
  "DO_SYS rc = (if rc = -1 then Inl (Exit 1) else Inr ())"

definition close_fd :: "int \<Rightarrow> server \<Rightarrow> server res" where
  "close_fd fd s =
     rbind (Close (if fd \<in> set (fds s) then 0 else -1)) (\<lambda>_. Inr (s\<lparr>fds := remove1 fd (fds s)\<rparr>))"

fun close_all :: "int list \<Rightarrow> server \<Rightarrow> server res" where
  "close_all [] s = Inr s"
| "close_all (fd # xs) s = rbind (close_fd fd s) (close_all xs)"

section \<open>Overload policies\<close>

text \<open>A policy says whether it released the mutex and so ended the master's section: \<open>block\<close> waits,
  \<open>drop_tail\<close> goes on to accept another connection.\<close>

datatype policy = Block | Drop_tail | Drop_head | Drop_random

definition block :: "server \<Rightarrow> (bool \<times> server) res" where
  "block s = Inr (True, s\<lparr>m_pc := Sleeping\<rparr>)"

definition drop_tail :: "server \<Rightarrow> (bool \<times> server) res" where
  "drop_tail s = rbind (close_fd (m_connfd s) s) (\<lambda>s. Inr (True, s\<lparr>m_pc := Accepting\<rparr>))"

definition drop_head :: "server \<Rightarrow> (bool \<times> server) res" where
  "drop_head s =
     (if qsize (requests_queue s) = 0 then drop_tail s
      else rbind (close_fd (connfd (ring_head (requests_queue s))) s) (\<lambda>s.
        Inr (False, s\<lparr>requests_queue := ring_drop (queue_capacity s) (requests_queue s)\<rparr>)))"

definition drop_random :: "(nat \<Rightarrow> nat) \<Rightarrow> server \<Rightarrow> (bool \<times> server) res" where
  "drop_random rnd s =
     (if qsize (requests_queue s) = 0 then drop_tail s
      else (case drop_half rnd (queue_capacity s) (requests_queue s) of (q, dropped) \<Rightarrow>
        rbind (close_all dropped s) (\<lambda>s. Inr (False, s\<lparr>requests_queue := q\<rparr>))))"

text \<open>A policy no argument named is an uninitialised function pointer.\<close>

definition run_policy :: "policy option \<Rightarrow> (nat \<Rightarrow> nat) \<Rightarrow> server \<Rightarrow> (bool \<times> server) res" where
  "run_policy p rnd s = (case p of None \<Rightarrow> Inl Ub | Some Block \<Rightarrow> block s | Some Drop_tail \<Rightarrow> drop_tail s
     | Some Drop_head \<Rightarrow> drop_head s | Some Drop_random \<Rightarrow> drop_random rnd s)"

section \<open>The master\<close>

definition wake :: "thread_info \<Rightarrow> thread_info" where
  "wake w = (if pc w = Asleep then w\<lparr>pc := Ready\<rparr> else w)"

definition master_accept :: "int \<Rightarrow> timeval \<Rightarrow> server \<Rightarrow> server" where
  "master_accept fd now s = s\<lparr>m_pc := Holding, m_connfd := fd, accept_time := now,
     fds := fds s @ [fd], accepted := accepted s @ [fd]\<rparr>"

definition enqueue :: "server \<Rightarrow> server res" where
  "enqueue s = (let q = requests_queue s in
     if tail q < length (items q) then
       Inr (s\<lparr>requests_queue := ring_put (queue_capacity s)
           \<lparr>connfd = m_connfd s, req_arrival_time = accept_time s,
            req_dispatch_interval = req_dispatch_interval (items q ! tail q)\<rparr> q,
         m_pc := Accepting, workers := map wake (workers s)\<rparr>)
     else Inl Ub)"

text \<open>The loop on a full server runs the policy until that releases the mutex or makes room.\<close>

fun master_section :: "nat \<Rightarrow> (server \<Rightarrow> (bool \<times> server) res) \<Rightarrow> server \<Rightarrow> server res" where
  "master_section n pol s =
     (if full s then
        (if n = 0 then Inl Fuel
         else rbind (pol s) (\<lambda>(ended, s1). if ended then Inr s1 else master_section (n - 1) pol s1))
      else enqueue s)"

declare master_section.simps [simp del]

section \<open>The workers\<close>

definition time_diff :: "timeval \<Rightarrow> timeval \<Rightarrow> timeval" where
  "time_diff now t = (let sec = tv_sec now - tv_sec t; usec = tv_usec now - tv_usec t in
     if usec < 0 then \<lparr>tv_sec = sec - 1, tv_usec = usec + 1000000\<rparr>
     else \<lparr>tv_sec = sec, tv_usec = usec\<rparr>)"

definition signal_not_full :: "server \<Rightarrow> server" where
  "signal_not_full s = (if m_pc s = Sleeping then s\<lparr>m_pc := Holding\<rparr> else s)"

definition set_worker :: "nat \<Rightarrow> thread_info \<Rightarrow> server \<Rightarrow> server" where
  "set_worker i w s = s\<lparr>workers := (workers s)[i := w]\<rparr>"

definition stats_stamp :: "thread_info \<Rightarrow> request \<Rightarrow> statistics" where
  "stats_stamp w r = \<lparr>arrival_time = req_arrival_time r, dispatch_interval = req_dispatch_interval r,
     thread_id = int (t_id w), requests_count = t_requests w, static_requests_count = t_static w,
     dynamic_requests_count = t_dynamic w\<rparr>"

definition worker_section :: "nat \<Rightarrow> timeval \<Rightarrow> server \<Rightarrow> server res" where
  "worker_section i now s = (let w = workers s ! i; q = requests_queue s in
     if qsize q = 0 then Inr (set_worker i (w\<lparr>pc := Asleep\<rparr>) s)
     else if head q < length (items q) \<and> t_id w < length (list_items s) then
       (let r = (ring_head q)\<lparr>req_dispatch_interval := time_diff now (req_arrival_time (ring_head q))\<rparr>
        in Inr (signal_not_full (set_worker i (w\<lparr>pc := Handling r (stats_stamp w r)\<rparr>)
             (s\<lparr>requests_queue := ring_drop (queue_capacity s) q,
                list_items := (list_items s)[t_id w := r], list_size := list_size s + 1,
                taken := taken s @ [connfd r]\<rparr>))))
     else Inl Ub)"

text \<open>\<open>requestHandle\<close> has returned \<open>result\<close>; the worker closes the connection.\<close>

definition worker_close :: "nat \<Rightarrow> request \<Rightarrow> int \<Rightarrow> server \<Rightarrow> server res" where
  "worker_close i r result s =
     rbind (close_fd (connfd r) s) (\<lambda>s. Inr (set_worker i ((workers s ! i)\<lparr>pc := Closing result\<rparr>) s))"

definition worker_finish :: "nat \<Rightarrow> int \<Rightarrow> server \<Rightarrow> server res" where
  "worker_finish i result s = (let w = workers s ! i in
     if t_id w < length (list_items s) then
       Inr (signal_not_full (set_worker i
         (w\<lparr>t_requests := t_requests w + 1,
            t_static := t_static w + (if result = STATIC then 1 else 0),
            t_dynamic := t_dynamic w + (if result = DYNAMIC then 1 else 0), pc := Ready\<rparr>)
         (s\<lparr>list_items := (list_items s)[t_id w := (list_items s ! t_id w)\<lparr>connfd := -1\<rparr>],
            list_size := list_size s - 1\<rparr>)))
     else Inl Ub)"

section \<open>Starting\<close>

definition getargs :: "string list \<Rightarrow> (int \<times> int \<times> int \<times> policy option) res" where
  "getargs argv =
     (if length argv < 5 then Inl (Exit 1)
      else rbind (atoi (argv ! 1)) (\<lambda>port.
           rbind (atoi (argv ! 2)) (\<lambda>threads.
           rbind (atoi (argv ! 3)) (\<lambda>capacity.
             Inr (port, threads, capacity,
               if argv ! 4 = ''block'' then Some Block
               else if argv ! 4 = ''dt'' then Some Drop_tail
               else if argv ! 4 = ''dh'' then Some Drop_head
               else if argv ! 4 = ''random'' then Some Drop_random
               else None)))))"

text \<open>\<open>pthread_create\<close> returns an error number: the worker is absent, and \<open>DO_SYS\<close> notices only -1.\<close>

fun create_workers :: "nat \<Rightarrow> int list \<Rightarrow> thread_info list res" where
  "create_workers i [] = Inr []"
| "create_workers i (rc # rcs) =
     rbind (DO_SYS rc) (\<lambda>_. rbind (create_workers (i + 1) rcs) (\<lambda>ws.
       Inr (\<lparr>t_id = i, t_requests = 0, t_static = 0, t_dynamic = 0,
             pc = (if rc = 0 then Ready else Absent)\<rparr> # ws)))"

definition createWorkersPool :: "nat \<Rightarrow> (nat \<Rightarrow> int) \<Rightarrow> thread_info list res" where
  "createWorkersPool num_threads create_rc = create_workers 0 (map create_rc [0..<num_threads])"

definition createRequestList :: "request list \<Rightarrow> request list \<times> nat" where
  "createRequestList mem = (mem, 0)"

text \<open>\<open>mem\<close> is what \<open>malloc\<close>ed memory holds; negative numbers of threads and slots are outside the model.\<close>

definition server_main :: "string list \<Rightarrow> (nat \<Rightarrow> int) \<Rightarrow> (nat \<Rightarrow> request) \<Rightarrow> (policy option \<times> server) res" where
  "server_main argv create_rc mem =
     rbind (getargs argv) (\<lambda>(port, threads, capacity, pol).
     case createRequestList (map mem [0..<nat threads]) of (its, n) \<Rightarrow>
     rbind (createWorkersPool (nat threads) create_rc) (\<lambda>ws.
       Inr (pol, \<lparr>requests_queue = createRequestQueue (map mem [0..<nat capacity]),
         list_items = its, list_size = n, queue_capacity = nat capacity,
         m_pc = Accepting, m_connfd = 0, accept_time = zero_time, workers = ws,
         fds = [], accepted = [], taken = []\<rparr>)))"

section \<open>Steps\<close>

inductive step :: "policy option \<Rightarrow> server \<Rightarrow> server \<Rightarrow> bool" for p where
  accept: "m_pc s = Accepting \<Longrightarrow> 0 \<le> fd \<Longrightarrow> fd \<notin> set (fds s) \<Longrightarrow> step p s (master_accept fd now s)"
| admit: "m_pc s = Holding \<Longrightarrow> master_section 2 (run_policy p rnd) s = Inr s1 \<Longrightarrow> step p s s1"
| master_wakes: "m_pc s = Sleeping \<Longrightarrow> step p s (s\<lparr>m_pc := Holding\<rparr>)"
| worker_runs: "i < length (workers s) \<Longrightarrow> pc (workers s ! i) = Ready \<Longrightarrow>
    worker_section i now s = Inr s1 \<Longrightarrow> step p s s1"
| worker_wakes: "i < length (workers s) \<Longrightarrow> pc (workers s ! i) = Asleep \<Longrightarrow>
    step p s (set_worker i ((workers s ! i)\<lparr>pc := Ready\<rparr>) s)"
| worker_closes: "i < length (workers s) \<Longrightarrow> pc (workers s ! i) = Handling r st \<Longrightarrow>
    worker_close i r result s = Inr s1 \<Longrightarrow> step p s s1"
| worker_finishes: "i < length (workers s) \<Longrightarrow> pc (workers s ! i) = Closing result \<Longrightarrow>
    worker_finish i result s = Inr s1 \<Longrightarrow> step p s s1"

inductive_cases stepE: "step p s s1"

inductive reach :: "policy option \<Rightarrow> server \<Rightarrow> server \<Rightarrow> bool" for p s0 where
  start: "reach p s0 s0"
| next_step: "reach p s0 s \<Longrightarrow> step p s s1 \<Longrightarrow> reach p s0 s1"

section \<open>The invariant\<close>

definition held :: "server \<Rightarrow> int list" where
  "held s = (if m_pc s = Accepting then [] else [m_connfd s])"

fun pc_fds :: "worker_pc \<Rightarrow> int list" where
  "pc_fds (Handling r st) = [connfd r]"
| "pc_fds _ = []"

fun pc_busy :: "worker_pc \<Rightarrow> bool" where
  "pc_busy (Handling r st) = True"
| "pc_busy (Closing r) = True"
| "pc_busy _ = False"

definition busy_fds :: "thread_info list \<Rightarrow> int list" where
  "busy_fds ws = concat (map (\<lambda>w. pc_fds (pc w)) ws)"

definition busy :: "thread_info list \<Rightarrow> nat" where
  "busy ws = length (filter (\<lambda>w. pc_busy (pc w)) ws)"

definition queued :: "server \<Rightarrow> int list" where
  "queued s = map connfd (ring_list (queue_capacity s) (requests_queue s))"

definition ids_ok :: "server \<Rightarrow> bool" where
  "ids_ok s \<longleftrightarrow> length (list_items s) = length (workers s) \<and> map t_id (workers s) = [0..<length (workers s)]"

definition in_order :: "policy option \<Rightarrow> server \<Rightarrow> bool" where
  "in_order p s \<longleftrightarrow> subseq (taken s @ queued s @ held s) (accepted s) \<and>
     (p = Some Block \<longrightarrow> taken s @ queued s @ held s = accepted s)"

text \<open>\<open>counted\<close>: the sizes; \<open>owned\<close>: every open connection has exactly one owner; \<open>awake\<close>: nobody
  sleeps who could work.\<close>

definition counted :: "server \<Rightarrow> bool" where
  "counted s \<longleftrightarrow> ring_wf (queue_capacity s) (requests_queue s) \<and>
     qsize (requests_queue s) + list_size s \<le> queue_capacity s \<and> list_size s = busy (workers s)"

definition owned :: "server \<Rightarrow> bool" where
  "owned s \<longleftrightarrow> distinct (fds s) \<and> mset (fds s) = mset (queued s) + mset (busy_fds (workers s)) + mset (held s)"

definition awake :: "server \<Rightarrow> bool" where
  "awake s \<longleftrightarrow> (m_pc s = Sleeping \<longrightarrow> full s) \<and>
     (\<forall>w\<in>set (workers s). pc w = Asleep \<longrightarrow> qsize (requests_queue s) = 0)"

definition server_inv :: "policy option \<Rightarrow> server \<Rightarrow> bool" where
  "server_inv p s \<longleftrightarrow> counted s \<and> owned s \<and> awake s \<and> ids_ok s \<and> in_order p s"

lemmas inv_defs = server_inv_def counted_def owned_def awake_def ids_ok_def in_order_def

subsection \<open>Lemmas on the list of workers\<close>

lemma busy_fds_update:
  "i < length ws \<Longrightarrow>
   mset (busy_fds (ws[i := w])) + mset (pc_fds (pc (ws ! i))) = mset (busy_fds ws) + mset (pc_fds (pc w))"
proof -
  assume i: "i < length ws"
  have "mset (busy_fds ws) = mset (busy_fds (take i ws)) + mset (pc_fds (pc (ws ! i))) + mset (busy_fds (drop (Suc i) ws))"
    by (subst id_take_nth_drop [OF i]) (simp add: busy_fds_def)
  moreover have "mset (busy_fds (ws[i := w])) = mset (busy_fds (take i ws)) + mset (pc_fds (pc w)) + mset (busy_fds (drop (Suc i) ws))"
    using i by (simp add: upd_conv_take_nth_drop busy_fds_def)
  ultimately show ?thesis by simp
qed

lemma busy_update:
  "i < length ws \<Longrightarrow>
   busy (ws[i := w]) + (if pc_busy (pc (ws ! i)) then 1 else 0) = busy ws + (if pc_busy (pc w) then 1 else 0)"
proof -
  assume i: "i < length ws"
  have "busy ws = busy (take i ws) + (if pc_busy (pc (ws ! i)) then 1 else 0) + busy (drop (Suc i) ws)"
    by (subst id_take_nth_drop [OF i]) (simp add: busy_def)
  moreover have "busy (ws[i := w]) = busy (take i ws) + (if pc_busy (pc w) then 1 else 0) + busy (drop (Suc i) ws)"
    using i by (simp add: upd_conv_take_nth_drop busy_def)
  ultimately show ?thesis by simp
qed

lemma wake_simps [simp]:
  "pc_fds (pc (wake w)) = pc_fds (pc w)" "pc_busy (pc (wake w)) = pc_busy (pc w)"
  "t_id (wake w) = t_id w" "pc (wake w) \<noteq> Asleep"
  by (simp_all add: wake_def)

lemma map_wake [simp]:
  "busy_fds (map wake ws) = busy_fds ws" "busy (map wake ws) = busy ws" "map t_id (map wake ws) = map t_id ws"
  by (simp_all add: busy_fds_def busy_def filter_map comp_def)

lemma map_id_update: "i < length ws \<Longrightarrow> t_id w = t_id (ws ! i) \<Longrightarrow> map t_id (ws[i := w]) = map t_id ws"
  by (metis list_update_id map_update nth_map)

lemma awake_update:
  "\<forall>w\<in>set ws. pc w = Asleep \<longrightarrow> P \<Longrightarrow> pc w' \<noteq> Asleep \<Longrightarrow> \<forall>w\<in>set (ws[i := w']). pc w = Asleep \<longrightarrow> P"
  using set_update_subset_insert [of ws i w'] by auto

lemma ids_ok_id: "ids_ok s \<Longrightarrow> i < length (workers s) \<Longrightarrow> t_id (workers s ! i) = i"
  unfolding ids_ok_def by (metis add_0 nth_map nth_upt)

subsection \<open>Closing\<close>

lemma close_fd_ok: "fd \<in> set (fds s) \<Longrightarrow> close_fd fd s = Inr (s\<lparr>fds := remove1 fd (fds s)\<rparr>)"
  by (simp add: close_fd_def wrapper_defs)

lemma close_fd_Inr: "close_fd fd s = Inr s1 \<longleftrightarrow> fd \<in> set (fds s) \<and> s1 = s\<lparr>fds := remove1 fd (fds s)\<rparr>"
  by (auto simp: close_fd_def wrapper_defs)

lemma close_all_ok:
  "mset (fds s) = mset xs + M \<Longrightarrow> distinct (fds s) \<Longrightarrow>
   \<exists>ys. close_all xs s = Inr (s\<lparr>fds := ys\<rparr>) \<and> mset ys = M \<and> distinct ys"
proof (induction xs arbitrary: s)
  case Nil
  then show ?case by (intro exI [of _ "fds s"]) simp
next
  case (Cons fd xs)
  have m: "fd \<in> set (fds s)" using Cons.prems(1) by (metis mset_single_iff_right set_mset_mset
    mset.simps(2) union_mset_add_mset_left union_single_eq_member insert_iff set_mset_add_mset_insert)
  let ?s = "s\<lparr>fds := remove1 fd (fds s)\<rparr>"
  have "mset (fds ?s) = mset xs + M" "distinct (fds ?s)" using Cons.prems by simp_all
  from Cons.IH [OF this] show ?case by (simp add: close_fd_ok [OF m])
qed

subsection \<open>The master keeps the invariant\<close>

lemma queued_simps [simp]:
  "queued (s\<lparr>m_pc := a\<rparr>) = queued s" "queued (s\<lparr>fds := b\<rparr>) = queued s"
  "queued (s\<lparr>workers := ws\<rparr>) = queued s" "queued (set_worker i w s) = queued s"
  "queued (signal_not_full s) = queued s"
  by (simp_all add: queued_def set_worker_def signal_not_full_def)

lemma held_simps [simp]:
  "held (s\<lparr>fds := b\<rparr>) = held s" "held (s\<lparr>workers := ws\<rparr>) = held s" "held (set_worker i w s) = held s"
  "held (signal_not_full s) = held s" "held (s\<lparr>requests_queue := q\<rparr>) = held s"
  by (simp_all add: held_def set_worker_def signal_not_full_def)

lemma master_accept_inv:
  assumes "server_inv p s" "m_pc s = Accepting" "fd \<notin> set (fds s)"
  shows "server_inv p (master_accept fd now s)"
proof -
  have h: "held s = []" "held (master_accept fd now s) = [fd]" "queued (master_accept fd now s) = queued s"
    using assms(2) by (simp_all add: held_def master_accept_def queued_def)
  then show ?thesis using assms
    by (auto simp: inv_defs) (auto simp: master_accept_def intro: list_emb_append_mono simp flip: append_assoc)
qed

lemma enqueue_inv:
  assumes "server_inv p s" "m_pc s = Holding" "\<not> full s"
  shows "\<exists>s1. enqueue s = Inr s1 \<and> server_inv p s1"
proof -
  let ?q = "requests_queue s" and ?cap = "queue_capacity s"
  have wf: "ring_wf ?cap ?q" using assms(1) by (simp add: inv_defs)
  have room: "qsize ?q + list_size s < ?cap" using assms(1,3) by (simp add: inv_defs full_def)
  have tail: "tail ?q < length (items ?q)" using wf slot_less [of ?cap ?q] by (simp add: ring_wf_def)
  obtain s1 where s1: "enqueue s = Inr s1" using tail by (simp add: enqueue_def Let_def)
  have f: "queue_capacity s1 = ?cap" "list_size s1 = list_size s" "workers s1 = map wake (workers s)"
    "fds s1 = fds s" "m_pc s1 = Accepting" "list_items s1 = list_items s" "accepted s1 = accepted s"
    "taken s1 = taken s" "qsize (requests_queue s1) = qsize ?q + 1" "ring_wf ?cap (requests_queue s1)"
    "queued s1 = queued s @ [m_connfd s]"
    using s1 tail wf room by (auto simp: enqueue_def Let_def queued_def ring_put_wf ring_put_list
        simp del: map_map)
  have h: "held s = [m_connfd s]" "held s1 = []" using assms(2) f by (simp_all add: held_def)
  show ?thesis using assms(1) room s1 f h
    by (auto simp: inv_defs full_def comp_def simp flip: map_map)
qed

lemma front_queued:
  assumes "ring_wf cap q" "0 < qsize q"
  shows "map connfd (ring_list cap q) = connfd (ring_head q) # map connfd (ring_list cap (ring_drop cap q))"
  using assms by (cases "ring_list cap q") (auto simp: ring_head_list ring_drop_list ring_list_empty)

lemma subseq_drop_mid: "subseq (a @ x # b) c \<Longrightarrow> subseq (a @ b) c"
  by (meson list_emb_append_mono subseq_Cons' subseq_order.order_refl subseq_order.order_trans)

lemma subseq_shrink: "subseq b b' \<Longrightarrow> subseq (a @ b' @ d) c \<Longrightarrow> subseq (a @ b @ d) c"
  by (meson list_emb_append_mono subseq_order.order_refl subseq_order.order_trans)

lemma drop_tail_inv:
  assumes "server_inv p s" "m_pc s = Holding" "p \<noteq> Some Block"
  shows "\<exists>s1. drop_tail s = Inr (True, s1) \<and> server_inv p s1"
proof -
  have h: "held s = [m_connfd s]" using assms(2) by (simp add: held_def)
  have m: "m_connfd s \<in># mset (fds s)" using assms(1) h by (simp add: inv_defs)
  then have m: "m_connfd s \<in> set (fds s)" by simp
  let ?s = "s\<lparr>fds := remove1 (m_connfd s) (fds s), m_pc := Accepting\<rparr>"
  have "drop_tail s = Inr (True, ?s)" by (simp add: drop_tail_def close_fd_ok [OF m])
  moreover have "held ?s = []" "queued ?s = queued s" by (simp_all add: held_def queued_def)
  moreover have "subseq (taken s @ queued s) (accepted s)"
    using assms(1) h subseq_drop_mid [of "taken s @ queued s" "m_connfd s" "[]" "accepted s"]
    by (simp add: inv_defs)
  ultimately show ?thesis using assms h by (auto simp: inv_defs)
qed

lemma drop_head_inv:
  assumes "server_inv p s" "m_pc s = Holding" "p \<noteq> Some Block" "full s" "0 < qsize (requests_queue s)"
  shows "\<exists>s1. drop_head s = Inr (False, s1) \<and> server_inv p s1 \<and> m_pc s1 = Holding \<and> \<not> full s1"
proof -
  let ?q = "requests_queue s" and ?cap = "queue_capacity s" and ?fd = "connfd (ring_head (requests_queue s))"
  have wf: "ring_wf ?cap ?q" using assms(1) by (simp add: inv_defs)
  have q: "queued s = ?fd # map connfd (ring_list ?cap (ring_drop ?cap ?q))"
    using front_queued [OF wf assms(5)] by (simp add: queued_def)
  have "?fd \<in># mset (fds s)" using assms(1) q by (simp add: inv_defs)
  then have m: "?fd \<in> set (fds s)" by simp
  let ?s = "s\<lparr>fds := remove1 ?fd (fds s), requests_queue := ring_drop ?cap ?q\<rparr>"
  have d: "drop_head s = Inr (False, ?s)" using assms(5) by (simp add: drop_head_def close_fd_ok [OF m])
  have f: "queued ?s = map connfd (ring_list ?cap (ring_drop ?cap ?q))" "held ?s = held s"
    by (simp_all add: queued_def held_def)
  have "subseq (taken s @ queued ?s @ held s) (accepted s)"
    using assms(1) q f subseq_drop_mid [of "taken s" ?fd "queued ?s @ held s" "accepted s"]
    by (simp add: inv_defs)
  then have "server_inv p ?s" using assms q f ring_drop_wf [OF wf assms(5)]
    by (auto simp: inv_defs full_def)
  then show ?thesis using d assms by (simp add: full_def)
qed

lemma drop_random_inv:
  assumes "server_inv p s" "m_pc s = Holding" "p \<noteq> Some Block" "full s" "0 < qsize (requests_queue s)"
  shows "\<exists>s1. drop_random rnd s = Inr (False, s1) \<and> server_inv p s1 \<and> m_pc s1 = Holding \<and> \<not> full s1"
proof -
  let ?q = "requests_queue s" and ?cap = "queue_capacity s"
  have wf: "ring_wf ?cap ?q" using assms(1) by (simp add: inv_defs)
  obtain q' dropped where dh: "drop_half rnd ?cap ?q = (q', dropped)" by fastforce
  note half = drop_half_correct_aux [OF wf dh]
  have q: "mset (queued s) = mset dropped + mset (map connfd (ring_list ?cap q'))"
    using half by (metis queued_def union_commute)
  have "mset (fds s) = mset dropped + (mset (map connfd (ring_list ?cap q')) + mset (busy_fds (workers s)) + mset (held s))"
    using assms(1) q by (simp add: inv_defs)
  from close_all_ok [OF this] obtain ys where ys: "close_all dropped s = Inr (s\<lparr>fds := ys\<rparr>)"
    "mset ys = mset (map connfd (ring_list ?cap q')) + mset (busy_fds (workers s)) + mset (held s)" "distinct ys"
    using assms(1) by (auto simp: inv_defs)
  let ?s = "s\<lparr>fds := ys, requests_queue := q'\<rparr>"
  have d: "drop_random rnd s = Inr (False, ?s)" using assms(5) ys(1) dh by (simp add: drop_random_def)
  have f: "queued ?s = map connfd (ring_list ?cap q')" "held ?s = held s"
    by (simp_all add: queued_def held_def)
  have "subseq (queued ?s) (queued s)" using half by (simp add: f queued_def subseq_map)
  moreover have "subseq (taken s @ queued s @ held s) (accepted s)" using assms(1) by (simp add: inv_defs)
  ultimately have "subseq (taken s @ queued ?s @ held s) (accepted s)" by (rule subseq_shrink)
  then have "server_inv p ?s" using assms f ys half
    by (auto simp: inv_defs full_def)
  moreover have "\<not> full ?s" using half assms(4,5) by (simp add: full_def)
  ultimately show ?thesis using d assms(2) by simp
qed

lemma master_section_inv:
  assumes "server_inv p s" "m_pc s = Holding" "p \<noteq> None"
  shows "\<exists>s1. master_section 2 (run_policy p rnd) s = Inr s1 \<and> server_inv p s1"
proof (cases "full s")
  case False
  then show ?thesis using enqueue_inv [OF assms(1,2)] by (simp add: master_section.simps)
next
  case True
  have room: ?thesis if "run_policy p rnd s = Inr (False, s1)" "server_inv p s1" "m_pc s1 = Holding" "\<not> full s1" for s1
    using that True enqueue_inv [OF that(2-4)]
    by (subst master_section.simps, subst master_section.simps) simp
  have ended: ?thesis if "run_policy p rnd s = Inr (True, s1)" "server_inv p s1" for s1
    using that True by (subst master_section.simps) simp
  obtain pol where p: "p = Some pol" using assms(3) by auto
  show ?thesis
  proof (cases "pol = Block")
    case b: True
    have "server_inv p (s\<lparr>m_pc := Sleeping\<rparr>)"
      using assms True by (auto simp: inv_defs full_def held_def)
    then show ?thesis using ended p b by (simp add: run_policy_def block_def)
  next
    case False
    then have nb: "p \<noteq> Some Block" using p by simp
    note dt = drop_tail_inv [OF assms(1,2) nb]
    show ?thesis
    proof (cases "qsize (requests_queue s) = 0 \<or> pol = Drop_tail")
      case True
      then have "run_policy p rnd s = drop_tail s"
        using p False by (cases pol) (auto simp: run_policy_def drop_head_def drop_random_def)
      then show ?thesis using dt ended by auto
    next
      case ne: False
      then have q: "0 < qsize (requests_queue s)" by simp
      show ?thesis
        using drop_head_inv [OF assms(1,2) nb True q] drop_random_inv [OF assms(1,2) nb True q, of rnd]
          room p False ne by (cases pol) (auto simp: run_policy_def)
    qed
  qed
qed

subsection \<open>The workers keep the invariant\<close>

lemma signal_inv: "server_inv p s \<Longrightarrow> server_inv p (signal_not_full s)"
  by (auto simp: inv_defs signal_not_full_def full_def held_def queued_def)

lemma worker_section_inv:
  assumes "server_inv p s" "i < length (workers s)" "pc (workers s ! i) = Ready"
  shows "\<exists>s1. worker_section i now s = Inr s1 \<and> server_inv p s1"
proof (cases "qsize (requests_queue s) = 0")
  case True
  let ?w = "(workers s ! i)\<lparr>pc := Asleep\<rparr>"
  have "server_inv p (set_worker i ?w s)"
    using assms busy_fds_update [OF assms(2), of ?w] busy_update [OF assms(2), of ?w] True
      map_id_update [OF assms(2), of ?w]
    by (auto simp: inv_defs set_worker_def full_def)
  then show ?thesis using True by (simp add: worker_section_def Let_def)
next
  case False
  let ?q = "requests_queue s" and ?cap = "queue_capacity s" and ?w = "workers s ! i"
  have wf: "ring_wf ?cap ?q" and q: "0 < qsize ?q" using assms(1) False by (simp_all add: inv_defs)
  have ix: "head ?q < length (items ?q)" "t_id ?w < length (list_items s)"
    using wf assms(1,2) ids_ok_id [of s i] by (auto simp: ring_wf_def inv_defs)
  define r where "r = (ring_head ?q)\<lparr>req_dispatch_interval := time_diff now (req_arrival_time (ring_head ?q))\<rparr>"
  let ?w' = "?w\<lparr>pc := Handling r (stats_stamp ?w r)\<rparr>"
  let ?s = "set_worker i ?w' (s\<lparr>requests_queue := ring_drop ?cap ?q, list_items := (list_items s)[t_id ?w := r],
      list_size := list_size s + 1, taken := taken s @ [connfd r]\<rparr>)"
  have run: "worker_section i now s = Inr (signal_not_full ?s)"
    using ix False by (simp add: worker_section_def Let_def r_def)
  have qd: "queued s = connfd r # queued ?s" "held ?s = held s"
    using front_queued [OF wf q] by (simp_all add: queued_def r_def held_def set_worker_def)
  have b: "mset (busy_fds (workers ?s)) = add_mset (connfd r) (mset (busy_fds (workers s)))"
    "busy (workers ?s) = busy (workers s) + 1" "map t_id (workers ?s) = map t_id (workers s)"
    using busy_fds_update [OF assms(2), of ?w'] busy_update [OF assms(2), of ?w']
      map_id_update [OF assms(2), of ?w'] assms(3) by (simp_all add: set_worker_def)
  have f: "fds ?s = fds s" "length (workers ?s) = length (workers s)" "list_size ?s = list_size s + 1"
    "queue_capacity ?s = ?cap" "requests_queue ?s = ring_drop ?cap ?q" "m_pc ?s = m_pc s"
    "length (list_items ?s) = length (list_items s)" "taken ?s = taken s @ [connfd r]" "accepted ?s = accepted s"
    by (simp_all add: set_worker_def)
  have sleep: "pc w \<noteq> Asleep" if "w \<in> set (workers ?s)" for w
    using that assms(1) False set_update_subset_insert [of "workers s" i ?w']
    by (auto simp: inv_defs set_worker_def)
  have "server_inv p ?s"
    unfolding inv_defs full_def f b qd(2)
    using assms(1) qd q ring_drop_wf [OF wf q] sleep
    by (auto simp: inv_defs full_def)
  then show ?thesis using run signal_inv by metis
qed

lemma worker_close_inv:
  assumes "server_inv p s" "i < length (workers s)" "pc (workers s ! i) = Handling r st"
  shows "\<exists>s1. worker_close i r result s = Inr s1 \<and> server_inv p s1"
proof -
  let ?w = "(workers s ! i)\<lparr>pc := Closing result\<rparr>"
  define ws where "ws = (workers s)[i := ?w]"
  have b: "mset (busy_fds (workers s)) = add_mset (connfd r) (mset (busy_fds ws))"
    "busy ws = busy (workers s)" "map t_id ws = map t_id (workers s)" "length ws = length (workers s)"
    using busy_fds_update [OF assms(2), of ?w] busy_update [OF assms(2), of ?w]
      map_id_update [OF assms(2), of ?w] assms(3) by (simp_all add: ws_def)
  have fds: "mset (fds s) = add_mset (connfd r) (mset (queued s) + mset (busy_fds ws) + mset (held s))"
    using assms(1) b(1) by (simp add: inv_defs)
  then have "connfd r \<in># mset (fds s)" by simp
  then have m: "connfd r \<in> set (fds s)" by simp
  let ?s = "s\<lparr>fds := remove1 (connfd r) (fds s), workers := ws\<rparr>"
  have run: "worker_close i r result s = Inr ?s"
    by (simp add: worker_close_def close_fd_ok [OF m] set_worker_def ws_def)
  have sleep: "\<forall>w\<in>set ws. pc w = Asleep \<longrightarrow> qsize (requests_queue s) = 0"
    unfolding ws_def using assms(1) by (intro awake_update) (auto simp: inv_defs)
  have "queued ?s = queued s" "held ?s = held s" by (simp_all add: queued_def held_def)
  then have "server_inv p ?s" using assms(1) b sleep fds
    by (auto simp: inv_defs full_def)
  then show ?thesis using run by simp
qed

lemma worker_finish_inv:
  assumes "server_inv p s" "i < length (workers s)" "pc (workers s ! i) = Closing result"
  shows "\<exists>s1. worker_finish i result s = Inr s1 \<and> server_inv p s1"
proof -
  let ?v = "workers s ! i"
  define w where "w = ?v\<lparr>t_requests := t_requests ?v + 1,
      t_static := t_static ?v + (if result = STATIC then 1 else 0),
      t_dynamic := t_dynamic ?v + (if result = DYNAMIC then 1 else 0), pc := Ready\<rparr>"
  have w: "pc w = Ready" "t_id w = t_id ?v" by (simp_all add: w_def)
  define ws where "ws = (workers s)[i := w]"
  have b: "mset (busy_fds ws) = mset (busy_fds (workers s))" "busy (workers s) = busy ws + 1"
    "map t_id ws = map t_id (workers s)" "length ws = length (workers s)"
    using busy_fds_update [OF assms(2), of w] busy_update [OF assms(2), of w]
      map_id_update [OF assms(2), of w] assms(3) w by (simp_all add: ws_def)
  have ix: "t_id ?v < length (list_items s)"
    using assms(1,2) ids_ok_id [of s i] by (auto simp: inv_defs)
  let ?s = "s\<lparr>list_items := (list_items s)[t_id ?v := (list_items s ! t_id ?v)\<lparr>connfd := -1\<rparr>],
      list_size := list_size s - 1, workers := ws\<rparr>"
  have run: "worker_finish i result s = Inr (signal_not_full ?s)"
    using ix by (simp add: worker_finish_def Let_def set_worker_def ws_def w_def)
  have sleep: "\<forall>w\<in>set ws. pc w = Asleep \<longrightarrow> qsize (requests_queue s) = 0"
    unfolding ws_def using assms(1) w by (intro awake_update) (auto simp: inv_defs)
  let ?t = "signal_not_full ?s"
  have t: "queued ?t = queued s" "held ?t = held s" "m_pc ?t \<noteq> Sleeping" "workers ?t = ws" "fds ?t = fds s"
    "list_size ?t = list_size s - 1" "queue_capacity ?t = queue_capacity s" "requests_queue ?t = requests_queue s"
    "length (list_items ?t) = length (list_items s)" "taken ?t = taken s" "accepted ?t = accepted s"
    by (simp_all add: signal_not_full_def queued_def held_def)
  have "server_inv p ?t"
    unfolding inv_defs t b
    using assms(1) b sleep t(3) by (auto simp: inv_defs)
  then show ?thesis using run by simp
qed

lemma step_inv:
  assumes "step p s s1" "server_inv p s" "p \<noteq> None"
  shows "server_inv p s1"
  using assms(1)
proof (cases rule: step.cases)
  case (accept fd now)
  then show ?thesis using master_accept_inv [OF assms(2)] by simp
next
  case (admit rnd)
  then show ?thesis using master_section_inv [OF assms(2) _ assms(3), of rnd] by auto
next
  case master_wakes
  then show ?thesis using assms(2) by (auto simp: inv_defs full_def held_def queued_def)
next
  case (worker_runs i now)
  then show ?thesis using worker_section_inv [OF assms(2), of i now] by auto
next
  case (worker_wakes i)
  have "\<forall>w\<in>set (workers s). pc w = Asleep \<longrightarrow> qsize (requests_queue s) = 0"
    using assms(2) by (simp add: inv_defs)
  from awake_update [OF this, of "(workers s ! i)\<lparr>pc := Ready\<rparr>" i]
  have "\<forall>w\<in>set (workers s1). pc w = Asleep \<longrightarrow> qsize (requests_queue s) = 0"
    using worker_wakes by (simp add: set_worker_def)
  then show ?thesis using worker_wakes assms(2) busy_fds_update [of i "workers s" "(workers s ! i)\<lparr>pc := Ready\<rparr>"]
      busy_update [of i "workers s" "(workers s ! i)\<lparr>pc := Ready\<rparr>"]
      map_id_update [of i "workers s" "(workers s ! i)\<lparr>pc := Ready\<rparr>"]
    by (auto simp: inv_defs full_def set_worker_def)
next
  case (worker_closes i r st result)
  then show ?thesis using worker_close_inv [OF assms(2) worker_closes(1,2), of result] by auto
next
  case (worker_finishes i result)
  then show ?thesis using worker_finish_inv [OF assms(2) worker_finishes(1,2)] by auto
qed

section \<open>What holds in every reachable state\<close>

lemma create_workers_ok:
  "create_workers i rcs = Inr ws \<Longrightarrow>
   map t_id ws = [i..<i + length rcs] \<and> length ws = length rcs \<and> (\<forall>w\<in>set ws. pc w = Ready \<or> pc w = Absent)"
proof (induction rcs arbitrary: i ws)
  case (Cons rc rcs)
  then obtain ws' where "create_workers (i + 1) rcs = Inr ws'"
    "ws = \<lparr>t_id = i, t_requests = 0, t_static = 0, t_dynamic = 0, pc = (if rc = 0 then Ready else Absent)\<rparr> # ws'"
    by (auto simp: res_simps)
  then show ?case using Cons.IH [of "i + 1" ws'] by (simp add: upt_conv_Cons del: upt_Suc)
qed simp

lemma idle_workers:
  "\<forall>w\<in>set ws. pc w = Ready \<or> pc w = Absent \<Longrightarrow>
   busy ws = 0 \<and> busy_fds ws = [] \<and> (\<forall>w\<in>set ws. pc w \<noteq> Asleep)"
  by (induction ws) (auto simp: busy_def busy_fds_def)

lemma server_main_inv:
  assumes "server_main argv create_rc mem = Inr (p, s)" "0 < queue_capacity s"
  shows "server_inv p s \<and> m_pc s = Accepting"
proof -
  obtain threads capacity ws where s:
    "createWorkersPool (nat threads) create_rc = Inr ws"
    "s = \<lparr>requests_queue = createRequestQueue (map mem [0..<nat capacity]),
       list_items = map mem [0..<nat threads], list_size = 0, queue_capacity = nat capacity,
       m_pc = Accepting, m_connfd = 0, accept_time = zero_time, workers = ws, fds = [], accepted = [], taken = []\<rparr>"
    using assms(1) by (auto simp: server_main_def createRequestList_def res_simps)
  have ws: "map t_id ws = [0..<nat threads]" "length ws = nat threads" "\<forall>w\<in>set ws. pc w = Ready \<or> pc w = Absent"
    using create_workers_ok [of 0 _ ws] s(1) by (auto simp: createWorkersPool_def)
  show ?thesis using idle_workers [OF ws(3)] ws assms(2) s(2)
    by (simp add: inv_defs createRequestQueue_def ring_wf_def slot_def queued_def ring_list_def held_def full_def)
qed

lemma reach_inv: "reach p s0 s \<Longrightarrow> server_inv p s0 \<Longrightarrow> p \<noteq> None \<Longrightarrow> server_inv p s"
  by (induction rule: reach.induct) (auto intro: step_inv)

text \<open>A server with one slot, started with \<open>drop_head\<close>, that has accepted a connection.\<close>

definition demo_argv :: "string list" where
  "demo_argv = [''server'', ''8080'', ''2'', ''1'', ''dh'']"

definition demo_mem :: "nat \<Rightarrow> request" where
  "demo_mem i = \<lparr>connfd = 0, req_arrival_time = zero_time, req_dispatch_interval = zero_time\<rparr>"

definition demo_server :: server where
  "demo_server = snd (projr (server_main demo_argv (\<lambda>_. 0) demo_mem))"

lemma atoi_demo: "atoi ''8080'' = Inr 8080" "atoi ''2'' = Inr 2" "atoi ''1'' = Inr 1"
  by (simp_all add: atoi_def is_space_def is_digit_def value_of_def as_int_def)

lemma demo_server_started:
  "server_main demo_argv (\<lambda>_. 0) demo_mem = Inr (Some Drop_head, demo_server)" "queue_capacity demo_server = 1"
  by (simp_all add: demo_server_def server_main_def createRequestList_def getargs_def demo_argv_def atoi_demo createWorkersPool_def
    DO_SYS_def numeral_2_eq_2)

lemma demo_server_reach: "reach (Some Drop_head) demo_server (master_accept 4 zero_time demo_server)"
proof (rule reach.next_step [OF reach.start])
  show "step (Some Drop_head) demo_server (master_accept 4 zero_time demo_server)"
    using server_main_inv [OF demo_server_started(1)] demo_server_started(2)
    by (intro step.accept) (auto simp: demo_server_def server_main_def createRequestList_def getargs_def demo_argv_def atoi_demo
      createWorkersPool_def DO_SYS_def numeral_2_eq_2)
qed

text \<open>C1: in every reachable state of a server with a valid policy the waiting and the running
  requests together never exceed the capacity, the size of the list is the number of working
  workers, the indexes of the queue satisfy \<open>check_queue\<close>, and every open
  connection has exactly one owner: it waits in the queue, a worker handles it, or the master
  holds it. No connection leaks and none is closed twice.\<close>

theorem server_accounting:
  assumes "server_main argv create_rc mem = Inr (p, s0)" "p \<noteq> None" "0 < queue_capacity s0" "reach p s0 s"
  shows "qsize (requests_queue s) + list_size s \<le> queue_capacity s \<and> list_size s = busy (workers s) \<and>
    check_queue (head (requests_queue s)) (tail (requests_queue s)) (qsize (requests_queue s)) (queue_capacity s) \<and>
    distinct (fds s) \<and> mset (fds s) = mset (queued s @ busy_fds (workers s) @ held s)"
  using reach_inv [OF assms(4) _ assms(2)] server_main_inv [OF assms(1,3)] check_queue_wf
  by (auto simp: inv_defs)

theorem server_accounting_witness:
  "distinct (fds (master_accept 4 zero_time demo_server)) \<and>
   list_size (master_accept 4 zero_time demo_server) = busy (workers (master_accept 4 zero_time demo_server))"
  using server_accounting [OF demo_server_started(1) _ _ demo_server_reach] demo_server_started(2) by simp



text \<open>C10: requests are served in the order in which their connections were accepted: what the
  workers have taken, followed by the queue and the connection the master holds, is a
  subsequence of the accepted connections, for every policy, and with \<open>block\<close> nothing is
  dropped. No wakeup is lost: the master sleeps only while the server is full, a worker only
  while the queue is empty.\<close>

theorem server_order:
  assumes "server_main argv create_rc mem = Inr (p, s0)" "p \<noteq> None" "0 < queue_capacity s0" "reach p s0 s"
  shows "subseq (taken s @ queued s @ held s) (accepted s) \<and>
    (p = Some Block \<longrightarrow> taken s @ queued s @ held s = accepted s) \<and>
    (m_pc s = Sleeping \<longrightarrow> full s) \<and>
    (\<forall>w\<in>set (workers s). pc w = Asleep \<longrightarrow> qsize (requests_queue s) = 0)"
  using reach_inv [OF assms(4) _ assms(2)] server_main_inv [OF assms(1,3)] by (auto simp: inv_defs)

theorem server_order_witness:
  "subseq (taken (master_accept 4 zero_time demo_server) @ queued (master_accept 4 zero_time demo_server) @ [4])
     (accepted (master_accept 4 zero_time demo_server))"
  using server_order [OF demo_server_started(1) _ _ demo_server_reach] demo_server_started(2)
  by (simp add: held_def master_accept_def)

subsection \<open>Times and unknown policies\<close>

text \<open>The difference of two normalised times is normalised and exact.\<close>

lemma time_diff_normalised:
  assumes "0 \<le> tv_usec t" "tv_usec t < 1000000" "0 \<le> tv_usec now" "tv_usec now < 1000000"
  shows "0 \<le> tv_usec (time_diff now t) \<and> tv_usec (time_diff now t) < 1000000 \<and>
    1000000 * tv_sec (time_diff now t) + tv_usec (time_diff now t) =
      (1000000 * tv_sec now + tv_usec now) - (1000000 * tv_sec t + tv_usec t)"
  using assms by (auto simp: time_diff_def Let_def)

text \<open>An unknown policy is reported but not refused: the first overload calls through a pointer that
  was never set.\<close>

lemma unknown_policy_undefined:
  "full s \<Longrightarrow> master_section 2 (run_policy None rnd) s = Inl Ub"
  by (subst master_section.simps) (simp add: run_policy_def)

end
