(* ===== verification/Debug.thy ===== *)
theory Debug
  imports Server "HOL-Library.Signed_Division"
begin

text \<open>
  What \<^verbatim>\<open>web_server/server.c\<close> prints about its queue when it is built for debugging: \<open>print_queue\<close>,
  the whole array with marks for the head and the tail below it, and \<open>print_indexes\<close>, the indexes that
  \<open>drop_random\<close> picked and the connections behind them.
\<close>

section \<open>The queue\<close>

text \<open>The loop that counts digits leaves 0 in its variable, which is then tested for a sign.\<close>

function count_digits :: "int \<Rightarrow> nat \<Rightarrow> int \<times> nat" where
  "count_digits temp n = (if temp = 0 then (temp, n) else count_digits (temp sdiv 10) (n + 1))"
  by pat_completeness auto

termination
  by (relation "measure (\<lambda>(temp, n). nat \<bar>temp\<bar>)") (auto simp: signed_divide_int_def abs_mult)

declare count_digits.simps [simp del]

definition num_len :: "int \<Rightarrow> nat" where
  "num_len v = (case count_digits v 0 of (temp, n) \<Rightarrow> if temp < 0 then n + 1 else n)"

definition item_number :: "nat \<Rightarrow> requests_queue \<Rightarrow> nat \<Rightarrow> string" where
  "item_number cap q i = dec (connfd (items q ! i)) @ (if i + 1 < cap then '', '' else [])"

definition item_mark :: "requests_queue \<Rightarrow> nat \<Rightarrow> string" where
  "item_mark q i = (if i = head q then CHR ''h'' else if i = tail q then CHR ''t'' else CHR '' '') #
     replicate (num_len (connfd (items q ! i)) + 1) (CHR '' '')"

definition print_queue :: "nat \<Rightarrow> requests_queue \<Rightarrow> string res" where
  "print_queue cap q =
     (if cap \<le> length (items q) then
        Inr (''Head: '' @ dec (int (head q)) @ '', Tail: '' @ dec (int (tail q)) @ '', Size: '' @ dec (int (qsize q)) @
          '', Capacity: '' @ dec (int cap) @ [nl] @
          ''['' @ concat (map (item_number cap q) [0..<cap]) @ '']'' @ [nl] @
          '' '' @ concat (map (item_mark q) [0..<cap]) @ [nl])
      else Inl Ub)"

section \<open>The picked indexes\<close>

definition backspaces :: string where "backspaces = [CHR 0x08, CHR 0x08]"

text \<open>\<open>any\<close> is not reset between the two lists.\<close>

definition print_indexes :: "bool list \<Rightarrow> nat \<Rightarrow> nat \<Rightarrow> requests_queue \<Rightarrow> string" where
  "print_indexes rand_indexes n cap q =
     (let chosen = filter (\<lambda>i. rand_indexes ! i) [0..<n];
          any1 = (chosen \<noteq> []);
          any2 = (any1 \<or> chosen \<noteq> [])
      in ''picked indexes:'' @ [nl] @ ''['' @ concat (map (\<lambda>i. dec (int i) @ '', '') chosen) @
         (if any1 then backspaces else []) @ '']'' @ [nl] @
         ''picked values:'' @ [nl] @ ''['' @
         concat (map (\<lambda>i. dec (connfd (items q ! ((head q + i) mod cap))) @ '', '') chosen) @
         (if any2 then backspaces else []) @ '']'' @ [nl])"

section \<open>What is printed\<close>

lemma count_digits: "count_digits v n = (0, n + (if v = 0 then 0 else length (digits (nat \<bar>v\<bar>))))"
proof (induction v n rule: count_digits.induct)
  case (1 v n)
  show ?case
  proof (cases "v = 0")
    case False
    have d: "nat \<bar>v sdiv 10\<bar> = nat \<bar>v\<bar> div 10"
      using False by (simp add: signed_divide_int_def abs_mult nat_div_distrib)
    have z: "v sdiv 10 = 0 \<longleftrightarrow> nat \<bar>v\<bar> < 10"
      using False by (auto simp: signed_divide_int_def sgn_0_0)
    have l: "length (digits m) = (if m < 10 then 1 else length (digits (m div 10)) + 1)" for m
      by (subst digits.simps) simp
    show ?thesis using 1 False d z l [of "nat \<bar>v\<bar>"] by (subst count_digits.simps) auto
  qed (simp add: count_digits.simps)
qed

text \<open>The digits of a number without its sign; 0 counts as none.\<close>

lemma num_len: "num_len v = (if v = 0 then 0 else length (digits (nat \<bar>v\<bar>)))"
  by (simp add: num_len_def count_digits)

text \<open>The mark of every item stands below its first digit when all numbers before it are positive.\<close>

lemma print_queue_aligned:
  assumes "k < cap" "\<forall>i<k. 0 < connfd (items q ! i)"
  shows "length (concat (map (item_number cap q) [0..<k])) = length (concat (map (item_mark q) [0..<k]))"
proof -
  have "length (item_number cap q i) = length (item_mark q i)" if "i < k" for i
    using assms(1) assms(2) [rule_format, OF that] that by (simp add: item_number_def item_mark_def num_len dec_def)
  then have "map (length \<circ> item_number cap q) [0..<k] = map (length \<circ> item_mark q) [0..<k]" by auto
  then show ?thesis by (simp add: length_concat del: map_eq_conv)
qed

text \<open>After 0 and after a negative number the marks are one place too far to the left: the test for a
  sign is made when the number has become 0.\<close>

lemma print_queue_misaligned:
  assumes "i + 1 < cap" "connfd (items q ! i) \<le> 0"
  shows "length (item_number cap q i) = length (item_mark q i) + 1"
  using assms by (auto simp: item_number_def item_mark_def num_len dec_def digits.simps)

text \<open>The values printed are the connections of the requests that \<open>drop_random\<close> keeps.\<close>

lemma map_filter_kept:
  "length xs = length ch \<Longrightarrow> map (\<lambda>i. xs ! i) (filter (\<lambda>i. ch ! i) [0..<length xs]) = kept xs ch"
proof (induction xs ch rule: list_induct2)
  case (Cons x xs b ch)
  have "[0..<length (x # xs)] = 0 # map Suc [0..<length xs]" by (simp add: map_Suc_upt upt_conv_Cons del: upt_Suc)
  then show ?case using Cons by (simp add: filter_map comp_def)
qed simp

lemma print_indexes_kept:
  assumes "ring_wf cap q" "drop_half rnd cap q = (q', dropped)"
  shows "\<exists>t. print_indexes (picked rnd q) (qsize q) cap q =
    t @ ''picked values:'' @ [nl] @ ''['' @ concat (map (\<lambda>r. dec (connfd r) @ '', '') (ring_list cap q')) @
      (if ring_list cap q' \<noteq> [] then backspaces else []) @ '']'' @ [nl]"
proof -
  let ?c = "filter (\<lambda>i. picked rnd q ! i) [0..<qsize q]"
  note k = drop_half_kept [OF assms]
  let ?x = "\<lambda>i. items q ! ((head q + i) mod cap)"
  have "map ?x ?c = map (\<lambda>i. ring_list cap q ! i) ?c" by (simp add: ring_list_def slot_def)
  then have m: "map ?x ?c = ring_list cap q'"
    using map_filter_kept [of "ring_list cap q" "picked rnd q"] k(1,2) by (simp del: map_eq_conv)
  then have ne: "?c \<noteq> [] \<longleftrightarrow> ring_list cap q' \<noteq> []" by (metis map_is_Nil_conv)
  have v: "concat (map (\<lambda>i. dec (connfd (items q ! ((head q + i) mod cap))) @ '', '') ?c) =
      concat (map (\<lambda>r. dec (connfd r) @ '', '') (ring_list cap q'))"
    unfolding m [symmetric] map_map comp_def ..
  show ?thesis unfolding print_indexes_def Let_def disj_absorb v ne
    by (intro exI [of _ "''picked indexes:'' @ [nl] @ ''['' @ concat (map (\<lambda>i. dec (int i) @ '', '') ?c) @
         (if ring_list cap q' \<noteq> [] then backspaces else []) @ '']'' @ [nl]"]) simp
qed

end
