(* ===== verification/Client.thy ===== *)
theory Client
  imports Request
begin

text \<open>
  The HTTP client of \<^verbatim>\<open>web_server/client.c\<close>, which \<^verbatim>\<open>killer_client.c\<close> repeats: sending a request and
  printing the reply. Printing is over any source of lines; its output is the text written to
  standard output.
\<close>

section \<open>Sending\<close>

definition clientSend :: "int \<Rightarrow> string \<Rightarrow> string \<Rightarrow> conn \<Rightarrow> conn res" where
  "clientSend host_rc hostname filename s =
     rbind (Gethostname host_rc) (\<lambda>_.
     rbind (fits MAXLINE (''GET '' @ filename @ '' HTTP/1.1\<newline>'')) (\<lambda>buf.
     rbind (fits MAXLINE (buf @ ''host: '' @ hostname @ ''\<newline>'' @ CRLF)) (\<lambda>buf.
     Rio_writen buf s)))"

section \<open>Printing\<close>

text \<open>\<open>sscanf(buf, "Content-Length: %d ", &length)\<close>: the number, if one is read.\<close>

definition scan_length :: "string \<Rightarrow> int option res" where
  "scan_length buf =
     (if take 15 buf = ''Content-Length:'' then
        (let t = dropWhile is_space (drop 15 buf);
             neg = (t \<noteq> [] \<and> hd t = CHR ''-'');
             u = (if t \<noteq> [] \<and> (hd t = CHR ''-'' \<or> hd t = CHR ''+'') then tl t else t);
             ds = takeWhile is_digit u;
             v = (if neg then - int (value_of ds) else int (value_of ds))
         in if ds = [] then Inr None else rbind (as_int v) (\<lambda>v. Inr (Some v)))
      else Inr None)"

definition length_line :: "int option \<Rightarrow> string" where
  "length_line v = (case v of None \<Rightarrow> [] | Some n \<Rightarrow> ''Length = '' @ dec n @ ''\<newline>'')"

type_synonym 's reader = "string option \<Rightarrow> 's \<Rightarrow> (int \<times> string option \<times> 's) res"

fun header_loop :: "'s reader \<Rightarrow> nat \<Rightarrow> int \<Rightarrow> string option \<Rightarrow> string \<Rightarrow> 's \<Rightarrow> (string \<times> string option \<times> 's) res" where
  "header_loop readline fuel n buf out s =
     (if fuel = 0 then Inl Fuel
      else (case buf of None \<Rightarrow> Inl Ub
        | Some l \<Rightarrow>
            if c_str l \<noteq> CRLF \<and> 0 < n then
              rbind (readline buf s) (\<lambda>(n1, buf1, s1).
                case buf1 of None \<Rightarrow> Inl Ub
                | Some l1 \<Rightarrow> rbind (scan_length (c_str l1)) (\<lambda>v.
                    header_loop readline (fuel - 1) n1 buf1
                      (out @ ''Header: '' @ c_str l @ length_line v) s1))
            else Inr (out, buf, s)))"

declare header_loop.simps [simp del]

fun body_loop :: "'s reader \<Rightarrow> nat \<Rightarrow> int \<Rightarrow> string option \<Rightarrow> string \<Rightarrow> 's \<Rightarrow> (string \<times> 's) res" where
  "body_loop readline fuel n buf out s =
     (if fuel = 0 then Inl Fuel
      else if 0 < n then
        (case buf of None \<Rightarrow> Inl Ub
        | Some l \<Rightarrow> rbind (readline buf s) (\<lambda>(n1, buf1, s1).
            body_loop readline (fuel - 1) n1 buf1 (out @ c_str l) s1))
      else Inr (out, s))"

declare body_loop.simps [simp del]

definition print_reply :: "'s reader \<Rightarrow> nat \<Rightarrow> 's \<Rightarrow> (string \<times> 's) res" where
  "print_reply readline fuel s =
     rbind (readline None s) (\<lambda>(n, buf, s).
     rbind (header_loop readline fuel n buf [] s) (\<lambda>(out, buf, s).
     rbind (readline buf s) (\<lambda>(n, buf, s).
     body_loop readline fuel n buf out s)))"

definition clientPrint :: "nat \<Rightarrow> conn \<Rightarrow> (string \<times> conn) res" where
  "clientPrint fuel s = print_reply (Rio_readlineb MAXBUF) fuel (Rio_readinitb s)"

text \<open>\<open>main\<close>: \<open>connect\<close> are the results of the calls that open the connection.\<close>

definition client_main :: "string list \<Rightarrow> int \<times> ptr \<times> int \<Rightarrow> int \<Rightarrow> string \<Rightarrow> nat \<Rightarrow> int \<Rightarrow> conn \<Rightarrow> (string \<times> conn) res" where
  "client_main argv connect host_rc hostname fuel close_res s =
     (if length argv \<noteq> 4 then Inl (Exit 1)
      else rbind (atoi (argv ! 2)) (\<lambda>port.
           rbind (case connect of (sock, hp, rc) \<Rightarrow> Open_clientfd sock hp rc) (\<lambda>clientfd.
           rbind (clientSend host_rc hostname (argv ! 3) s) (\<lambda>s.
           rbind (clientPrint fuel s) (\<lambda>(out, s).
           rbind (Close close_res) (\<lambda>_. Inr (out, s)))))))"

section \<open>What is printed\<close>

text \<open>The header lines, and after each the length the next line gives.\<close>

fun header_text :: "string list \<Rightarrow> string" where
  "header_text [] = []"
| "header_text (h # hs) = ''Header: '' @ c_str h @
     (case hs of [] \<Rightarrow> [] | h' # _ \<Rightarrow> length_line (projr (scan_length (c_str h')))) @ header_text hs"

definition scans :: "string \<Rightarrow> bool" where
  "scans l \<longleftrightarrow> (\<exists>v. scan_length (c_str l) = Inr v)"

lemma scan_CRLF: "scan_length CRLF = Inr None"
  by (simp add: scan_length_def CRLF_def)

lemma body_loop_end: "0 < fuel \<Longrightarrow> body_loop readline fuel 0 buf out s = Inr (out, s)"
  by (subst body_loop.simps) simp

context line_source
begin

lemma body_all:
  "ok s \<Longrightarrow> length (lines_of k (rest s)) + 1 < fuel \<Longrightarrow> 0 < n \<Longrightarrow>
   \<exists>s1. body_loop readline fuel n (Some l) out s =
     Inr (out @ c_str l @ concat (map c_str (lines_of k (rest s))), s1) \<and> ok s1 \<and> frame s1 = frame s \<and> rest s1 = []"
proof (induction "lines_of k (rest s)" arbitrary: s fuel n l out)
  case Nil
  then have e: "rest s = []" using lines_of_Cons [OF k_pos, of "rest s"] by (cases "rest s") auto
  obtain s1 where "readline (Some l) s = Inr (0, Some l, s1)" "ok s1" "rest s1 = []" "frame s1 = frame s"
    using at_end [OF Nil(2) e] by blast
  then have "body_loop readline fuel n (Some l) out s = Inr (out @ c_str l, s1)"
    using Nil by (subst body_loop.simps) (simp add: body_loop_end)
  then show ?case using Nil \<open>ok s1\<close> \<open>rest s1 = []\<close> \<open>frame s1 = frame s\<close> by simp
next
  case (Cons x xs)
  obtain m s1 where s1: "readline (Some l) s = Inr (m, Some x, s1)" "0 < m" "ok s1" "frame s1 = frame s"
    "lines_of k (rest s1) = xs"
    using read_next [OF Cons(3) Cons(2) [symmetric], of "Some l"] by metis
  have "length (lines_of k (rest s1)) + 1 < fuel - 1"
    using Cons(4) s1(5) by (auto simp: Cons(2) [symmetric])
  from Cons(1) [OF s1(5) [symmetric] s1(3) this s1(2), of x "out @ c_str l"]
  show ?case using s1 Cons(2,4,5) by (subst body_loop.simps) (auto simp: Cons(2) [symmetric])
qed

lemma headers_all:
  "ok s \<Longrightarrow> lines_of k (rest s) = hs @ b # post \<Longrightarrow> blank b \<Longrightarrow> \<forall>h\<in>set hs. \<not> blank h \<and> scans h \<Longrightarrow>
   \<not> blank l \<Longrightarrow> length hs + 1 < fuel \<Longrightarrow> 0 < n \<Longrightarrow>
   \<exists>s1. header_loop readline fuel n (Some l) out s = Inr (out @ header_text (l # hs), Some b, s1) \<and>
     ok s1 \<and> frame s1 = frame s \<and> lines_of k (rest s1) = post"
proof (induction hs arbitrary: s fuel n l out)
  case Nil
  then have "lines_of k (rest s) = b # post" by simp
  from read_next [OF Nil(1) this, of "Some l"] obtain m s1 where s1:
    "readline (Some l) s = Inr (m, Some b, s1)" "ok s1" "frame s1 = frame s" "lines_of k (rest s1) = post"
    by metis
  have b: "c_str b = CRLF" "c_str l \<noteq> CRLF" using Nil(3,5) by (auto simp: blank_def)
  then have "header_loop readline fuel n (Some l) out s = Inr (out @ header_text [l], Some b, s1)"
    using Nil(6,7) s1(1)
    by (subst header_loop.simps, subst header_loop.simps) (simp add: scan_CRLF length_line_def)
  then show ?case using s1 by blast
next
  case (Cons h hs)
  from Cons.prems(2) have "lines_of k (rest s) = h # (hs @ b # post)" by simp
  from read_next [OF Cons.prems(1) this, of "Some l"] obtain m s1 where s1:
    "readline (Some l) s = Inr (m, Some h, s1)" "0 < m" "ok s1" "frame s1 = frame s"
    "lines_of k (rest s1) = hs @ b # post" by metis
  obtain v where v: "scan_length (c_str h) = Inr v" using Cons.prems(4) by (auto simp: scans_def)
  have l: "c_str l \<noteq> CRLF" using Cons.prems(5) by (simp add: blank_def)
  have step: "header_loop readline fuel n (Some l) out s =
      header_loop readline (fuel - 1) m (Some h) (out @ ''Header: '' @ c_str l @ length_line v) s1"
    using l v s1(1) Cons.prems(6,7) by (subst header_loop.simps) simp
  show ?case unfolding step
    using Cons.IH [OF s1(3,5) Cons.prems(3), of h "fuel - 1" m "out @ ''Header: '' @ c_str l @ length_line v"]
      Cons.prems s1 v by simp
qed

lemma headers_eof:
  "ok s \<Longrightarrow> \<forall>h\<in>set (lines_of k (rest s)). \<not> blank h \<and> scans h \<Longrightarrow> \<not> blank l \<Longrightarrow> scans l \<Longrightarrow>
   length (lines_of k (rest s)) + 1 < fuel \<Longrightarrow> 0 < n \<Longrightarrow>
   \<exists>out' l' s1. header_loop readline fuel n (Some l) out s = Inr (out', Some l', s1) \<and> ok s1 \<and> rest s1 = []"
proof (induction "lines_of k (rest s)" arbitrary: s fuel n l out)
  case Nil
  then have e: "rest s = []" using lines_of_Cons [OF k_pos, of "rest s"] by (cases "rest s") auto
  obtain s1 where s1: "readline (Some l) s = Inr (0, Some l, s1)" "ok s1" "rest s1 = []"
    using at_end [OF Nil(2) e] by blast
  obtain v where v: "scan_length (c_str l) = Inr v" using Nil(5) by (auto simp: scans_def)
  show ?case using Nil(4,6,7) s1 v
    by (subst header_loop.simps, subst header_loop.simps) (auto simp: blank_def)
next
  case (Cons x xs)
  obtain m s1 where s1: "readline (Some l) s = Inr (m, Some x, s1)" "0 < m" "ok s1"
    "lines_of k (rest s1) = xs"
    using read_next [OF Cons(3) Cons(2) [symmetric], of "Some l"] by metis
  have x: "\<not> blank x" "scans x" using Cons(4) by (auto simp: Cons(2) [symmetric])
  obtain v where v: "scan_length (c_str x) = Inr v" using x by (auto simp: scans_def)
  have step: "header_loop readline fuel n (Some l) out s =
      header_loop readline (fuel - 1) m (Some x) (out @ ''Header: '' @ c_str l @ length_line v) s1"
    using v s1(1) Cons(5,7,8) by (subst header_loop.simps) (auto simp: blank_def)
  have "\<forall>h\<in>set (lines_of k (rest s1)). \<not> blank h \<and> scans h" "length (lines_of k (rest s1)) + 1 < fuel - 1"
    using Cons(4,7) s1(4) by (auto simp: Cons(2) [symmetric])
  from Cons(1) [OF s1(4) [symmetric] s1(3) this(1) x this(2) s1(2)] show ?case unfolding step .
qed

lemma print_reply_prints:
  assumes "ok s" "lines_of k (rest s) = hs @ b # post" "blank b" "\<forall>h\<in>set hs. \<not> blank h \<and> scans h"
    "length hs + length post + 2 < fuel"
  shows "\<exists>s1. print_reply readline fuel s = Inr (header_text hs @ concat (map c_str post), s1) \<and> rest s1 = []"
proof -
  have body: "\<exists>s1. rbind (readline buf s2) (\<lambda>(n, buf, s). body_loop readline fuel n buf out s) =
      Inr (out @ concat (map c_str post), s1) \<and> rest s1 = []"
    if s2: "ok s2" "lines_of k (rest s2) = post" for s2 buf out
  proof (cases post)
    case Nil
    then have "rest s2 = []" using s2(2) lines_of_Cons [OF k_pos, of "rest s2"] by (cases "rest s2") auto
    then show ?thesis using at_end [OF s2(1), of buf] Nil assms(5)
      by (auto simp: body_loop_end)
  next
    case (Cons x xs)
    with s2(2) have "lines_of k (rest s2) = x # xs" by simp
    from read_next [OF s2(1) this] obtain m s3 where s3: "readline buf s2 = Inr (m, Some x, s3)" "0 < m"
      "ok s3" "lines_of k (rest s3) = xs" by metis
    then show ?thesis using body_all [OF s3(3), of fuel m x out] assms(5) Cons by auto
  qed
  show ?thesis
  proof (cases hs)
    case Nil
    with assms(2) have "lines_of k (rest s) = b # post" by simp
    from read_next [OF assms(1) this] obtain m s2 where s2: "readline None s = Inr (m, Some b, s2)"
      "ok s2" "lines_of k (rest s2) = post" by metis
    have "header_loop readline fuel m (Some b) [] s2 = Inr ([], Some b, s2)"
      using assms(3,5) by (subst header_loop.simps) (simp add: blank_def)
    then show ?thesis using body [OF s2(2,3), of "Some b" "[]"] Nil s2(1) by (simp add: print_reply_def)
  next
    case (Cons h hs')
    with assms(2) have "lines_of k (rest s) = h # (hs' @ b # post)" by simp
    from read_next [OF assms(1) this] obtain m s2 where s2: "readline None s = Inr (m, Some h, s2)" "0 < m"
      "ok s2" "lines_of k (rest s2) = hs' @ b # post" by metis
    obtain s3 where s3: "header_loop readline fuel m (Some h) [] s2 = Inr (header_text hs, Some b, s3)"
      "ok s3" "lines_of k (rest s3) = post"
      using headers_all [OF s2(3,4) assms(3), of h fuel m "[]"] assms(4,5) Cons s2(2) by auto
    show ?thesis using body [OF s3(2,3), of "Some b" "header_text hs"] s2(1) s3(1)
      by (simp add: print_reply_def)
  qed
qed

lemma print_reply_eof:
  assumes "ok s" "rest s \<noteq> []" "\<forall>h\<in>set (lines_of k (rest s)). \<not> blank h \<and> scans h"
    "length (lines_of k (rest s)) + 1 < fuel"
  shows "\<exists>out s1. print_reply readline fuel s = Inr (out, s1)"
proof -
  obtain h hs where ls: "lines_of k (rest s) = h # hs"
    using lines_of_Cons [OF k_pos assms(2)] by auto
  from read_next [OF assms(1) this] obtain m s2 where s2: "readline None s = Inr (m, Some h, s2)" "0 < m"
    "ok s2" "lines_of k (rest s2) = hs" by metis
  obtain out l s3 where s3: "header_loop readline fuel m (Some h) [] s2 = Inr (out, Some l, s3)" "ok s3" "rest s3 = []"
    using headers_eof [OF s2(3), of h fuel m "[]"] assms(3,4) s2 ls by auto
  show ?thesis using at_end [OF s3(2,3), of "Some l"] s2(1) s3 assms(4)
    by (auto simp: print_reply_def body_loop_end)
qed

end

text \<open>C40: the client prints a reply in full and returns: every header line up to the empty line,
  preceded by \<open>Header:\<close>, the length after the line before a \<open>Content-Length\<close> line, and then the
  lines of the body as they are; a reply that ends within the headers ends the loops too.\<close>

theorem clientPrint_prints:
  assumes "sound s" "k = MAXLINE - 1"
    "length (lines_of k (stream (rds s))) + 1 < fuel"
    "\<forall>h\<in>set (lines_of k (stream (rds s))). scans h" "stream (rds s) \<noteq> []"
  shows "(\<exists>out s1. clientPrint fuel s = Inr (out, s1)) \<and>
    (\<forall>hs b post. lines_of k (stream (rds s)) = hs @ b # post \<and> blank b \<and> \<not> list_ex blank hs \<longrightarrow>
      (\<exists>s1. clientPrint fuel s = Inr (header_text hs @ concat (map c_str post), s1) \<and> content s1 = []))"
proof -
  have init: "sound (Rio_readinitb s)" "content (Rio_readinitb s) = stream (rds s)"
    using assms(1) by (auto simp: Rio_readinitb_def rio_readinitb_def sound_def content_def)
  have buf: "MAXBUF = MAXLINE" by (simp add: MAXBUF_def MAXLINE_def)
  have found: "\<exists>s1. clientPrint fuel s = Inr (header_text hs @ concat (map c_str post), s1) \<and> content s1 = []"
    if "lines_of k (stream (rds s)) = hs @ b # post" "blank b" "\<not> list_ex blank hs" for hs b post
    using rio.print_reply_prints [OF init(1), of hs b post fuel] that init(2) assms(2-4)
    by (auto simp: clientPrint_def buf list_ex_iff)
  have "\<exists>out s1. clientPrint fuel s = Inr (out, s1)"
  proof (cases "\<exists>b\<in>set (lines_of k (stream (rds s))). blank b")
    case True
    then obtain hs b post where "lines_of k (stream (rds s)) = hs @ b # post" "blank b" "\<forall>h\<in>set hs. \<not> blank h"
      using split_list_first_prop [OF True] by blast
    then show ?thesis using found [of hs b post] by (auto simp: list_ex_iff)
  next
    case False
    then show ?thesis using rio.print_reply_eof [OF init(1), of fuel] init(2) assms(2-5)
      by (auto simp: clientPrint_def buf)
  qed
  then show ?thesis using found by blast
qed

definition demo_reply :: conn where
  "demo_reply = demo_request\<lparr>rds := [Data (''Content-Length: 2'' @ CRLF @ [cr]), RIntr, Data ''\<newline>hi'']\<rparr>"

lemma demo_reply_lines:
  "stream (rds demo_reply) = ''Content-Length: 2'' @ CRLF @ CRLF @ ''hi''"
  "lines_of 8191 (''Content-Length: 2'' @ CRLF @ CRLF @ ''hi'') = [''Content-Length: 2'' @ CRLF, CRLF, ''hi'']"
proof -
  have "lines_of 8191 ''hi'' = [''hi'']" by (simp add: lines_of.simps line_of_Cons)
  then show "lines_of 8191 (''Content-Length: 2'' @ CRLF @ CRLF @ ''hi'') = [''Content-Length: 2'' @ CRLF, CRLF, ''hi'']"
    using lines_of_whole [of "''Content-Length: 2'' @ [cr]" 8191 "CRLF @ ''hi''"]
      lines_of_whole [of "[cr]" 8191 "''hi''"] by (simp add: CRLF_def)
qed (simp add: demo_reply_def CRLF_def)

theorem clientPrint_prints_witness:
  "\<exists>s1. clientPrint 5 demo_reply = Inr (''Header: Content-Length: 2'' @ CRLF @ ''hi'', s1)"
proof -
  have scan: "scans (''Content-Length: 2'' @ CRLF)" "scans CRLF" "scans ''hi''"
    by (simp_all add: scans_def scan_length_def CRLF_def is_space_def is_digit_def as_int_def value_of_def)
  have bl: "\<not> blank (''Content-Length: 2'' @ CRLF)" "blank CRLF" by (simp_all add: blank_def CRLF_def)
  have so: "sound demo_reply" by (simp add: demo_reply_def sound_def CRLF_def)
  let ?h = "''Content-Length: 2'' @ CRLF"
  have ls: "lines_of 8191 (stream (rds demo_reply)) = [?h] @ CRLF # [''hi'']"
    using demo_reply_lines by (simp only: append_Cons append_Nil)
  have pre: "8191 = MAXLINE - 1" "length (lines_of 8191 (stream (rds demo_reply))) + 1 < 5"
    "\<forall>h\<in>set (lines_of 8191 (stream (rds demo_reply))). scans h" "stream (rds demo_reply) \<noteq> []"
    using scan by (simp_all only: ls) (simp_all add: MAXLINE_def demo_reply_lines(1))
  have "\<exists>s1. clientPrint 5 demo_reply = Inr (header_text [?h] @ concat (map c_str [''hi'']), s1) \<and> content s1 = []"
    by (rule clientPrint_prints [OF so pre, THEN conjunct2, rule_format, of "[?h]" CRLF])
      (use ls bl in \<open>simp only: list.pred_inject list_ex_iff list.set ball_simps bex_simps simp_thms\<close>)
  then show ?thesis by (auto simp: CRLF_def)
qed

end
