(* ===== verification/Killer.thy ===== *)
theory Killer
  imports Client
begin

text \<open>
  The load generator \<^verbatim>\<open>web_server/killer_client.c\<close>: every round it collects the clients that have ended
  and starts a new one in the next slot, when that is free. The children of the process are a table:
  \<open>Some True\<close> runs, \<open>Some False\<close> has ended and is to be waited for. The pause after a \<open>fork\<close> is not
  modelled.
\<close>

section \<open>A client\<close>

text \<open>\<open>clientSend\<close> and \<open>clientPrint\<close> are copies of those of \<^verbatim>\<open>client.c\<close>.\<close>

definition killer_send :: "int \<Rightarrow> string \<Rightarrow> string \<Rightarrow> conn \<Rightarrow> conn res" where
  "killer_send host_rc hostname filename s = clientSend host_rc hostname filename s"

definition killer_print :: "nat \<Rightarrow> conn \<Rightarrow> (string \<times> conn) res" where
  "killer_print fuel s = clientPrint fuel s"

text \<open>The child: what it prints, and its connection when it ends.\<close>

definition client :: "string list \<Rightarrow> int \<times> ptr \<times> int \<Rightarrow> int \<Rightarrow> string \<Rightarrow> nat \<Rightarrow> int \<Rightarrow> conn \<Rightarrow> (string \<times> conn) res" where
  "client argv connect host_rc hostname fuel close_res s =
     rbind (atoi (argv ! 2)) (\<lambda>port.
     rbind (case connect of (sock, hp, rc) \<Rightarrow> Open_clientfd sock hp rc) (\<lambda>clientfd.
     rbind (killer_send host_rc hostname (argv ! 3) s) (\<lambda>s.
     rbind (killer_print fuel s) (\<lambda>(out, s).
     rbind (Close close_res) (\<lambda>_. Inr (out, s))))))"

lemma client_is_client:
  "length argv = 4 \<Longrightarrow> client argv connect host_rc hostname fuel close_res s = client_main argv connect host_rc hostname fuel close_res s"
  by (simp add: client_def client_main_def killer_send_def killer_print_def)

section \<open>The rounds\<close>

definition MAX_CLIENTS :: nat where "MAX_CLIENTS = 100"

record killer =
  clients :: "int list"
  children :: "int \<Rightarrow> bool option"
  clients_count :: nat
  slot :: nat
  shown :: "(nat \<times> nat) list"

text \<open>The inner loop: a client that runs is counted, any other slot is freed.\<close>

fun collect :: "int list \<Rightarrow> (int \<Rightarrow> bool option) \<Rightarrow> int list \<times> (int \<Rightarrow> bool option) \<times> nat" where
  "collect [] ch = ([], ch, 0)"
| "collect (c # cs) ch =
     (if 0 < c then
        (if ch c = Some True then (case collect cs ch of (ds, ch1, n) \<Rightarrow> (c # ds, ch1, n + 1))
         else (case collect cs (ch(c := None)) of (ds, ch1, n) \<Rightarrow> (-1 # ds, ch1, n)))
      else (case collect cs ch of (ds, ch1, n) \<Rightarrow> (c # ds, ch1, n)))"

text \<open>One round in the parent; \<open>r\<close> is what \<open>fork\<close> returns, if it is called.\<close>

definition killer_round :: "int \<Rightarrow> killer \<Rightarrow> killer" where
  "killer_round r s = (case collect (clients s) (children s) of (cs, ch, count_running) \<Rightarrow>
     let s1 = s\<lparr>clients := cs, children := ch, shown := shown s @ [(clients_count s, count_running)]\<rparr>;
         s2 = (if cs ! slot s < 0
               then s1\<lparr>clients := cs[slot s := r], children := (if 0 < r then ch(r \<mapsto> True) else ch),
                       clients_count := (if 0 < r then clients_count s + 1 else clients_count s)\<rparr>
               else s1)
     in s2\<lparr>slot := (slot s + 1) mod MAX_CLIENTS\<rparr>)"

definition killer_start :: killer where
  "killer_start = \<lparr>clients = replicate MAX_CLIENTS (-1), children = (\<lambda>_. None), clients_count = 0, slot = 0, shown = []\<rparr>"

text \<open>\<open>fork\<close> fails or returns a process that is not a child yet; a child can end at any time.\<close>

inductive kstep :: "killer \<Rightarrow> killer \<Rightarrow> bool" where
  Round: "r = -1 \<or> 0 < r \<and> children s r = None \<Longrightarrow> kstep s (killer_round r s)"
| Ends: "children s p = Some True \<Longrightarrow> kstep s (s\<lparr>children := (children s)(p \<mapsto> False)\<rparr>)"

inductive kreach :: "killer \<Rightarrow> bool" where
  Start: "kreach killer_start"
| Step: "kreach s \<Longrightarrow> kstep s t \<Longrightarrow> kreach t"

section \<open>No client is lost\<close>

definition killer_ok :: "killer \<Rightarrow> bool" where
  "killer_ok s \<longleftrightarrow> length (clients s) = MAX_CLIENTS \<and> slot s < MAX_CLIENTS \<and>
     distinct (filter (\<lambda>c. 0 < c) (clients s)) \<and> (\<forall>c\<in>set (clients s). c = -1 \<or> 0 < c) \<and>
     (\<forall>p. children s p \<noteq> None \<longleftrightarrow> 0 < p \<and> p \<in> set (clients s)) \<and>
     card (dom (children s)) \<le> clients_count s"

lemma collect_spec:
  "distinct (filter (\<lambda>c. 0 < c) cs) \<Longrightarrow>
   collect cs ch = (map (\<lambda>c. if 0 < c \<and> ch c \<noteq> Some True then -1 else c) cs,
     (\<lambda>p. if 0 < p \<and> p \<in> set cs \<and> ch p \<noteq> Some True then None else ch p),
     length (filter (\<lambda>c. 0 < c \<and> ch c = Some True) cs))"
proof (induction cs arbitrary: ch)
  case (Cons c cs)
  show ?case
  proof (cases "0 < c \<and> ch c \<noteq> Some True")
    case True
    then have c: "c \<notin> set cs" using Cons.prems by simp
    let ?ch = "ch(c := None)"
    have "map (\<lambda>d. if 0 < d \<and> ?ch d \<noteq> Some True then -1 else d) cs =
        map (\<lambda>d. if 0 < d \<and> ch d \<noteq> Some True then -1 else d) cs"
      using c by (intro map_cong) auto
    moreover have "filter (\<lambda>d. 0 < d \<and> ?ch d = Some True) cs = filter (\<lambda>d. 0 < d \<and> ch d = Some True) cs"
      using c by (intro filter_cong) auto
    moreover have "(\<lambda>p. if 0 < p \<and> p \<in> set cs \<and> ?ch p \<noteq> Some True then None else ?ch p) =
        (\<lambda>p. if 0 < p \<and> p \<in> set (c # cs) \<and> ch p \<noteq> Some True then None else ch p)"
      using True by (auto simp: fun_eq_iff)
    moreover have "distinct (filter (\<lambda>c. 0 < c) cs)" using Cons.prems by (simp split: if_splits)
    ultimately have "collect cs ?ch = (map (\<lambda>d. if 0 < d \<and> ch d \<noteq> Some True then -1 else d) cs,
        (\<lambda>p. if 0 < p \<and> p \<in> set (c # cs) \<and> ch p \<noteq> Some True then None else ch p),
        length (filter (\<lambda>d. 0 < d \<and> ch d = Some True) cs))"
      using Cons.IH [of ?ch] by (simp only:)
    then show ?thesis using True by (simp del: fun_upd_apply)
  next
    case False
    then show ?thesis using Cons.IH [of ch] Cons.prems by (auto simp: fun_eq_iff split: if_splits)
  qed
qed simp


lemma killer_ok_start: "killer_ok killer_start"
  by (simp add: killer_ok_def killer_start_def MAX_CLIENTS_def)

lemma killer_ok_ends:
  assumes "killer_ok s" "children s p = Some True"
  shows "killer_ok (s\<lparr>children := (children s)(p \<mapsto> False)\<rparr>)"
proof -
  have same: "((children s)(p \<mapsto> False)) q \<noteq> None \<longleftrightarrow> children s q \<noteq> None" for q
    using assms(2) by (cases "q = p") auto
  have "dom ((children s)(p \<mapsto> False)) = dom (children s)" using same by (auto simp: dom_def)
  then show ?thesis using assms(1) by (simp add: killer_ok_def same del: fun_upd_apply not_None_eq dom_fun_upd)
qed

text \<open>The state after the inner loop.\<close>

lemma killer_collect:
  assumes "killer_ok s" "collect (clients s) (children s) = (cs, ch, n)"
  shows "length cs = MAX_CLIENTS" "distinct (filter (\<lambda>c. 0 < c) cs)" "\<forall>c\<in>set cs. c = -1 \<or> 0 < c"
    "\<forall>p. ch p = (if children s p = Some True then Some True else None)"
    "\<forall>p. ch p \<noteq> None \<longleftrightarrow> 0 < p \<and> p \<in> set cs" "n = card (dom ch)" "finite (dom ch)"
proof -
  let ?C = "clients s" and ?H = "children s"
  have d: "distinct (filter (\<lambda>c. 0 < c) ?C)" and neg: "\<forall>c\<in>set ?C. c = -1 \<or> 0 < c"
    and h: "\<forall>p. ?H p \<noteq> None \<longleftrightarrow> 0 < p \<and> p \<in> set ?C" and len: "length ?C = MAX_CLIENTS"
    using assms(1) by (auto simp: killer_ok_def)
  note spec = collect_spec [OF d, of ?H]
  have cs: "cs = map (\<lambda>c. if 0 < c \<and> ?H c \<noteq> Some True then -1 else c) ?C"
    and ch: "ch = (\<lambda>p. if 0 < p \<and> p \<in> set ?C \<and> ?H p \<noteq> Some True then None else ?H p)"
    and n: "n = length (filter (\<lambda>c. 0 < c \<and> ?H c = Some True) ?C)"
    using assms(2) unfolding spec by simp_all
  show "length cs = MAX_CLIENTS" using len by (simp add: cs)
  show "\<forall>c\<in>set cs. c = -1 \<or> 0 < c" using neg by (auto simp: cs)
  show chp: "\<forall>p. ch p = (if ?H p = Some True then Some True else None)"
  proof
    fix p show "ch p = (if ?H p = Some True then Some True else None)"
      using h [rule_format, of p] by (cases "?H p") (auto simp: ch)
  qed
  have filt: "filter (\<lambda>c. 0 < c) cs = filter (\<lambda>c. 0 < c \<and> ?H c = Some True) ?C"
  proof -
    have "filter (\<lambda>c. 0 < c) (map (\<lambda>c. if 0 < c \<and> ?H c \<noteq> Some True then -1 else c) xs) =
        filter (\<lambda>c. 0 < c \<and> ?H c = Some True) xs" for xs :: "int list"
      by (induction xs) auto
    then show ?thesis unfolding cs .
  qed
  show "distinct (filter (\<lambda>c. 0 < c) cs)"
    unfolding filt using d by (metis distinct_filter filter_filter)
  have mem: "0 < p \<and> p \<in> set cs \<longleftrightarrow> 0 < p \<and> p \<in> set ?C \<and> ?H p = Some True" for p
    using arg_cong [OF filt, of set] by (auto simp: set_eq_iff)
  show iff: "\<forall>p. ch p \<noteq> None \<longleftrightarrow> 0 < p \<and> p \<in> set cs"
    using chp mem h by (metis option.distinct(1))
  have "dom ch = set (filter (\<lambda>c. 0 < c \<and> ?H c = Some True) ?C)"
    using iff mem by (auto simp: dom_def)
  moreover have "distinct (filter (\<lambda>c. 0 < c \<and> ?H c = Some True) ?C)"
    using d by (metis distinct_filter filter_filter)
  ultimately show "n = card (dom ch)" "finite (dom ch)"
    unfolding n using distinct_card [of "filter (\<lambda>c. 0 < c \<and> ?H c = Some True) ?C"] by simp_all
qed

lemma killer_ok_round:
  assumes "killer_ok s" "r = -1 \<or> 0 < r \<and> children s r = None"
  shows "killer_ok (killer_round r s)"
proof -
  obtain cs ch n where c: "collect (clients s) (children s) = (cs, ch, n)" by (cases "collect (clients s) (children s)") auto
  note k = killer_collect [OF assms(1) c]
  have i: "slot s < length cs" "(slot s + 1) mod MAX_CLIENTS < MAX_CLIENTS"
    using assms(1) k(1) by (simp_all add: killer_ok_def MAX_CLIENTS_def)
  have "finite (dom (children s))"
    using assms(1) finite_subset [of "dom (children s)" "set (clients s)"] by (auto simp: killer_ok_def)
  then have "card (dom ch) \<le> card (dom (children s))"
    using k(4) by (intro card_mono) (auto split: if_splits)
  then have count: "card (dom ch) \<le> clients_count s" using assms(1) by (simp add: killer_ok_def)
  have idle: "cs[slot s := -1] = cs" if "cs ! slot s < 0"
    using that k(3) nth_mem [OF i(1)] list_update_id [of cs "slot s"] by fastforce
  show ?thesis
  proof (cases "cs ! slot s < 0 \<and> 0 < r")
    case False
    then have run: "killer_round r s = s\<lparr>clients := cs, children := ch, shown := shown s @ [(clients_count s, n)],
        slot := (slot s + 1) mod MAX_CLIENTS\<rparr>"
      using assms(2) c idle by (cases "cs ! slot s < 0") (auto simp: killer_round_def Let_def)
    show ?thesis using k(1-3,5) count i(2) unfolding run killer_ok_def by simp
  next
    case True
    have new: "ch r = None" using assms(2) True k(4) [rule_format, of r] by simp
    then have new2: "r \<notin> set cs" using True k(5) [rule_format, of r] by simp
    obtain xs y ys where xs: "cs = xs @ y # ys" "length xs = slot s"
      using id_take_nth_drop [OF i(1)] i(1) by (metis length_take min.absorb4)
    then have y: "y < 0" "cs[slot s := r] = xs @ r # ys" using True xs(2) [symmetric] by (simp_all add: xs(1) list_update_append)
    have run: "killer_round r s = s\<lparr>clients := xs @ r # ys, children := ch(r \<mapsto> True),
        shown := shown s @ [(clients_count s, n)], clients_count := clients_count s + 1,
        slot := (slot s + 1) mod MAX_CLIENTS\<rparr>"
      using True c y(2) by (simp add: killer_round_def Let_def)
    have "card (dom (ch(r \<mapsto> True))) \<le> clients_count s + 1"
      using count k(7) new by (simp add: card_insert_if)
    moreover have "\<forall>p. (ch(r \<mapsto> True)) p \<noteq> None \<longleftrightarrow> 0 < p \<and> p \<in> set (xs @ r # ys)"
    proof
      fix p show "(ch(r \<mapsto> True)) p \<noteq> None \<longleftrightarrow> 0 < p \<and> p \<in> set (xs @ r # ys)"
        using k(5) [rule_format, of p] y(1) True by (auto simp: xs(1))
    qed
    moreover have "distinct (filter (\<lambda>c. 0 < c) (xs @ r # ys))" "\<forall>c\<in>set (xs @ r # ys). c = -1 \<or> 0 < c"
      "length (xs @ r # ys) = MAX_CLIENTS"
      using k(1-3) y(1) True new2 unfolding xs(1) by auto
    ultimately show ?thesis using i(2) unfolding run killer_ok_def by simp
  qed
qed

lemma kreach_ok: "kreach s \<Longrightarrow> killer_ok s"
proof (induction rule: kreach.induct)
  case (Step s t)
  from Step.hyps(2) Step.IH show ?case
    by (cases rule: kstep.cases) (auto intro: killer_ok_round killer_ok_ends)
qed (rule killer_ok_start)


definition demo_killer :: killer where
  "demo_killer = (let s = killer_round 7 killer_start in s\<lparr>children := (children s)(7 \<mapsto> False)\<rparr>)"

lemma demo_killer_children:
  "children (killer_round 7 killer_start) 7 = Some True" "children (killer_round 7 killer_start) 8 = None"
  by code_simp+

lemma demo_killer_reached: "kreach demo_killer"
proof -
  have "kreach (killer_round 7 killer_start)"
    by (rule kreach.Step [OF kreach.Start kstep.Round]) (simp add: killer_start_def)
  from kreach.Step [OF this kstep.Ends [OF demo_killer_children(1)]] show ?thesis
    by (simp add: demo_killer_def Let_def)
qed


end
