(* ===== verification/Cgi.thy ===== *)
theory Cgi
  imports Request
begin

text \<open>
  The CGI program \<^verbatim>\<open>web_server/output.c\<close>. Numbers with a fraction are read and printed by the C
  library: \<open>atof\<close> and \<open>fmt\<close> (the format \<open>%.2f\<close>) are parameters, as are the seconds that
  \<open>usleep\<close> really took.
\<close>

definition spinfor :: "'f \<Rightarrow> (string \<Rightarrow> 'f) \<Rightarrow> string option \<Rightarrow> 'f" where
  "spinfor five atof query = (case query of
     None \<Rightarrow> five
   | Some buf \<Rightarrow> (let p = takeWhile (\<lambda>c. c \<noteq> CHR ''&'') (dropWhile (\<lambda>c. c = CHR ''&'') buf)
       in if p = [] then five else atof p))"

text \<open>The text is built by \<open>sprintf\<close> onto the buffer it also reads from; it is taken to append.\<close>

definition output_body :: "string \<Rightarrow> string res" where
  "output_body elapsed =
     rbind (fits MAXBUF (''<p>Welcome to the CGI program</p>'' @ CRLF)) (\<lambda>content.
     rbind (fits MAXBUF (content @ ''<p>My only purpose is to waste time on the server!</p>'' @ CRLF)) (\<lambda>content.
     fits MAXBUF (content @ ''<p>I spun for '' @ elapsed @ '' seconds</p>'' @ CRLF)))"

definition output_main :: "'f \<Rightarrow> (string \<Rightarrow> 'f) \<Rightarrow> ('f \<Rightarrow> 'f) \<Rightarrow> ('f \<Rightarrow> string) \<Rightarrow> string option \<Rightarrow> string res" where
  "output_main five atof sleeps fmt query =
     rbind (output_body (fmt (sleeps (spinfor five atof query)))) (\<lambda>content.
       Inr (''Content-length: '' @ dec (int (length content)) @ CRLF @
         ''Content-type: text/html'' @ CRLF @ CRLF @ content))"

lemma output_body_ok:
  assumes "length elapsed \<le> 8000"
  shows "output_body elapsed = Inr (''<p>Welcome to the CGI program</p>'' @ CRLF @
    ''<p>My only purpose is to waste time on the server!</p>'' @ CRLF @ ''<p>I spun for '' @ elapsed @ '' seconds</p>'' @ CRLF)"
  using assms by (simp add: output_body_def fits_def MAXBUF_def CRLF_def)

text \<open>The length the program announces is the length of the text after the empty line.\<close>

lemma output_length:
  assumes "length (fmt (sleeps (spinfor five atof query))) \<le> 8000"
  obtains body where "output_main five atof sleeps fmt query =
      Inr (''Content-length: '' @ dec (int (length body)) @ CRLF @ ''Content-type: text/html'' @ CRLF @ CRLF @ body)"
proof -
  obtain body where b: "output_body (fmt (sleeps (spinfor five atof query))) = Inr body"
    using output_body_ok [OF assms] by blast
  show thesis by (rule that [of body]) (simp only: output_main_def b rbind.simps)
qed

lemma spinfor_default: "spinfor five atof None = five" "spinfor five atof (Some ''&&'') = five"
  "spinfor five atof (Some ''2.5&x'') = atof ''2.5''"
  by (simp_all add: spinfor_def)

text \<open>The server runs it with the arguments of the URI, and its output follows the server's headers.\<close>

lemma served_output:
  assumes "exec os f = Some (\<lambda>args. projr (output_main five atof sleeps fmt (Some args)))"
    "0 \<le> setenv_rc os" "0 \<le> dup2_rc os" "length (fmt (sleeps (spinfor five atof (Some args)))) \<le> 8000"
  obtains body where "dynamic_reply (cgi_child os f args) stats =
      dynamic_reply [] stats @ ''Content-length: '' @ dec (int (length body)) @ CRLF @
      ''Content-type: text/html'' @ CRLF @ CRLF @ body"
proof -
  obtain body where b: "output_main five atof sleeps fmt (Some args) =
      Inr (''Content-length: '' @ dec (int (length body)) @ CRLF @ ''Content-type: text/html'' @ CRLF @ CRLF @ body)"
    using output_length [where fmt = fmt and sleeps = sleeps and five = five and atof = atof and query = "Some args"] assms(4)
    by blast
  have run: "cgi_child os f args = projr (output_main five atof sleeps fmt (Some args))"
    using assms(1-3) by (simp add: cgi_child_def Setenv_def Dup2_def)
  show thesis by (rule that [of body]) (simp only: run b sum.sel dynamic_reply_def append_assoc append_Nil)
qed

end
