(* ===== verification/Cmdline.thy ===== *)
theory Cmdline
  imports CString
begin

text \<open>
  The parsing half of \<^verbatim>\<open>skeleton_smash/Commands.cpp\<close>: trimming, the background sign, the
  separators of pipes and redirections, the splitting into arguments, the constructors of
  the commands and the factory \<open>CreateCommand\<close>. A string is the text of a C string; a search that finds
  nothing is \<open>None\<close>, and using its result as an index is \<open>Inl Ub\<close>.
\<close>

section \<open>Searching\<close>

definition WHITESPACE :: string where
  "WHITESPACE = [CHR '' '', nl, cr, CHR 0x09, CHR 0x0C, CHR 0x0B]"

definition find_first_not_of :: "string \<Rightarrow> string \<Rightarrow> nat option" where
  "find_first_not_of cs s = (let n = length (takeWhile (\<lambda>c. c \<in> set cs) s)
     in if n < length s then Some n else None)"

definition find_last_not_of :: "string \<Rightarrow> string \<Rightarrow> nat option" where
  "find_last_not_of cs s = (let n = length (dropWhile (\<lambda>c. c \<in> set cs) (rev s))
     in if n = 0 then None else Some (n - 1))"

definition find_first_of :: "string \<Rightarrow> string \<Rightarrow> nat option" where
  "find_first_of cs s = (let n = length (takeWhile (\<lambda>c. c \<notin> set cs) s)
     in if n < length s then Some n else None)"

section \<open>Utilities\<close>

definition ltrim :: "string \<Rightarrow> string" where
  "ltrim s = (case find_first_not_of WHITESPACE s of None \<Rightarrow> [] | Some start \<Rightarrow> drop start s)"

definition rtrim :: "string \<Rightarrow> string" where
  "rtrim s = (case find_last_not_of WHITESPACE s of None \<Rightarrow> [] | Some e \<Rightarrow> take (e + 1) s)"

definition trim :: "string \<Rightarrow> string" where
  "trim s = rtrim (ltrim s)"

definition COMMAND_MAX_LENGTH :: nat where "COMMAND_MAX_LENGTH = 80"
definition COMMAND_MAX_ARGS :: nat where "COMMAND_MAX_ARGS = 20"

lemma token_shorter: "token s = (w, rest) \<Longrightarrow> w \<noteq> [] \<Longrightarrow> length rest < length s"
  using token_length [of s] by (cases w) auto

text \<open>Each word is stored at the next index, and a null pointer after it.\<close>

function parse_loop :: "string \<Rightarrow> string list \<Rightarrow> string list res" where
  "parse_loop s args = (case token s of (w, rest) \<Rightarrow>
     if w = [] then Inr args
     else if length args + 1 < COMMAND_MAX_ARGS then parse_loop rest (args @ [w])
     else Inl Ub)"
  by pat_completeness auto

termination
  by (relation "measure (\<lambda>(s, args). length s)") (auto dest: token_shorter [OF sym])

declare parse_loop.simps [simp del]

definition parseCommandLine :: "string \<Rightarrow> string list res" where
  "parseCommandLine cmd_line = parse_loop (trim cmd_line) []"

definition isBackgroundCommand :: "string \<Rightarrow> bool res" where
  "isBackgroundCommand s = (case find_last_not_of WHITESPACE s of
     None \<Rightarrow> Inl Ub | Some i \<Rightarrow> Inr (s ! i = CHR ''&''))"

definition isSpecialCommand :: "string \<Rightarrow> (string \<times> nat) option" where
  "isSpecialCommand s = (case find_first_of ''|'' s of
     Some i \<Rightarrow> Some (if i + 1 < length s \<and> s ! (i + 1) = CHR ''&'' then ''|&'' else ''|'', i)
   | None \<Rightarrow> (case find_first_of ''>'' s of
       Some i \<Rightarrow> Some (if i + 1 < length s \<and> s ! (i + 1) = CHR ''>'' then ''>>'' else ''>'', i)
     | None \<Rightarrow> None))"

text \<open>
  The index is an \<open>unsigned int\<close>: \<open>npos\<close> is cut to \<open>2 ^ 32 - 1\<close>, which is not \<open>npos\<close>, and the
  array is read there. The second search runs on the copy made before the sign was
  overwritten.
\<close>

definition removeBackgroundSign :: "string \<Rightarrow> string res" where
  "removeBackgroundSign cmd_line = (case find_last_not_of WHITESPACE cmd_line of
     None \<Rightarrow> Inl Ub
   | Some idx \<Rightarrow>
       if cmd_line ! idx \<noteq> CHR ''&'' then Inr cmd_line
       else (case find_last_not_of WHITESPACE (take (idx + 1) cmd_line) of
           None \<Rightarrow> Inr (take 0 cmd_line)
         | Some e \<Rightarrow> Inr (take (e + 1) (cmd_line[idx := CHR '' '']))))"

definition hasSpecialCharacters :: "string \<Rightarrow> bool" where
  "hasSpecialCharacters s \<longleftrightarrow> (\<exists>c\<in>{CHR ''*'', CHR ''?''}. c \<in> set s)"

text \<open>\<open>stoi\<close>: the number the string starts with; what follows it is ignored.\<close>

definition strToInt :: "string \<Rightarrow> int option" where
  "strToInt s = (let t = dropWhile is_space s;
       neg = (t \<noteq> [] \<and> hd t = CHR ''-'');
       u = (if t \<noteq> [] \<and> (hd t = CHR ''-'' \<or> hd t = CHR ''+'') then tl t else t);
       ds = takeWhile is_digit u;
       v = (if neg then - int (value_of ds) else int (value_of ds))
     in if ds = [] \<or> v < - (2 ^ 31) \<or> 2 ^ 31 \<le> v then None else Some v)"

section \<open>Commands\<close>

datatype kind = ChangePrompt | GetCurrDirCommand | ShowPidCommand | ChangeDirCommand
  | ForegroundCommand | BackgroundCommand | JobsCommand | KillCommand | QuitCommand
  | ExternalCommand bool | PipeCommand nat bool | RedirectionCommand nat bool

record command =
  args :: "string list"
  original_cmd :: string
  background :: bool
  kind :: kind

definition Command :: "kind \<Rightarrow> string \<Rightarrow> command res" where
  "Command k cmd_line =
     rbind (isBackgroundCommand cmd_line) (\<lambda>bg.
     rbind (removeBackgroundSign (take COMMAND_MAX_LENGTH cmd_line)) (\<lambda>cmd.
     rbind (parseCommandLine cmd) (\<lambda>arguments.
       Inr \<lparr>args = arguments, original_cmd = cmd_line, background = bg, kind = k\<rparr>)))"

definition BuiltInCommand :: "kind \<Rightarrow> string \<Rightarrow> command res" where
  "BuiltInCommand k cmd_line = rbind (Command k cmd_line) (\<lambda>c. Inr (c\<lparr>background := False\<rparr>))"

definition new_External :: "string \<Rightarrow> command res" where
  "new_External cmd_line = Command (ExternalCommand (hasSpecialCharacters cmd_line)) cmd_line"

definition new_Pipe :: "string \<Rightarrow> nat \<Rightarrow> bool \<Rightarrow> command res" where
  "new_Pipe cmd_line sep ampersand =
     rbind (Command (PipeCommand sep ampersand) cmd_line) (\<lambda>c. Inr (c\<lparr>background := False\<rparr>))"

definition new_Redirection :: "string \<Rightarrow> nat \<Rightarrow> bool \<Rightarrow> command res" where
  "new_Redirection cmd_line sep app = Command (RedirectionCommand sep app) cmd_line"

definition first_word :: "string \<Rightarrow> string" where
  "first_word s = (case find_first_of '' \<newline>'' s of None \<Rightarrow> s | Some i \<Rightarrow> take i s)"

definition builtin :: "string \<Rightarrow> kind option" where
  "builtin w =
     (if w = ''chprompt'' then Some ChangePrompt
      else if w = ''pwd'' then Some GetCurrDirCommand
      else if w = ''showpid'' then Some ShowPidCommand
      else if w = ''cd'' then Some ChangeDirCommand
      else if w = ''fg'' then Some ForegroundCommand
      else if w = ''bg'' then Some BackgroundCommand
      else if w = ''jobs'' then Some JobsCommand
      else if w = ''kill'' then Some KillCommand
      else if w = ''quit'' then Some QuitCommand
      else None)"

definition CreateCommand :: "string \<Rightarrow> command option res" where
  "CreateCommand cmd_line = (case isSpecialCommand cmd_line of
     Some (sep, index) \<Rightarrow>
       rbind (if sep = ''|'' then new_Pipe cmd_line index False
              else if sep = ''|&'' then new_Pipe cmd_line index True
              else if sep = ''>'' then new_Redirection cmd_line index False
              else new_Redirection cmd_line index True) (\<lambda>c. Inr (Some c))
   | None \<Rightarrow>
       (let cmd_s = trim cmd_line in
        if cmd_s = [] then Inr None
        else rbind (case builtin (first_word cmd_s) of
            Some k \<Rightarrow> BuiltInCommand k cmd_line
          | None \<Rightarrow> new_External cmd_line) (\<lambda>c. Inr (Some c))))"

section \<open>Lemmas on trimming and splitting\<close>

lemma in_WHITESPACE: "c \<in> set WHITESPACE \<longleftrightarrow> is_space c"
  by (auto simp: WHITESPACE_def is_space_def)

lemma ltrim_eq: "ltrim s = dropWhile is_space s"
proof -
  have "dropWhile is_space s = drop (length (takeWhile is_space s)) s"
    by (simp add: dropWhile_eq_drop)
  moreover have "length (takeWhile is_space s) = length s" if "\<not> length (takeWhile is_space s) < length s"
    using that length_takeWhile_le [of is_space s] by simp
  ultimately show ?thesis
    by (auto simp: ltrim_def find_first_not_of_def in_WHITESPACE Let_def)
qed

lemma find_last_None: "find_last_not_of WHITESPACE s = None \<longleftrightarrow> (\<forall>c\<in>set s. is_space c)"
  by (auto simp: find_last_not_of_def in_WHITESPACE Let_def dropWhile_eq_Nil_conv)

lemma find_last_Some:
  assumes "\<not> is_space c" "\<forall>d\<in>set t. is_space d"
  shows "find_last_not_of WHITESPACE (s @ c # t) = Some (length s)"
proof -
  have "dropWhile is_space (rev t @ c # rev s) = c # rev s"
    using assms by (subst dropWhile_append2) auto
  then show ?thesis by (simp add: find_last_not_of_def in_WHITESPACE Let_def)
qed

lemma rtrim_Some:
  assumes "\<not> is_space c" "\<forall>d\<in>set t. is_space d"
  shows "rtrim (s @ c # t) = s @ [c]"
  using find_last_Some [OF assms] by (simp add: rtrim_def)

lemma rtrim_all_space: "\<forall>c\<in>set s. is_space c \<Longrightarrow> rtrim s = []"
  using find_last_None [of s] by (simp add: rtrim_def)

text \<open>Trimming does not change the words.\<close>

lemma token_dropWhile: "token (dropWhile is_space s) = token s"
  by (simp add: token_def dropWhile_idem comp_def)

lemma parse_loop_ltrim: "parse_loop (ltrim s) acc = parse_loop s acc"
  by (subst (1 2) parse_loop.simps) (simp add: ltrim_eq token_dropWhile)

lemma token_all_space: "\<forall>c\<in>set t. is_space c \<Longrightarrow> token t = ([], [])"
  by (simp add: token_def dropWhile_eq_Nil_conv [THEN iffD2])

lemma parse_loop_all_space: "\<forall>c\<in>set t. is_space c \<Longrightarrow> parse_loop t acc = Inr acc"
  by (subst parse_loop.simps) (simp add: token_all_space)

lemma token_append_space:
  assumes "\<forall>c\<in>set t. is_space c"
  shows "token (s @ t) = (fst (token s), snd (token s) @ (if fst (token s) = [] then [] else t))"
proof (cases "\<forall>c\<in>set s. is_space c")
  case True
  then have "token (s @ t) = ([], [])" using assms by (intro token_all_space) auto
  then show ?thesis using True by (simp add: token_all_space)
next
  case False
  then obtain c u where u: "dropWhile is_space s = c # u" "\<not> is_space c"
    by (metis dropWhile_eq_Cons_conv dropWhile_eq_Nil_conv list.exhaust)
  then have d: "dropWhile is_space (s @ t) = c # u @ t"
    by (metis append_Cons dropWhile_append1 dropWhile_append2 dropWhile_eq_Nil_conv list.distinct(1))
  have "takeWhile (\<lambda>c. \<not> is_space c) (u @ t) = takeWhile (\<lambda>c. \<not> is_space c) u"
    "dropWhile (\<lambda>c. \<not> is_space c) (u @ t) = dropWhile (\<lambda>c. \<not> is_space c) u @ t"
    using assms by (cases t; induction u; simp)+
  then show ?thesis using u d by (simp add: token_def Let_def)
qed

lemma parse_loop_append_space:
  "\<forall>c\<in>set t. is_space c \<Longrightarrow> parse_loop (s @ t) acc = parse_loop s acc"
proof (induction s acc rule: parse_loop.induct)
  case (1 s acc)
  obtain w r where w: "token s = (w, r)" by fastforce
  show ?case
  proof (cases "w = []")
    case True
    then show ?thesis using w token_append_space [OF 1(2), of s]
      by (subst (1 2) parse_loop.simps) simp
  next
    case False
    then show ?thesis using w token_append_space [OF 1(2), of s] 1(1) [OF w [symmetric] False _ 1(2)]
      by (subst (1 2) parse_loop.simps) simp
  qed
qed

lemma parse_trim: "parseCommandLine s = parse_loop s []"
proof -
  have "parse_loop (rtrim s) acc = parse_loop s acc" for s acc
  proof (cases "\<forall>c\<in>set s. is_space c")
    case True
    then show ?thesis by (simp add: rtrim_all_space parse_loop_all_space)
  next
    case False
    then obtain u c t where s: "s = u @ c # t" "\<not> is_space c" "\<forall>d\<in>set t. is_space d"
      using split_list_last_prop [of s "\<lambda>c. \<not> is_space c"] by auto
    then show ?thesis
      using rtrim_Some [OF s(2,3), of u] parse_loop_append_space [OF s(3), of "u @ [c]" acc] by simp
  qed
  then show ?thesis by (simp add: parseCommandLine_def trim_def parse_loop_ltrim)
qed

section \<open>The command line a user types\<close>

text \<open>Words separated by white space, then perhaps a background sign, then white space.\<close>

definition is_word :: "string \<Rightarrow> bool" where
  "is_word w \<longleftrightarrow> w \<noteq> [] \<and> (\<forall>c\<in>set w. \<not> is_space c)"

definition spaces :: "string \<Rightarrow> bool" where
  "spaces s \<longleftrightarrow> (\<forall>c\<in>set s. is_space c)"

definition typed :: "(string \<times> string) list \<Rightarrow> string" where
  "typed items = concat (map (\<lambda>(sp, w). sp @ w) items)"

definition separated :: "(string \<times> string) list \<Rightarrow> bool" where
  "separated items \<longleftrightarrow> (\<forall>(sp, w)\<in>set items. spaces sp \<and> is_word w) \<and> (\<forall>(sp, w)\<in>set (tl items). sp \<noteq> [])"

definition sign :: "bool \<Rightarrow> string" where
  "sign bg = (if bg then ''&'' else [])"

lemma token_typed:
  assumes "spaces sp" "is_word w" "r = [] \<or> is_space (hd r)"
  shows "token (sp @ w @ r) = (w, r)"
proof -
  have "dropWhile is_space (sp @ w @ r) = w @ r"
    using assms by (cases w) (auto simp: spaces_def is_word_def dropWhile_append2)
  moreover have "takeWhile (\<lambda>c. \<not> is_space c) (w @ r) = w" "dropWhile (\<lambda>c. \<not> is_space c) (w @ r) = r"
    using assms(2,3) by (cases r; auto simp: is_word_def takeWhile_append dropWhile_append)+
  ultimately show ?thesis by (simp add: token_def)
qed

lemma separated_Cons:
  "separated ((sp, w) # items) \<Longrightarrow> spaces sp \<and> is_word w \<and> separated items \<and>
   (items \<noteq> [] \<longrightarrow> is_space (hd (typed items @ t)))"
  by (cases items; cases "tl items") (auto simp: separated_def typed_def spaces_def hd_append split: list.splits)

lemma parse_typed:
  "separated items \<Longrightarrow> spaces t \<Longrightarrow> length acc < COMMAND_MAX_ARGS \<Longrightarrow>
   parse_loop (typed items @ t) acc =
     (if length acc + length items < COMMAND_MAX_ARGS then Inr (acc @ map snd items) else Inl Ub)"
proof (induction items arbitrary: acc)
  case Nil
  then show ?case by (simp add: typed_def parse_loop_all_space spaces_def)
next
  case (Cons x items)
  obtain sp w where x: "x = (sp, w)" by fastforce
  note sep = separated_Cons [OF Cons.prems(1) [unfolded x], of t]
  have "typed items @ t = [] \<or> is_space (hd (typed items @ t))"
    using sep Cons.prems(2) by (cases "items = []"; cases t) (auto simp: typed_def spaces_def)
  then have tok: "token (typed (x # items) @ t) = (w, typed items @ t)"
    using token_typed [of sp w "typed items @ t"] sep by (simp add: typed_def x)
  have w: "w \<noteq> []" using sep by (simp add: is_word_def)
  show ?case
  proof (cases "length acc + 1 < COMMAND_MAX_ARGS")
    case True
    then show ?thesis using Cons.IH [of "acc @ [w]"] Cons.prems sep tok w
      by (subst parse_loop.simps) (simp add: x)
  next
    case False
    then show ?thesis using tok w by (subst parse_loop.simps) simp
  qed
qed

text \<open>What is left of a command line after the background sign is taken off has the same words.\<close>

lemma removeBackgroundSign_typed:
  assumes "b = sign bg" "spaces t" "spaces t2" "u \<noteq> []" "\<not> is_space (last u)" "last u \<noteq> CHR ''&''"
  shows "\<exists>t3. removeBackgroundSign (u @ t @ b @ t2) = Inr (u @ t3) \<and> spaces t3"
    and "isBackgroundCommand (u @ t @ b @ t2) = Inr bg"
proof -
  have sp: "\<not> is_space (CHR ''&'')" "is_space (CHR '' '')" by (simp_all add: is_space_def)
  have eq: "butlast u @ last u # (t @ t2) = u @ t @ t2"
    using append_butlast_last_id [OF assms(4)] by (metis append.assoc append_Cons append_Nil)
  have ts: "\<forall>d\<in>set (t @ t2). is_space d" using assms(2,3) by (auto simp: spaces_def)
  have no: "find_last_not_of WHITESPACE (u @ t @ t2) = Some (length u - 1)"
    using find_last_Some [OF assms(5) ts, of "butlast u"] unfolding eq length_butlast .
  have yes: "find_last_not_of WHITESPACE (u @ t @ ''&'' @ t2) = Some (length (u @ t))"
    using find_last_Some [OF sp(1), of t2 "u @ t"] assms(3) by (simp add: spaces_def)
  have again: "find_last_not_of WHITESPACE (u @ t @ ''&'') = Some (length (u @ t))"
    using find_last_Some [OF sp(1), of "[]" "u @ t"] by simp
  have last: "(u @ t @ t2) ! (length u - 1) = last u" using assms(4) by (simp add: nth_append last_conv_nth)
  have amp: "(u @ t @ ''&'' @ t2) ! length (u @ t) = CHR ''&''"
    "take (length (u @ t) + 1) (u @ t @ ''&'' @ t2) = u @ t @ ''&''"
    "take (length (u @ t) + 1) ((u @ t @ ''&'' @ t2)[length (u @ t) := CHR '' '']) = u @ t @ '' ''"
    by (simp_all add: nth_append list_update_append)
  show "\<exists>t3. removeBackgroundSign (u @ t @ b @ t2) = Inr (u @ t3) \<and> spaces t3"
  proof (cases bg)
    case True
    then have "removeBackgroundSign (u @ t @ b @ t2) = Inr (u @ t @ '' '')"
      using yes again amp assms(1) by (simp add: removeBackgroundSign_def sign_def)
    moreover have "spaces (t @ '' '')" using assms(2) sp by (simp add: spaces_def)
    ultimately show ?thesis by blast
  next
    case False
    then have "removeBackgroundSign (u @ t @ b @ t2) = Inr (u @ t @ t2)"
      using no last assms(1,6) by (simp add: removeBackgroundSign_def sign_def)
    moreover have "spaces (t @ t2)" using assms(2,3) by (auto simp: spaces_def)
    ultimately show ?thesis by blast
  qed
  show "isBackgroundCommand (u @ t @ b @ t2) = Inr bg"
    using yes no amp(1) last assms(1,6) by (cases bg) (simp_all add: isBackgroundCommand_def sign_def)
qed

lemma last_typed:
  assumes "separated items" "items \<noteq> []"
  shows "typed items \<noteq> [] \<and> last (typed items) = last (snd (last items)) \<and> \<not> is_space (last (typed items))"
proof -
  obtain init sp w where i: "items = init @ [(sp, w)]" using assms(2) by (metis rev_exhaust surj_pair)
  have "is_word w" using assms(1) i by (auto simp: separated_def)
  then show ?thesis using i by (auto simp: typed_def is_word_def)
qed

lemma Command_typed:
  assumes "separated items" "items \<noteq> []" "spaces t" "spaces t2" "last (snd (last items)) \<noteq> CHR ''&''"
    "length (typed items @ t @ sign bg @ t2) \<le> COMMAND_MAX_LENGTH"
  shows "Command k (typed items @ t @ sign bg @ t2) =
    (if length items < COMMAND_MAX_ARGS
     then Inr \<lparr>args = map snd items, original_cmd = typed items @ t @ sign bg @ t2, background = bg, kind = k\<rparr>
     else Inl Ub)"
proof -
  note last = last_typed [OF assms(1,2)]
  have l: "typed items \<noteq> []" "\<not> is_space (last (typed items))" "last (typed items) \<noteq> CHR ''&''"
    using last assms(5) by auto
  note rm = removeBackgroundSign_typed [OF refl assms(3,4) l, of bg]
  obtain t3 where t3: "removeBackgroundSign (typed items @ t @ sign bg @ t2) = Inr (typed items @ t3)" "spaces t3"
    using rm(1) by blast
  have short: "take COMMAND_MAX_LENGTH (typed items @ t @ sign bg @ t2) = typed items @ t @ sign bg @ t2"
    using assms(6) by simp
  have p: "parse_loop (typed items @ t3) [] = (if length items < COMMAND_MAX_ARGS then Inr (map snd items) else Inl Ub)"
    using parse_typed [OF assms(1) t3(2), of "[]"] by (simp add: COMMAND_MAX_ARGS_def)
  show ?thesis
    unfolding Command_def short rm(2) t3(1) rbind.simps parse_trim p by simp
qed

text \<open>C37: the constructor of a command recovers what the user typed: for a line of at most 80
  characters that consists of words separated by any white space, perhaps a background sign
  and white space, the arguments are exactly the words and the sign is recognised, provided
  there are at most 19 words; with 20 words or more it writes past the end of its array of 20
  pointers.\<close>

theorem command_line_roundtrip:
  assumes "separated items" "items \<noteq> []" "spaces t" "spaces t2" "last (snd (last items)) \<noteq> CHR ''&''"
    "length (typed items @ t @ sign bg @ t2) \<le> COMMAND_MAX_LENGTH"
  shows "Command k (typed items @ t @ sign bg @ t2) =
    (if length items \<le> 19
     then Inr \<lparr>args = map snd items, original_cmd = typed items @ t @ sign bg @ t2, background = bg, kind = k\<rparr>
     else Inl Ub)"
  using Command_typed [OF assms, of k] by (auto simp: COMMAND_MAX_ARGS_def)

theorem command_line_roundtrip_witness:
  "Command (ExternalCommand False) ''sleep  10 & '' =
     Inr \<lparr>args = [''sleep'', ''10''], original_cmd = ''sleep  10 & '', background = True, kind = ExternalCommand False\<rparr> \<and>
   Command (ExternalCommand False) (typed (([], ''a'') # replicate 19 ('' '', ''a''))) = Inl Ub"
proof
  show "Command (ExternalCommand False) ''sleep  10 & '' =
     Inr \<lparr>args = [''sleep'', ''10''], original_cmd = ''sleep  10 & '', background = True, kind = ExternalCommand False\<rparr>"
    using command_line_roundtrip [of "[([], ''sleep''), (''  '', ''10'')]" "'' ''" "'' ''" True "ExternalCommand False"]
    by (simp add: separated_def is_word_def spaces_def is_space_def typed_def sign_def COMMAND_MAX_LENGTH_def)
  show "Command (ExternalCommand False) (typed (([], ''a'') # replicate 19 ('' '', ''a''))) = Inl Ub"
    using command_line_roundtrip [of "([], ''a'') # replicate 19 ('' '', ''a'')" "[]" "[]" False "ExternalCommand False"]
    by (auto simp: separated_def is_word_def spaces_def is_space_def typed_def sign_def COMMAND_MAX_LENGTH_def
      length_concat sum_list_replicate split: if_splits)
qed

section \<open>The factory\<close>

lemma find_first_of_Some:
  "find_first_of [c] s = Some i \<longleftrightarrow> (\<exists>u v. s = u @ c # v \<and> c \<notin> set u \<and> i = length u)"
proof
  assume a: "find_first_of [c] s = Some i"
  let ?u = "takeWhile (\<lambda>d. d \<notin> set [c]) s" and ?w = "dropWhile (\<lambda>d. d \<notin> set [c]) s"
  have "length ?u < length s" "i = length ?u" using a by (auto simp: find_first_of_def Let_def split: if_splits)
  then have "?w \<noteq> []" by (metis append_Nil2 less_irrefl takeWhile_dropWhile_id)
  then obtain v where "?w = c # v" using hd_dropWhile [of "\<lambda>d. d \<notin> set [c]" s] by (cases ?w) auto
  then have "s = ?u @ c # v" by (metis takeWhile_dropWhile_id)
  moreover have "c \<notin> set ?u" by (auto dest: set_takeWhileD)
  ultimately show "\<exists>u v. s = u @ c # v \<and> c \<notin> set u \<and> i = length u" using \<open>i = length ?u\<close> by blast
next
  assume "\<exists>u v. s = u @ c # v \<and> c \<notin> set u \<and> i = length u"
  then show "find_first_of [c] s = Some i"
    by (auto simp: find_first_of_def takeWhile_append takeWhile_eq_all_conv)
qed

lemma find_first_of_None: "find_first_of [c] s = None \<longleftrightarrow> c \<notin> set s"
proof
  assume "find_first_of [c] s = None"
  then have "\<not> (\<exists>u v. s = u @ c # v \<and> c \<notin> set u)" using find_first_of_Some [of c s] by fastforce
  then show "c \<notin> set s" using split_list_first [of c s] by blast
next
  assume "c \<notin> set s"
  then show "find_first_of [c] s = None"
  proof (cases "find_first_of [c] s")
    case (Some i)
    then show ?thesis using find_first_of_Some [of c s i] \<open>c \<notin> set s\<close> by auto
  qed
qed

lemma Command_Inr: "Command k s = Inr c \<Longrightarrow> original_cmd c = s \<and> kind c = k"
  by (auto simp: Command_def res_simps)

lemma trim_empty: "trim s = [] \<longleftrightarrow> spaces s"
proof (cases "spaces s")
  case True
  then show ?thesis
    by (auto simp: trim_def ltrim_eq spaces_def dropWhile_eq_Nil_conv [THEN iffD2] rtrim_def find_last_not_of_def)
next
  case False
  then obtain u c t where s: "ltrim s = u @ c # t" "\<not> is_space c" "\<forall>d\<in>set t. is_space d"
    using split_list_last_prop [of "ltrim s" "\<lambda>c. \<not> is_space c"]
    by (auto simp: ltrim_eq spaces_def) (metis dropWhile_eq_Nil_conv hd_dropWhile list.set_sel(1))
  then show ?thesis using rtrim_Some [OF s(2,3), of u] False by (simp add: trim_def)
qed

section \<open>The arguments of a built-in command\<close>

lemma parse_loop_extends: "parse_loop s acc = Inr a \<Longrightarrow> \<exists>r. a = acc @ r"
proof (induction s acc rule: parse_loop.induct)
  case (1 s acc)
  obtain w r where w: "token s = (w, r)" by fastforce
  show ?case
  proof (cases "w = [] \<or> \<not> length acc + 1 < COMMAND_MAX_ARGS")
    case True
    then show ?thesis using 1(2) w by (subst (asm) parse_loop.simps) (auto split: if_splits)
  next
    case False
    then have "parse_loop r (acc @ [w]) = Inr a" using 1(2) w by (subst (asm) parse_loop.simps) simp
    from 1(1) [OF w [symmetric] _ _ this] False show ?thesis by auto
  qed
qed

lemma parse_nonempty: "\<not> spaces s \<Longrightarrow> parse_loop s [] \<noteq> Inr []"
proof
  assume s: "\<not> spaces s" and n: "parse_loop s [] = Inr []"
  obtain w r where w: "token s = (w, r)" by fastforce
  have "dropWhile is_space s \<noteq> []" using s by (auto simp: spaces_def dropWhile_eq_Nil_conv)
  then have "\<not> is_space (hd (dropWhile is_space s))" "dropWhile is_space s \<noteq> []" using hd_dropWhile by blast+
  then have "w \<noteq> []" using w by (cases "dropWhile is_space s") (auto simp: token_def)
  then have "parse_loop r [w] = Inr []"
    using n w by (subst (asm) parse_loop.simps) (simp add: COMMAND_MAX_ARGS_def)
  then show False using parse_loop_extends [of r "[w]" "[]"] by simp
qed

text \<open>Taking off the sign leaves something when the first character is not the sign.\<close>

lemma removeBackgroundSign_leaves:
  assumes "spaces sp" "\<not> is_space d" "d \<noteq> CHR ''&''" "removeBackgroundSign (take n (sp @ d # r)) = Inr t"
  shows "\<not> spaces t"
proof (cases "length sp < n")
  case False
  then have "find_last_not_of WHITESPACE (take n (sp @ d # r)) = None"
    using assms(1) by (auto simp: find_last_None spaces_def dest: in_set_takeD)
  then show ?thesis using assms(4) by (simp add: removeBackgroundSign_def)
next
  case True
  let ?v = "take (n - length sp - 1) r"
  have l: "take n (sp @ d # r) = sp @ d # ?v" using True by (simp add: take_Cons')
  obtain u e w where s: "sp @ d # ?v = u @ e # w" "\<not> is_space e" "\<forall>c\<in>set w. is_space c"
    using split_list_last_prop [of "sp @ d # ?v" "\<lambda>c. \<not> is_space c"] assms(2) by auto
  have f: "find_last_not_of WHITESPACE (u @ e # w) = Some (length u)"
      "find_last_not_of WHITESPACE (u @ [e]) = Some (length u)"
    using find_last_Some [OF s(2,3)] find_last_Some [OF s(2), of "[]"] by simp_all
  have t: "t = (if e = CHR ''&'' then u @ '' '' else u @ e # w)"
    using assms(4) f unfolding l s(1)
    by (simp add: removeBackgroundSign_def list_update_append split: if_splits)
  show ?thesis
  proof (cases "e = CHR ''&''")
    case True
    have "d \<in> set (u @ e # w)" unfolding s(1) [symmetric] by simp
    then have "d \<in> set u" using assms(2,3) s(3) True by auto
    then show ?thesis using t True assms(2) by (auto simp: spaces_def)
  next
    case False
    then show ?thesis using t s(2) by (auto simp: spaces_def)
  qed
qed

lemma builtin_starts: "builtin w = Some k \<Longrightarrow> w \<noteq> [] \<and> hd w \<noteq> CHR ''&''"
  by (auto simp: builtin_def split: if_splits)

lemma first_word_prefix: "first_word s \<noteq> [] \<Longrightarrow> s \<noteq> [] \<and> hd (first_word s) = hd s"
  by (cases s) (auto simp: first_word_def take_Cons' split: option.splits if_splits)

lemma trim_starts:
  assumes "trim s \<noteq> []"
  obtains sp r where "s = sp @ hd (trim s) # r" "spaces sp" "\<not> is_space (hd (trim s))"
proof -
  have "dropWhile is_space s \<noteq> []" using assms trim_empty [of s] by (auto simp: spaces_def dropWhile_eq_Nil_conv)
  then obtain d r where d: "dropWhile is_space s = d # r" by (cases "dropWhile is_space s") auto
  then have h: "hd (trim s) = d"
    using assms by (auto simp: trim_def ltrim_eq rtrim_def split: option.splits)
  have "\<not> is_space d" using hd_dropWhile [of is_space s] d by simp
  moreover have "s = takeWhile is_space s @ d # r" using takeWhile_dropWhile_id [of is_space s] d by simp
  moreover have "spaces (takeWhile is_space s)" by (auto simp: spaces_def dest: set_takeWhileD)
  ultimately show thesis using that h by blast
qed

lemma CreateCommand_builtin_args:
  assumes "CreateCommand l = Inr (Some c)" "kind c = k" "builtin (first_word (trim l)) = Some k" "isSpecialCommand l = None"
  shows "args c \<noteq> []"
proof -
  let ?d = "hd (trim l)"
  note b = builtin_starts [OF assms(3)]
  note w = first_word_prefix [OF b [THEN conjunct1]]
  obtain sp r where l: "l = sp @ ?d # r" "spaces sp" "\<not> is_space ?d" using trim_starts w by blast
  have d: "?d \<noteq> CHR ''&''" using b w by simp
  obtain c1 where c1: "Command k l = Inr c1" "args c = args c1"
    using assms w by (auto simp: CreateCommand_def Let_def BuiltInCommand_def res_simps)
  then obtain t where t: "removeBackgroundSign (take COMMAND_MAX_LENGTH l) = Inr t" "parse_loop t [] = Inr (args c1)"
    by (auto simp: Command_def res_simps parse_trim)
  have "\<not> spaces t" using removeBackgroundSign_leaves [OF l(2,3) d, of COMMAND_MAX_LENGTH r t] t(1) l(1) by simp
  then show ?thesis using parse_nonempty [of t] t(2) c1(2) by auto
qed

lemma parse_loop_words:
  "parse_loop s acc = Inr a \<Longrightarrow> list_all is_word acc \<Longrightarrow> length acc < COMMAND_MAX_ARGS \<Longrightarrow>
   list_all is_word a \<and> length a < COMMAND_MAX_ARGS"
proof (induction s acc rule: parse_loop.induct)
  case (1 s acc)
  obtain w r where w: "token s = (w, r)" by fastforce
  show ?case
  proof (cases "w = [] \<or> \<not> length acc + 1 < COMMAND_MAX_ARGS")
    case True
    then show ?thesis using 1(2-4) w by (subst (asm) parse_loop.simps) (auto split: if_splits)
  next
    case False
    then have "parse_loop r (acc @ [w]) = Inr a" using 1(2) w by (subst (asm) parse_loop.simps) simp
    moreover have "is_word w" using False token_no_space [of _ s] w by (auto simp: is_word_def)
    ultimately show ?thesis using 1(1) [OF w [symmetric]] False 1(3) by simp
  qed
qed

text \<open>
  A command as the factory makes it: fewer words than the array has room for, each of them a word, and at
  least one (its own name) for a built-in command.
\<close>

definition is_builtin :: "kind \<Rightarrow> bool" where
  "is_builtin k \<longleftrightarrow> (case k of ExternalCommand _ \<Rightarrow> False | PipeCommand _ _ \<Rightarrow> False
     | RedirectionCommand _ _ \<Rightarrow> False | _ \<Rightarrow> True)"

definition command_ok :: "command \<Rightarrow> bool" where
  "command_ok c \<longleftrightarrow> list_all is_word (args c) \<and> length (args c) < COMMAND_MAX_ARGS \<and>
     (is_builtin (kind c) \<longrightarrow> args c \<noteq> [] \<and> \<not> background c)"

lemma Command_words: "Command k l = Inr c \<Longrightarrow> list_all is_word (args c) \<and> length (args c) < COMMAND_MAX_ARGS"
  by (auto simp: Command_def res_simps parse_trim COMMAND_MAX_ARGS_def
    dest!: parse_loop_words)

lemma builtin_is_builtin: "builtin w = Some k \<Longrightarrow> is_builtin k"
  by (auto simp: builtin_def is_builtin_def split: if_splits)

section \<open>What a line is made into\<close>

text \<open>The first occurrence of a character splits a string.\<close>

definition split_at :: "char \<Rightarrow> string \<Rightarrow> string \<Rightarrow> string \<Rightarrow> bool" where
  "split_at c s u v \<longleftrightarrow> s = u @ c # v \<and> c \<notin> set u"

definition follows :: "char \<Rightarrow> string \<Rightarrow> bool" where
  "follows c v \<longleftrightarrow> v \<noteq> [] \<and> hd v = c"

lemma sep_follows: "(length u + 1 < length (u @ c # v) \<and> (u @ c # v) ! (length u + 1) = d) \<longleftrightarrow> follows d v"
  by (cases v) (auto simp: follows_def nth_append)

lemma isSpecialCommand_pipe:
  "split_at (CHR ''|'') s u v \<Longrightarrow> isSpecialCommand s = Some (if follows (CHR ''&'') v then ''|&'' else ''|'', length u)"
proof -
  assume a: "split_at (CHR ''|'') s u v"
  then have "find_first_of ''|'' s = Some (length u)" using find_first_of_Some by (auto simp: split_at_def)
  then show ?thesis using a sep_follows [of u "CHR ''|''" v "CHR ''&''"]
    by (simp add: isSpecialCommand_def split_at_def)
qed

lemma isSpecialCommand_redirect:
  "CHR ''|'' \<notin> set s \<Longrightarrow> split_at (CHR ''>'') s u v \<Longrightarrow>
   isSpecialCommand s = Some (if follows (CHR ''>'') v then ''>>'' else ''>'', length u)"
proof -
  assume n: "CHR ''|'' \<notin> set s" and a: "split_at (CHR ''>'') s u v"
  then have "find_first_of ''>'' s = Some (length u)" "find_first_of ''|'' s = None"
    using find_first_of_Some find_first_of_None by (auto simp: split_at_def)
  then show ?thesis using a sep_follows [of u "CHR ''>''" v "CHR ''>''"]
    by (simp add: isSpecialCommand_def split_at_def)
qed

lemma isSpecialCommand_none:
  "CHR ''|'' \<notin> set s \<Longrightarrow> CHR ''>'' \<notin> set s \<Longrightarrow> isSpecialCommand s = None"
  unfolding find_first_of_None [symmetric] by (simp add: isSpecialCommand_def)

lemma CreateCommand_cases:
  assumes "CreateCommand s = Inr r"
  shows "split_at (CHR ''|'') s u v \<Longrightarrow>
      \<exists>c. r = Some c \<and> original_cmd c = s \<and> kind c = PipeCommand (length u) (follows (CHR ''&'') v) \<and> \<not> background c"
    and "CHR ''|'' \<notin> set s \<Longrightarrow> split_at (CHR ''>'') s u v \<Longrightarrow>
      \<exists>c. r = Some c \<and> original_cmd c = s \<and> kind c = RedirectionCommand (length u) (follows (CHR ''>'') v)"
    and "CHR ''|'' \<notin> set s \<Longrightarrow> CHR ''>'' \<notin> set s \<Longrightarrow> (r = None \<longleftrightarrow> spaces s) \<and>
      (\<forall>c. r = Some c \<longrightarrow> original_cmd c = s \<and>
        (case builtin (first_word (trim s)) of
           Some k \<Rightarrow> kind c = k \<and> \<not> background c
         | None \<Rightarrow> kind c = ExternalCommand (hasSpecialCharacters s)))"
proof -
  show "\<exists>c. r = Some c \<and> original_cmd c = s \<and> kind c = PipeCommand (length u) (follows (CHR ''&'') v) \<and> \<not> background c"
    if "split_at (CHR ''|'') s u v"
    using assms isSpecialCommand_pipe [OF that] Command_Inr
    by (auto simp: CreateCommand_def new_Pipe_def res_simps split: if_splits)
  show "\<exists>c. r = Some c \<and> original_cmd c = s \<and> kind c = RedirectionCommand (length u) (follows (CHR ''>'') v)"
    if "CHR ''|'' \<notin> set s" "split_at (CHR ''>'') s u v"
    using assms isSpecialCommand_redirect [OF that] Command_Inr
    by (auto simp: CreateCommand_def new_Redirection_def res_simps split: if_splits)
  show "(r = None \<longleftrightarrow> spaces s) \<and>
      (\<forall>c. r = Some c \<longrightarrow> original_cmd c = s \<and>
        (case builtin (first_word (trim s)) of
           Some k \<Rightarrow> kind c = k \<and> \<not> background c
         | None \<Rightarrow> kind c = ExternalCommand (hasSpecialCharacters s)))"
    if "CHR ''|'' \<notin> set s" "CHR ''>'' \<notin> set s"
    using assms isSpecialCommand_none [OF that] Command_Inr trim_empty [of s]
    by (auto simp: CreateCommand_def Let_def BuiltInCommand_def new_External_def res_simps
      split: if_splits option.splits)
qed

lemma CreateCommand_ok:
  assumes "CreateCommand l = Inr (Some c)"
  shows "command_ok c"
proof (cases "isSpecialCommand l")
  case (Some x)
  obtain sep i where x: "x = (sep, i)" by fastforce
  obtain c1 k where c1: "Command k l = Inr c1" "args c = args c1" "kind c = kind c1" "\<not> is_builtin k"
  proof (cases "sep = ''|'' \<or> sep = ''|&''")
    case True
    then show thesis using assms Some x that
      by (auto simp: CreateCommand_def new_Pipe_def res_simps is_builtin_def)
  next
    case False
    then have "\<exists>app. new_Redirection l i app = Inr c" using assms Some x
      by (auto simp: CreateCommand_def res_simps split: if_splits)
    then show thesis using that by (auto simp: new_Redirection_def is_builtin_def)
  qed
  then show ?thesis using Command_words [OF c1(1)] Command_Inr [OF c1(1)] by (simp add: command_ok_def)
next
  case None
  show ?thesis
  proof (cases "builtin (first_word (trim l))")
    case None
    then show ?thesis using assms \<open>isSpecialCommand l = None\<close>
      by (auto simp: CreateCommand_def new_External_def Let_def res_simps command_ok_def is_builtin_def
        split: if_splits dest: Command_words Command_Inr)
  next
    case (Some k)
    then obtain c1 where c1: "Command k l = Inr c1" "c = c1\<lparr>background := False\<rparr>"
      using assms \<open>isSpecialCommand l = None\<close>
      by (auto simp: CreateCommand_def BuiltInCommand_def Let_def res_simps split: if_splits)
    have "args c \<noteq> []"
      using CreateCommand_builtin_args [OF assms _ Some \<open>isSpecialCommand l = None\<close>] c1 Command_Inr [OF c1(1)] by simp
    then show ?thesis using Command_words [OF c1(1)] c1(2) by (simp add: command_ok_def)
  qed
qed



end
