(* ===== verification/Jobs.thy ===== *)
theory Jobs
  imports Cmdline
begin

text \<open>
  The jobs list of \<^verbatim>\<open>skeleton_smash/Commands.cpp\<close>, the wrappers that wait for and signal
  processes, and the handlers of \<^verbatim>\<open>signals.cpp\<close>. The kernel's part of the state is the table of the
  children of the shell; what happens while the shell is blocked in \<open>waitpid\<close> is a script of
  events, and \<open>Inl Fuel\<close> says it is still blocked when the script ends. The map of the jobs is its
  list of entries in the order of their ids. \<open>foreground\<close> is the id of the node it points to.
\<close>

section \<open>State\<close>

datatype pstate = Running | Stop_pending | Stop_reported | Zombie
datatype event = Ctrl_C | Ctrl_Z | Alarm | Exits int | Stops int
datatype jobState = Foreground | Background | Stopped

record job_entry =
  pid :: int
  state :: jobState
  entry_time :: int
  cmd :: command

type_synonym jobs_map = "(int \<times> job_entry) list"

text \<open>Beside the fields of the shell: children, events to come, the clock, the working directory, whether
  \<open>getcwd\<close> succeeds, what \<open>chdir\<close> makes of a path, results of \<open>fork\<close>, the effect of the signals that are not
  treated below, the descriptors (each stands for the file it writes to or reads from), the files that
  can be opened and those that were (with whether to append), the lines written, each with
  the file it went to, and the lines written to standard error.\<close>

record shell =
  quit :: bool
  display_prompt :: string
  last_pwd :: string
  jobs :: jobs_map
  foreground :: "int option"
  procs :: "int \<Rightarrow> pstate option"
  events :: "event list"
  clock :: int
  shell_pid :: int
  cwd :: string
  cwd_ok :: bool
  chdir_to :: "string \<Rightarrow> string \<Rightarrow> string option"
  forks :: "int list"
  sig_effect :: "int \<Rightarrow> (pstate \<Rightarrow> pstate) option"
  fds :: "nat \<Rightarrow> string option"
  can_open :: "string \<Rightarrow> bool"
  opened :: "(string \<times> bool) list"
  out :: "(string option \<times> string) list"
  err :: "string list"

definition SIGKILL :: int where "SIGKILL = 9"
definition SIGCONT :: int where "SIGCONT = 18"
definition SIGSTOP :: int where "SIGSTOP = 19"

definition print_msg :: "string \<Rightarrow> shell \<Rightarrow> shell" where
  "print_msg m s = s\<lparr>out := out s @ [(fds s 1, m)]\<rparr>"

definition print_smash :: "string \<Rightarrow> shell \<Rightarrow> shell" where
  "print_smash m = print_msg (''smash: '' @ m)"

definition print_syscall_fail :: "string \<Rightarrow> shell \<Rightarrow> shell" where
  "print_syscall_fail name s = s\<lparr>err := err s @ [''smash error: '' @ name @ '' failed'']\<rparr>"

section \<open>The map of jobs\<close>

text \<open>\<open>std::map\<close>: insertion keeps the order and does nothing when the key is there.\<close>

fun map_insert :: "int \<Rightarrow> job_entry \<Rightarrow> jobs_map \<Rightarrow> jobs_map" where
  "map_insert k v [] = [(k, v)]"
| "map_insert k v ((k1, v1) # m) =
     (if k < k1 then (k, v) # (k1, v1) # m else if k = k1 then (k1, v1) # m else (k1, v1) # map_insert k v m)"

definition map_erase :: "int \<Rightarrow> jobs_map \<Rightarrow> jobs_map" where
  "map_erase k m = filter (\<lambda>(k1, _). k1 \<noteq> k) m"

definition set_state :: "int \<Rightarrow> (job_entry \<Rightarrow> job_entry) \<Rightarrow> jobs_map \<Rightarrow> jobs_map" where
  "set_state k f m = map (\<lambda>(k1, v). (k1, if k1 = k then f v else v)) m"

text \<open>Following a pointer to a node; a node that was erased is no longer there.\<close>

definition job_at :: "int \<Rightarrow> shell \<Rightarrow> job_entry res" where
  "job_at k s = (case map_of (jobs s) k of None \<Rightarrow> Inl Segv | Some j \<Rightarrow> Inr j)"

section \<open>Signals\<close>

definition signal_effect :: "int \<Rightarrow> shell \<Rightarrow> (pstate \<Rightarrow> pstate) option" where
  "signal_effect sig s =
     (if sig = SIGKILL then Some (\<lambda>_. Zombie)
      else if sig = SIGSTOP then Some (\<lambda>st. if st = Running then Stop_pending else st)
      else if sig = SIGCONT then Some (\<lambda>st. if st = Zombie then Zombie else Running)
      else sig_effect s sig)"

definition kill_proc :: "int \<Rightarrow> int \<Rightarrow> shell \<Rightarrow> int \<times> shell" where
  "kill_proc p sig s = (case (procs s p, signal_effect sig s) of
     (Some st, Some f) \<Rightarrow> (0, s\<lparr>procs := (procs s)(p \<mapsto> f st)\<rparr>)
   | _ \<Rightarrow> (-1, s))"

definition skill :: "int \<Rightarrow> int \<Rightarrow> shell \<Rightarrow> int \<times> shell" where
  "skill p sig s = (case kill_proc p sig s of (e, s1) \<Rightarrow>
     (e, if e = -1 then print_syscall_fail ''kill'' s1 else s1))"

definition ctrlZHandler :: "shell \<Rightarrow> shell res" where
  "ctrlZHandler s0 = (let s = print_smash ''got ctrl-Z'' s0 in
     case foreground s of
       None \<Rightarrow> Inr s
     | Some k \<Rightarrow> rbind (job_at k s) (\<lambda>job.
         case skill (pid job) SIGSTOP s of (e, s1) \<Rightarrow>
           if e = 0 then
             Inr ((print_smash (''process '' @ dec (pid job) @ '' was stopped'') s1)
               \<lparr>jobs := set_state k (\<lambda>j. j\<lparr>state := Stopped\<rparr>) (jobs s1)\<rparr>)
           else Inr s1))"

definition ctrlCHandler :: "shell \<Rightarrow> shell res" where
  "ctrlCHandler s0 = (let s = print_smash ''got ctrl-C'' s0 in
     case foreground s of
       None \<Rightarrow> Inr s
     | Some k \<Rightarrow> rbind (job_at k s) (\<lambda>job.
         case skill (pid job) SIGKILL s of (e, s1) \<Rightarrow>
           if e = 0 then Inr (print_smash (''process '' @ dec (pid job) @ '' was killed'') s1)
           else Inr s1))"

definition alarmHandler :: "shell \<Rightarrow> shell" where
  "alarmHandler s = print_smash ''got an alarm'' s"

definition deliver :: "event \<Rightarrow> shell \<Rightarrow> shell res" where
  "deliver e s = (case e of
     Ctrl_C \<Rightarrow> ctrlCHandler s
   | Ctrl_Z \<Rightarrow> ctrlZHandler s
   | Alarm \<Rightarrow> Inr (alarmHandler s)
   | Exits p \<Rightarrow> Inr (if procs s p = None then s else s\<lparr>procs := (procs s)(p \<mapsto> Zombie)\<rparr>)
   | Stops p \<Rightarrow> Inr (if procs s p = Some Running then s\<lparr>procs := (procs s)(p \<mapsto> Stop_pending)\<rparr> else s))"

section \<open>Waiting\<close>

text \<open>\<open>waitpid\<close> with \<open>WUNTRACED\<close>: whether the child was stopped, or \<open>None\<close> when there is no such child.
  A child that ended is reaped, a stop is reported once.\<close>

fun wait_untraced :: "int \<Rightarrow> event list \<Rightarrow> shell \<Rightarrow> (bool option \<times> shell) res" where
  "wait_untraced p [] s = (case procs s p of
     None \<Rightarrow> Inr (None, s\<lparr>events := []\<rparr>)
   | Some Zombie \<Rightarrow> Inr (Some False, s\<lparr>procs := (procs s)(p := None), events := []\<rparr>)
   | Some Stop_pending \<Rightarrow> Inr (Some True, s\<lparr>procs := (procs s)(p \<mapsto> Stop_reported), events := []\<rparr>)
   | _ \<Rightarrow> Inl Fuel)"
| "wait_untraced p (e # es) s = (case procs s p of
     None \<Rightarrow> Inr (None, s\<lparr>events := e # es\<rparr>)
   | Some Zombie \<Rightarrow> Inr (Some False, s\<lparr>procs := (procs s)(p := None), events := e # es\<rparr>)
   | Some Stop_pending \<Rightarrow> Inr (Some True, s\<lparr>procs := (procs s)(p \<mapsto> Stop_reported), events := e # es\<rparr>)
   | _ \<Rightarrow> rbind (deliver e s) (wait_untraced p es))"

definition removeJobById :: "int \<Rightarrow> shell \<Rightarrow> shell" where
  "removeJobById k s = s\<lparr>jobs := map_erase k (jobs s)\<rparr>"

text \<open>\<open>swaitpid\<close> with \<open>WUNTRACED\<close>, which blocks, and with \<open>WNOHANG\<close>, whose result is -1, 0 or the process.\<close>

definition swaitpid_untraced :: "int \<Rightarrow> shell \<Rightarrow> shell res" where
  "swaitpid_untraced p s = rbind (wait_untraced p (events s) s) (\<lambda>(stopped, s).
     case stopped of
       None \<Rightarrow> Inr (print_syscall_fail ''waitpid'' s)
     | Some True \<Rightarrow> Inr (s\<lparr>foreground := None\<rparr>)
     | Some False \<Rightarrow> (case foreground s of
           None \<Rightarrow> Inl Segv
         | Some k \<Rightarrow> rbind (job_at k s) (\<lambda>_. Inr ((removeJobById k s)\<lparr>foreground := None\<rparr>))))"

definition swaitpid_nohang :: "int \<Rightarrow> shell \<Rightarrow> int \<times> shell" where
  "swaitpid_nohang p s = (case procs s p of
     None \<Rightarrow> (-1, print_syscall_fail ''waitpid'' s)
   | Some Zombie \<Rightarrow> (p, s\<lparr>procs := (procs s)(p := None), foreground := None\<rparr>)
   | Some _ \<Rightarrow> (0, s\<lparr>foreground := None\<rparr>))"

section \<open>The jobs list\<close>

fun reap :: "jobs_map \<Rightarrow> shell \<Rightarrow> shell" where
  "reap [] s = s"
| "reap ((k, j) # m) s = (case swaitpid_nohang (pid j) s of (v, s1) \<Rightarrow>
     reap m (if v \<noteq> 0 then removeJobById k s1 else s1))"

definition removeFinishedJobs :: "shell \<Rightarrow> nat \<times> shell" where
  "removeFinishedJobs s = (let s1 = reap (jobs s) s in (length (jobs s1), s1))"

definition addJob :: "command \<Rightarrow> int \<Rightarrow> bool \<Rightarrow> shell \<Rightarrow> shell" where
  "addJob c p is_stopped s0 =
     (let s = snd (removeFinishedJobs s0);
          st = (if is_stopped then Stopped else if background c then Background else Foreground);
          new_id = (if jobs s = [] then 1 else fst (last (jobs s)) + 1);
          inserted = (new_id \<notin> fst ` set (jobs s));
          s1 = s\<lparr>jobs := map_insert new_id \<lparr>pid = p, state = st, entry_time = clock s, cmd = c\<rparr> (jobs s)\<rparr>
      in if inserted \<and> st = Foreground then s1\<lparr>foreground := Some new_id\<rparr> else s1)"

definition getJobById :: "int \<Rightarrow> shell \<Rightarrow> int option \<times> shell" where
  "getJobById k s0 = (let s = snd (removeFinishedJobs s0) in
     (if map_of (jobs s) k = None then None else Some k, s))"

definition getLastJob :: "shell \<Rightarrow> int option \<times> shell" where
  "getLastJob s0 = (let s = snd (removeFinishedJobs s0) in
     (if jobs s = [] then None else Some (fst (last (jobs s))), s))"

definition getLastStoppedJob :: "shell \<Rightarrow> int option \<times> shell" where
  "getLastStoppedJob s0 = (let s = snd (removeFinishedJobs s0) in
     (case filter (\<lambda>(k, j). state j = Stopped) (rev (jobs s)) of
        [] \<Rightarrow> None | (k, j) # _ \<Rightarrow> Some k, s))"

definition printJob :: "int \<Rightarrow> job_entry \<Rightarrow> shell \<Rightarrow> shell" where
  "printJob k j s = print_msg (''['' @ dec k @ ''] '' @ original_cmd (cmd j) @ '' : '' @ dec (pid j) @ '' '' @
     dec (clock s - entry_time j) @ '' secs'' @ (if state j = Stopped then '' (stopped)'' else [])) s"

definition printJobsList :: "shell \<Rightarrow> shell" where
  "printJobsList s0 = (let s = snd (removeFinishedJobs s0) in
     fold (\<lambda>(k, j). if state j \<noteq> Foreground then printJob k j else id) (jobs s) s)"

text \<open>\<open>kill\<close> of a child that has not been reaped cannot fail with \<open>ESRCH\<close>; a job whose process is gone is
  erased all the same.\<close>

fun kill_loop :: "jobs_map \<Rightarrow> shell \<Rightarrow> shell" where
  "kill_loop [] s = s"
| "kill_loop ((k, j) # m) s =
     (let s1 = print_msg (dec (pid j) @ '': '' @ original_cmd (cmd j)) s
      in case skill (pid j) SIGKILL s1 of (e, s2) \<Rightarrow>
        kill_loop m (removeJobById k s2))"

definition killAllJobs :: "shell \<Rightarrow> shell" where
  "killAllJobs s0 = (case removeFinishedJobs s0 of (n, s) \<Rightarrow>
     kill_loop (jobs s) (print_smash (''sending SIGKILL signal to '' @ dec (int n) @ '' jobs:'') s))"

text \<open>\<open>sfork\<close> in the parent. When \<open>fork\<close> fails the function ends without returning a value.\<close>

definition sfork :: "command \<Rightarrow> shell \<Rightarrow> (int \<times> shell) res" where
  "sfork c s = (case forks s of
     [] \<Rightarrow> Inl Fuel
   | p # ps \<Rightarrow>
       if p = -1 then Inl Ub
       else (let s1 = addJob c p False (s\<lparr>forks := ps, procs := (procs s)(p \<mapsto> Running)\<rparr>) in
         if background c then Inr (p, s1)
         else rbind (swaitpid_untraced p s1) (\<lambda>s2. Inr (p, s2))))"

section \<open>The invariant of the jobs list\<close>

definition pids :: "jobs_map \<Rightarrow> int list" where
  "pids m = map (\<lambda>x. pid (snd x)) m"

definition ids :: "jobs_map \<Rightarrow> int list" where
  "ids m = map fst m"

text \<open>Ids are positive and increasing; the jobs are different children that have not been reaped; the
  pointer to the foreground job points to a node of the map.\<close>

definition jobs_ok :: "shell \<Rightarrow> bool" where
  "jobs_ok s \<longleftrightarrow> sorted_wrt (<) (ids (jobs s)) \<and> (\<forall>k\<in>set (ids (jobs s)). 0 < k) \<and>
     distinct (pids (jobs s)) \<and> (\<forall>p\<in>set (pids (jobs s)). procs s p \<noteq> None \<and> p \<noteq> 0) \<and>
     (\<forall>k. foreground s = Some k \<longrightarrow> k \<in> set (ids (jobs s)))"

lemma pids_simps [simp]:
  "pids [] = []" "pids ((k, j) # m) = pid j # pids m" "pids (m @ n) = pids m @ pids n"
  by (simp_all add: pids_def)

lemma ids_simps [simp]:
  "ids [] = []" "ids ((k, j) # m) = k # ids m" "ids (m @ n) = ids m @ ids n"
  by (simp_all add: ids_def)

lemma erase_mid: "k \<notin> set (ids m) \<Longrightarrow> map_erase k m = m"
  by (induction m) (auto simp: map_erase_def)

lemma map_erase_append: "map_erase k (m @ n) = map_erase k m @ map_erase k n"
  by (simp add: map_erase_def)

lemma map_erase_Cons: "map_erase k ((k1, j) # m) = (if k1 = k then map_erase k m else (k1, j) # map_erase k m)"
  by (simp add: map_erase_def)

lemma ids_erase: "ids (map_erase k m) = filter (\<lambda>x. x \<noteq> k) (ids m)"
  by (induction m) (auto simp: map_erase_Cons map_erase_def)

lemma pids_erase: "set (pids (map_erase k m)) \<subseteq> set (pids m)" "distinct (pids m) \<Longrightarrow> distinct (pids (map_erase k m))"
  by (induction m) (auto simp: map_erase_def)

lemma sorted_less_distinct: "sorted_wrt (<) xs \<Longrightarrow> distinct xs" for xs :: "int list"
  by (induction xs) auto

subsection \<open>Removing the finished jobs\<close>

definition is_live :: "shell \<Rightarrow> int \<times> job_entry \<Rightarrow> bool" where
  "is_live s kj \<longleftrightarrow> procs s (pid (snd kj)) \<noteq> Some Zombie"

definition reaped :: "jobs_map \<Rightarrow> shell \<Rightarrow> int \<Rightarrow> pstate option" where
  "reaped m s = (\<lambda>p. if p \<in> set (pids m) \<and> procs s p = Some Zombie then None else procs s p)"

lemma reap_spec:
  "jobs s = pre @ m \<Longrightarrow> distinct (ids (pre @ m)) \<Longrightarrow> distinct (pids m) \<Longrightarrow>
   \<forall>p\<in>set (pids m). procs s p \<noteq> None \<and> p \<noteq> 0 \<Longrightarrow>
   reap m s = s\<lparr>jobs := pre @ filter (is_live s) m,
     foreground := (if m = [] then foreground s else None), procs := reaped m s\<rparr>"
proof (induction m arbitrary: s pre)
  case Nil
  then show ?case by (simp add: reaped_def)
next
  case (Cons x m)
  obtain k j where x: "x = (k, j)" by fastforce
  obtain st where st: "procs s (pid j) = Some st" using Cons.prems(4) x by auto
  have new: "pid j \<notin> set (pids m)" using Cons.prems(3) x by simp
  show ?case
  proof (cases "st = Zombie")
    case True
    let ?s = "s\<lparr>procs := (procs s)(pid j := None), foreground := None, jobs := pre @ m\<rparr>"
    have erase: "map_erase k (pre @ (k, j) # m) = pre @ m"
      using Cons.prems(2) x by (simp add: map_erase_append map_erase_Cons erase_mid)
    have step: "reap (x # m) s = reap m ?s"
      using True st Cons.prems(1,4) x erase by (simp add: swaitpid_nohang_def removeJobById_def)
    have "reap m ?s = ?s\<lparr>jobs := pre @ filter (is_live ?s) m,
        foreground := (if m = [] then foreground ?s else None), procs := reaped m ?s\<rparr>"
      using Cons.prems x new by (intro Cons.IH) auto
    moreover have "filter (is_live ?s) m = filter (is_live s) m"
      using new by (intro filter_cong) (force simp: is_live_def pids_def)+
    moreover have "reaped m ?s = reaped (x # m) s"
      using new st True x by (auto simp: reaped_def fun_eq_iff)
    moreover have "\<not> is_live s x" using st True x by (simp add: is_live_def)
    ultimately show ?thesis using step by simp
  next
    case False
    let ?s = "s\<lparr>foreground := None\<rparr>"
    have step: "reap (x # m) s = reap m ?s"
      using False st x by (cases st) (auto simp: swaitpid_nohang_def)
    have "reap m ?s = ?s\<lparr>jobs := (pre @ [x]) @ filter (is_live ?s) m,
        foreground := (if m = [] then foreground ?s else None), procs := reaped m ?s\<rparr>"
      using Cons.prems x by (intro Cons.IH) auto
    moreover have "is_live ?s = is_live s" by (simp add: is_live_def fun_eq_iff)
    moreover have "reaped m ?s = reaped (x # m) s"
      using new st False x by (auto simp: reaped_def fun_eq_iff)
    moreover have "is_live s x" using st False x by (simp add: is_live_def)
    ultimately show ?thesis using step by simp
  qed
qed

lemma removeFinishedJobs_spec:
  assumes "jobs_ok s"
  shows "snd (removeFinishedJobs s) = s\<lparr>jobs := filter (is_live s) (jobs s),
      foreground := (if jobs s = [] then foreground s else None), procs := reaped (jobs s) s\<rparr>"
    and "fst (removeFinishedJobs s) = length (filter (is_live s) (jobs s))"
proof -
  have "reap (jobs s) s = s\<lparr>jobs := [] @ filter (is_live s) (jobs s),
      foreground := (if jobs s = [] then foreground s else None), procs := reaped (jobs s) s\<rparr>"
    using assms by (intro reap_spec) (auto simp: jobs_ok_def sorted_less_distinct)
  then show "snd (removeFinishedJobs s) = s\<lparr>jobs := filter (is_live s) (jobs s),
      foreground := (if jobs s = [] then foreground s else None), procs := reaped (jobs s) s\<rparr>"
    "fst (removeFinishedJobs s) = length (filter (is_live s) (jobs s))"
    by (simp_all add: removeFinishedJobs_def Let_def)
qed

lemma ids_filter: "sorted_wrt (<) (ids m) \<Longrightarrow> sorted_wrt (<) (ids (filter P m))"
  unfolding ids_def by (simp add: sorted_wrt_map sorted_wrt_filter)

lemma set_ids_filter: "set (ids (filter P m)) \<subseteq> set (ids m)"
  by (auto simp: ids_def)

lemma pids_filter: "distinct (pids m) \<Longrightarrow> distinct (pids (filter P m))"
  unfolding pids_def by (rule distinct_map_filter)

lemma pid_live: "p \<in> set (pids (filter (is_live s) m)) \<Longrightarrow> p \<in> set (pids m) \<and> procs s p \<noteq> Some Zombie"
  by (auto simp: pids_def is_live_def)

lemma removeFinishedJobs_ok: "jobs_ok s \<Longrightarrow> jobs_ok (snd (removeFinishedJobs s))"
  using removeFinishedJobs_spec(1) [of s] set_ids_filter [of "is_live s" "jobs s"]
  by (auto simp: jobs_ok_def ids_filter pids_filter reaped_def dest!: pid_live)

subsection \<open>The map as an interface\<close>

text \<open>What the jobs list relies on of \<open>std::map\<close>: the keys are increasing, \<open>ins\<close> does nothing when the key is
  there, \<open>del\<close> removes one key.\<close>

locale ordered_map =
  fixes ok :: "'m \<Rightarrow> bool" and keys :: "'m \<Rightarrow> int list" and look :: "'m \<Rightarrow> int \<Rightarrow> 'v option"
    and ins :: "int \<Rightarrow> 'v \<Rightarrow> 'm \<Rightarrow> 'm" and del :: "int \<Rightarrow> 'm \<Rightarrow> 'm"
  assumes increasing: "ok m \<Longrightarrow> sorted_wrt (<) (keys m)"
    and key_look: "ok m \<Longrightarrow> k \<in> set (keys m) \<longleftrightarrow> look m k \<noteq> None"
    and ins_ok: "ok m \<Longrightarrow> ok (ins k v m)"
    and look_ins: "ok m \<Longrightarrow> look (ins k v m) k1 = (if k1 = k \<and> look m k = None then Some v else look m k1)"
    and del_ok: "ok m \<Longrightarrow> ok (del k m)"
    and look_del: "ok m \<Longrightarrow> look (del k m) k1 = (if k1 = k then None else look m k1)"
begin

lemma beyond_last:
  assumes "ok m" "keys m \<noteq> []" "last (keys m) < k"
  shows "k \<notin> set (keys m)"
proof
  assume k: "k \<in> set (keys m)"
  obtain ks l where ks: "keys m = ks @ [l]" using assms(2) by (cases "keys m" rule: rev_cases) auto
  then show False using k assms(3) increasing [OF assms(1)] by (auto simp: sorted_wrt_append)
qed

text \<open>The key after the last one is free: a value inserted there is found, nothing else changes, and
  removing it leaves what was there.\<close>

lemma fresh_key:
  assumes "ok m" "k = (if keys m = [] then 1 else last (keys m) + 1)"
  shows "look m k = None" "look (ins k v m) k = Some v" "k1 \<noteq> k \<Longrightarrow> look (ins k v m) k1 = look m k1"
    "look (del k (ins k v m)) = look m"
proof -
  show free: "look m k = None"
    using assms beyond_last [OF assms(1), of k] key_look [OF assms(1), of k] by (cases "keys m = []") auto
  show "look (ins k v m) k = Some v" "k1 \<noteq> k \<Longrightarrow> look (ins k v m) k1 = look m k1"
    using look_ins [OF assms(1)] free by simp_all
  show "look (del k (ins k v m)) = look m"
    using look_del [OF ins_ok [OF assms(1)]] look_ins [OF assms(1)] free by (auto simp: fun_eq_iff)
qed

end

lemma ids_insert: "set (ids (map_insert k v m)) = insert k (set (ids m))"
  by (induction k v m rule: map_insert.induct) auto

lemma map_insert_sorted: "sorted_wrt (<) (ids m) \<Longrightarrow> sorted_wrt (<) (ids (map_insert k v m))"
  by (induction k v m rule: map_insert.induct) (auto simp: ids_insert)

lemma look_insert:
  "sorted_wrt (<) (ids m) \<Longrightarrow>
   map_of (map_insert k v m) k1 = (if k1 = k \<and> map_of m k = None then Some v else map_of m k1)"
proof (induction k v m rule: map_insert.induct)
  case (2 k v k2 v2 m)
  have "k < k2 \<Longrightarrow> map_of m k = None"
    using 2(2) by (force simp: map_of_eq_None_iff ids_def)
  then show ?case using 2 by auto
qed auto

interpretation jobs_map: ordered_map "\<lambda>m. sorted_wrt (<) (ids m)" ids map_of map_insert map_erase
proof (unfold_locales, goal_cases)
  case (2 m k)
  then show ?case by (simp add: ids_def map_of_eq_None_iff)
next
  case (6 m k k1)
  show ?case by (induction m) (auto simp: map_erase_Cons map_erase_def)
qed (auto simp: map_insert_sorted look_insert ids_erase sorted_wrt_filter)

subsection \<open>Adding a job\<close>

definition next_id :: "jobs_map \<Rightarrow> int" where
  "next_id m = (if m = [] then 1 else fst (last m) + 1)"

lemma next_id_greater:
  "sorted_wrt (<) (ids m) \<Longrightarrow> \<forall>k\<in>set (ids m). 0 < k \<Longrightarrow>
   (\<forall>k\<in>set (ids m). k < next_id m) \<and> 0 < next_id m"
proof (cases m rule: rev_cases)
  case Nil
  then show ?thesis by (simp add: next_id_def)
next
  case (snoc m' x)
  assume "sorted_wrt (<) (ids m)" "\<forall>k\<in>set (ids m). 0 < k"
  then show ?thesis using snoc by (cases x) (auto simp: next_id_def sorted_wrt_append)
qed

lemma next_id_free:
  assumes "sorted_wrt (<) (ids m)"
  shows "map_of m (next_id m) = None"
proof -
  have "next_id m = (if ids m = [] then 1 else last (ids m) + 1)" by (simp add: next_id_def ids_def last_map)
  then show ?thesis by (rule jobs_map.fresh_key(1) [OF assms])
qed

lemma map_insert_last: "\<forall>k1\<in>set (ids m). k1 < k \<Longrightarrow> map_insert k v m = m @ [(k, v)]"
  by (induction k v m rule: map_insert.induct) auto

definition job_state :: "command \<Rightarrow> bool \<Rightarrow> jobState" where
  "job_state c is_stopped = (if is_stopped then Stopped else if background c then Background else Foreground)"

definition live_jobs :: "shell \<Rightarrow> jobs_map" where
  "live_jobs s = filter (is_live s) (jobs s)"

lemma live_jobs_ok:
  assumes "jobs_ok s"
  shows "sorted_wrt (<) (ids (live_jobs s))" "\<forall>k\<in>set (ids (live_jobs s)). 0 < k" "distinct (pids (live_jobs s))"
    "\<forall>q\<in>set (pids (live_jobs s)). q \<in> set (pids (jobs s)) \<and> procs s q \<noteq> Some Zombie \<and> procs s q \<noteq> None \<and> q \<noteq> 0"
  using assms set_ids_filter [of "is_live s" "jobs s"]
  by (auto simp: live_jobs_def jobs_ok_def ids_filter pids_filter dest!: pid_live)

lemma addJob_spec:
  assumes "jobs_ok s"
  shows "addJob c p b s =
    s\<lparr>jobs := live_jobs s @ [(next_id (live_jobs s), \<lparr>pid = p, state = job_state c b, entry_time = clock s, cmd = c\<rparr>)],
      foreground := (if job_state c b = Foreground then Some (next_id (live_jobs s))
        else if jobs s = [] then foreground s else None),
      procs := reaped (jobs s) s\<rparr>"
proof -
  note live = live_jobs_ok [OF assms]
  note new = next_id_greater [OF live(1,2)]
  have "next_id (live_jobs s) \<notin> fst ` set (live_jobs s)"
    using next_id_free [OF live(1)] by (simp add: map_of_eq_None_iff)
  moreover note map_insert_last [OF new [THEN conjunct1]]
  ultimately show ?thesis
    unfolding addJob_def Let_def removeFinishedJobs_spec(1) [OF assms] live_jobs_def [symmetric] job_state_def [symmetric]
    by (simp add: next_id_def [symmetric] cong: if_cong)
qed

lemma addJob_ok:
  assumes "jobs_ok s" "p \<notin> set (pids (jobs s))" "procs s p = Some Running" "p \<noteq> 0"
  shows "jobs_ok (addJob c p b s)"
proof -
  note live = live_jobs_ok [OF assms(1)]
  note new = next_id_greater [OF live(1,2)]
  have "p \<notin> set (pids (live_jobs s))" using live(4) assms(2) by auto
  moreover have "reaped (jobs s) s p = Some Running" using assms(2,3) by (simp add: reaped_def)
  moreover have "reaped (jobs s) s q \<noteq> None" if "q \<in> set (pids (live_jobs s))" for q
    using live(4) that by (simp add: reaped_def)
  moreover have "foreground s = None" if "jobs s = []"
    using assms(1) that by (cases "foreground s") (auto simp: jobs_ok_def)
  ultimately show ?thesis using live new assms(4)
    unfolding addJob_spec [OF assms(1)] by (auto simp: jobs_ok_def sorted_wrt_append)
qed

subsection \<open>Signals and waiting\<close>

definition pid_at :: "shell \<Rightarrow> int \<Rightarrow> int option" where
  "pid_at s k = map_option pid (map_of (jobs s) k)"

definition alive :: "shell \<Rightarrow> int set" where
  "alive s = {p. procs s p \<noteq> None}"

lemma ids_set_state [simp]: "ids (set_state k f m) = ids m"
  by (induction m) (auto simp: set_state_def)

lemma pids_set_state: "(\<And>j. pid (f j) = pid j) \<Longrightarrow> pids (set_state k f m) = pids m"
  by (induction m) (auto simp: set_state_def)

lemma map_of_set_state: "map_of (set_state k f m) k1 = map_option (if k1 = k then f else id) (map_of m k1)"
  by (induction m) (auto simp: set_state_def)

lemma pid_at_mem: "pid_at s k = Some p \<Longrightarrow> p \<in> set (pids (jobs s)) \<and> k \<in> set (ids (jobs s))"
  by (auto simp: pid_at_def pids_def ids_def dest!: map_of_SomeD) force+

lemma foreground_pid: "jobs_ok s \<Longrightarrow> foreground s = Some k \<Longrightarrow> \<exists>j. map_of (jobs s) k = Some j \<and> pid j \<in> alive s"
proof -
  assume ok: "jobs_ok s" and k: "foreground s = Some k"
  then have "k \<in> fst ` set (jobs s)" by (auto simp: jobs_ok_def ids_def)
  then obtain j where j: "map_of (jobs s) k = Some j" by (metis map_of_eq_None_iff option.exhaust)
  then have "pid j \<in> set (pids (jobs s))" using pid_at_mem [of s k "pid j"] by (simp add: pid_at_def)
  then show ?thesis using ok j by (auto simp: jobs_ok_def alive_def)
qed

text \<open>What a step of the kernel or a handler leaves as it is.\<close>

definition same_jobs :: "shell \<Rightarrow> shell \<Rightarrow> bool" where
  "same_jobs s s1 \<longleftrightarrow> ids (jobs s1) = ids (jobs s) \<and> pids (jobs s1) = pids (jobs s) \<and>
     pid_at s1 = pid_at s \<and> foreground s1 = foreground s \<and> alive s \<subseteq> alive s1"

lemma same_jobs_ok: "jobs_ok s \<Longrightarrow> same_jobs s s1 \<Longrightarrow> jobs_ok s1"
  by (auto simp: jobs_ok_def same_jobs_def alive_def subset_iff)

lemma signal_effects:
  "signal_effect SIGKILL s = Some (\<lambda>_. Zombie)"
  "signal_effect SIGSTOP s = Some (\<lambda>st. if st = Running then Stop_pending else st)"
  "signal_effect SIGCONT s = Some (\<lambda>st. if st = Zombie then Zombie else Running)"
  by (simp_all add: signal_effect_def SIGKILL_def SIGSTOP_def SIGCONT_def)

lemma skill_ok:
  assumes "p \<in> alive s" "signal_effect sig s = Some f"
  shows "\<exists>st. procs s p = Some st \<and> skill p sig s = (0, s\<lparr>procs := (procs s)(p \<mapsto> f st)\<rparr>)"
  using assms by (auto simp: alive_def skill_def kill_proc_def)

lemma deliver_ok:
  assumes "jobs_ok s"
  shows "\<exists>s1. deliver e s = Inr s1 \<and> same_jobs s s1"
proof (cases e)
  case Ctrl_Z
  show ?thesis
  proof (cases "foreground s")
    case None
    then show ?thesis using Ctrl_Z
      by (auto simp: deliver_def ctrlZHandler_def print_smash_def print_msg_def same_jobs_def pid_at_def alive_def)
  next
    case (Some k)
    obtain j where j: "map_of (jobs s) k = Some j" "pid j \<in> alive s" using foreground_pid [OF assms Some] by blast
    let ?s = "print_smash ''got ctrl-Z'' s"
    have "pid j \<in> alive ?s" using j(2) by (simp add: alive_def print_smash_def print_msg_def)
    from skill_ok [OF this signal_effects(2)] obtain st where
      "skill (pid j) SIGSTOP ?s = (0, ?s\<lparr>procs := (procs ?s)(pid j \<mapsto> (if st = Running then Stop_pending else st))\<rparr>)" by blast
    then show ?thesis using Ctrl_Z Some j
      by (auto simp: deliver_def ctrlZHandler_def Let_def job_at_def print_smash_def print_msg_def same_jobs_def
        pids_set_state pid_at_def map_of_set_state alive_def fun_eq_iff option.map_comp intro!: option.map_cong0)
  qed
next
  case Ctrl_C
  show ?thesis
  proof (cases "foreground s")
    case None
    then show ?thesis using Ctrl_C
      by (auto simp: deliver_def ctrlCHandler_def print_smash_def print_msg_def same_jobs_def pid_at_def alive_def)
  next
    case (Some k)
    obtain j where j: "map_of (jobs s) k = Some j" "pid j \<in> alive s" using foreground_pid [OF assms Some] by blast
    let ?s = "print_smash ''got ctrl-C'' s"
    have "pid j \<in> alive ?s" using j(2) by (simp add: alive_def print_smash_def print_msg_def)
    from skill_ok [OF this signal_effects(1)] have "skill (pid j) SIGKILL ?s = (0, ?s\<lparr>procs := (procs ?s)(pid j \<mapsto> Zombie)\<rparr>)" by blast
    then show ?thesis using Ctrl_C Some j
      by (auto simp: deliver_def ctrlCHandler_def Let_def job_at_def print_smash_def print_msg_def same_jobs_def
        pid_at_def alive_def)
  qed
qed (auto simp: deliver_def alarmHandler_def print_smash_def print_msg_def same_jobs_def pid_at_def alive_def)

lemma same_jobs_trans: "same_jobs s s1 \<Longrightarrow> same_jobs s1 s2 \<Longrightarrow> same_jobs s s2"
  by (auto simp: same_jobs_def)

lemma same_jobs_refl: "same_jobs s s"
  by (simp add: same_jobs_def)

definition after_wait :: "int \<Rightarrow> bool \<Rightarrow> event list \<Rightarrow> shell \<Rightarrow> shell" where
  "after_wait p stopped es s =
     s\<lparr>procs := (procs s)(p := (if stopped then Some Stop_reported else None)), events := es\<rparr>"

lemma wait_step:
  "procs s p = Some Zombie \<Longrightarrow> wait_untraced p evs s = Inr (Some False, after_wait p False evs s)"
  "procs s p = Some Stop_pending \<Longrightarrow> wait_untraced p evs s = Inr (Some True, after_wait p True evs s)"
  "procs s p = Some Running \<or> procs s p = Some Stop_reported \<Longrightarrow>
     wait_untraced p (e # es) s = rbind (deliver e s) (wait_untraced p es)"
  "procs s p = Some Running \<or> procs s p = Some Stop_reported \<Longrightarrow> wait_untraced p [] s = Inl Fuel"
  by (cases evs; auto simp: after_wait_def)+

lemma wait_untraced_ok:
  "jobs_ok s \<Longrightarrow> p \<in> alive s \<Longrightarrow> wait_untraced p evs s = Inl Fuel \<or>
   (\<exists>s1 b es. same_jobs s s1 \<and> wait_untraced p evs s = Inr (Some b, after_wait p b es s1))"
proof (induction evs arbitrary: s)
  case Nil
  then obtain st where "procs s p = Some st" by (auto simp: alive_def)
  then show ?case using wait_step same_jobs_refl by (cases st) metis+
next
  case (Cons e es)
  then obtain st where st: "procs s p = Some st" by (auto simp: alive_def)
  show ?case
  proof (cases "st = Zombie \<or> st = Stop_pending")
    case True
    then show ?thesis using st wait_step(1,2) same_jobs_refl by metis
  next
    case False
    then have r: "procs s p = Some Running \<or> procs s p = Some Stop_reported" using st by (cases st) auto
    obtain s1 where s1: "deliver e s = Inr s1" "same_jobs s s1" using deliver_ok [OF Cons.prems(1)] by blast
    have "jobs_ok s1" "p \<in> alive s1"
      using same_jobs_ok [OF Cons.prems(1) s1(2)] s1(2) Cons.prems(2) by (auto simp: same_jobs_def)
    from Cons.IH [OF this] show ?thesis
      using wait_step(3) [OF r, of e es] s1 same_jobs_trans by (simp, metis)
  qed
qed

lemma erase_pids:
  "distinct (ids m) \<Longrightarrow> distinct (pids m) \<Longrightarrow> map_of m k = Some j \<Longrightarrow>
   set (pids (map_erase k m)) = set (pids m) - {pid j}"
proof (induction m)
  case (Cons x m)
  obtain k1 j1 where x: "x = (k1, j1)" by fastforce
  show ?case
  proof (cases "k1 = k")
    case True
    then show ?thesis using Cons.prems x by (simp add: map_erase_Cons erase_mid)
  next
    case False
    then have m: "map_of m k = Some j" using Cons.prems(3) x by simp
    have "pid (snd (k, j)) \<in> (\<lambda>x. pid (snd x)) ` set m" by (rule imageI [OF map_of_SomeD [OF m]])
    then have "pid j \<in> set (pids m)" by (simp add: pids_def)
    then have ne: "pid j1 \<noteq> pid j" using Cons.prems(2) x by auto
    have "set (pids (map_erase k m)) = set (pids m) - {pid j}"
      using Cons.prems(1,2) x by (intro Cons.IH [OF _ _ m]) simp_all
    then show ?thesis using x False ne by (simp add: map_erase_Cons insert_Diff_if)
  qed
qed simp

lemma erase_ok:
  assumes "jobs_ok s" "pid_at s k = Some p"
  shows "jobs_ok ((removeJobById k s)\<lparr>foreground := None, procs := (procs s)(p := v)\<rparr>)"
proof -
  obtain j where j: "map_of (jobs s) k = Some j" "pid j = p" using assms(2) by (auto simp: pid_at_def)
  have "distinct (ids (jobs s))" "distinct (pids (jobs s))"
    using assms(1) by (auto simp: jobs_ok_def sorted_less_distinct)
  from erase_pids [OF this j(1)] show ?thesis using assms(1) j(2)
    by (auto simp: jobs_ok_def removeJobById_def ids_erase sorted_wrt_filter pids_erase)
qed

text \<open>Waiting for the foreground job: when the wait returns, the job has either been stopped and is
  kept, or has ended and is gone; nothing is in the foreground.\<close>

lemma swaitpid_untraced_ok:
  assumes "jobs_ok s" "foreground s = Some k" "pid_at s k = Some p"
  shows "swaitpid_untraced p s = Inl Fuel \<or>
    (\<exists>s2. swaitpid_untraced p s = Inr s2 \<and> jobs_ok s2 \<and> foreground s2 = None \<and>
      (ids (jobs s2) = ids (jobs s) \<and> procs s2 p = Some Stop_reported \<or>
       ids (jobs s2) = filter (\<lambda>x. x \<noteq> k) (ids (jobs s)) \<and> procs s2 p = None))"
proof -
  have p: "p \<in> alive s" using pid_at_mem [OF assms(3)] assms(1) by (auto simp: jobs_ok_def alive_def)
  from wait_untraced_ok [OF assms(1) p, of "events s"] show ?thesis
  proof (elim disjE exE conjE)
    assume "wait_untraced p (events s) s = Inl Fuel"
    then show ?thesis by (simp add: swaitpid_untraced_def)
  next
    fix s1 b es
    assume same: "same_jobs s s1" and w: "wait_untraced p (events s) s = Inr (Some b, after_wait p b es s1)"
    have ok: "jobs_ok s1" using same_jobs_ok [OF assms(1) same] .
    have f: "foreground s1 = Some k" "pid_at s1 k = Some p" "ids (jobs s1) = ids (jobs s)"
      using same assms by (simp_all add: same_jobs_def)
    show ?thesis
    proof (cases b)
      case True
      let ?s2 = "(after_wait p True es s1)\<lparr>foreground := None\<rparr>"
      have "jobs_ok ?s2" using ok by (auto simp: jobs_ok_def after_wait_def)
      then show ?thesis using w True f by (simp add: swaitpid_untraced_def after_wait_def)
    next
      case False
      let ?s2 = "(removeJobById k (after_wait p False es s1))\<lparr>foreground := None\<rparr>"
      obtain j where "map_of (jobs s1) k = Some j" using f(2) by (auto simp: pid_at_def)
      then have "swaitpid_untraced p s = Inr ?s2"
        using w False f by (simp add: swaitpid_untraced_def job_at_def after_wait_def)
      moreover have "jobs_ok ?s2" using erase_ok [OF ok f(2), of None]
        by (simp add: jobs_ok_def removeJobById_def after_wait_def)
      ultimately show ?thesis using f by (simp add: removeJobById_def ids_erase after_wait_def)
    qed
  qed
qed

text \<open>Running a command in a new process.\<close>

lemma sfork_ok:
  assumes "jobs_ok s" "forks s = p # ps" "p \<noteq> -1" "p \<noteq> 0" "procs s p = None"
  shows "sfork c s = Inl Fuel \<or> (\<exists>s1. sfork c s = Inr (p, s1) \<and> jobs_ok s1)"
proof -
  let ?s = "s\<lparr>forks := ps, procs := (procs s)(p \<mapsto> Running)\<rparr>"
  have p: "p \<notin> set (pids (jobs s))" using assms(1,5) by (auto simp: jobs_ok_def)
  have ok: "jobs_ok ?s" using assms(1) by (auto simp: jobs_ok_def)
  have run: "p \<notin> set (pids (jobs ?s))" "procs ?s p = Some Running" using p by simp_all
  note added = addJob_ok [OF ok run assms(4), of c False]
  show ?thesis
  proof (cases "background c")
    case True
    then show ?thesis using assms(2,3) added by (simp add: sfork_def Let_def)
  next
    case False
    let ?k = "next_id (live_jobs ?s)" and ?t = "addJob c p False ?s"
    note live = live_jobs_ok [OF ok]
    have "?k \<notin> set (ids (live_jobs ?s))" using next_id_greater [OF live(1,2)] by auto
    then have "map_of (live_jobs ?s) ?k = None" by (simp add: ids_def map_of_eq_None_iff)
    then have "foreground ?t = Some ?k" "pid_at ?t ?k = Some p"
      using False unfolding addJob_spec [OF ok] by (simp_all add: job_state_def pid_at_def map_add_def)
    from swaitpid_untraced_ok [OF added this] show ?thesis
      using False assms(2,3) by (auto simp: sfork_def Let_def)
  qed
qed

lemma getJobById_ok: "jobs_ok s \<Longrightarrow> jobs_ok (snd (getJobById k s))"
  and getLastJob_ok: "jobs_ok s \<Longrightarrow> jobs_ok (snd (getLastJob s))"
  and getLastStoppedJob_ok: "jobs_ok s \<Longrightarrow> jobs_ok (snd (getLastStoppedJob s))"
  using removeFinishedJobs_ok by (simp_all add: getJobById_def getLastJob_def getLastStoppedJob_def Let_def)

lemma jobs_ok_out [simp]: "jobs_ok (s\<lparr>out := o'\<rparr>) = jobs_ok s" "jobs_ok (s\<lparr>err := e'\<rparr>) = jobs_ok s"
  by (simp_all add: jobs_ok_def)

lemma printJobsList_only_prints:
  "\<exists>o'. printJobsList s = (snd (removeFinishedJobs s))\<lparr>out := o'\<rparr>"
proof -
  have "\<exists>o'. fold (\<lambda>(k, j). if state j \<noteq> Foreground then printJob k j else id) m t = t\<lparr>out := o'\<rparr>" for m t
  proof (induction m arbitrary: t)
    case Nil
    show ?case by (rule exI [of _ "out t"]) simp
  next
    case (Cons x m)
    obtain k j where x: "x = (k, j)" by fastforce
    have printed: "\<exists>o'. printJob k j t = t\<lparr>out := o'\<rparr>" by (auto simp: printJob_def print_msg_def)
    have "\<exists>o'. (if state j \<noteq> Foreground then printJob k j else id) t = t\<lparr>out := o'\<rparr>"
    proof (cases "state j = Foreground")
      case True
      show ?thesis by (rule exI [of _ "out t"]) (simp add: True)
    qed (use printed in simp)
    then obtain o' where o': "(if state j \<noteq> Foreground then printJob k j else id) t = t\<lparr>out := o'\<rparr>" by blast
    obtain o'' where "fold (\<lambda>(k, j). if state j \<noteq> Foreground then printJob k j else id) m (t\<lparr>out := o'\<rparr>) =
        (t\<lparr>out := o'\<rparr>)\<lparr>out := o''\<rparr>" using Cons.IH by blast
    then show ?case using o' x by auto
  qed
  then show ?thesis by (simp add: printJobsList_def Let_def)
qed

lemma kill_loop_ok:
  "jobs s = m \<Longrightarrow> jobs_ok s \<Longrightarrow> foreground s = None \<Longrightarrow>
   jobs (kill_loop m s) = [] \<and> (\<forall>p\<in>set (pids m). procs (kill_loop m s) p = Some Zombie) \<and>
   (\<forall>p. p \<notin> set (pids m) \<longrightarrow> procs (kill_loop m s) p = procs s p) \<and>
   foreground (kill_loop m s) = None \<and> err (kill_loop m s) = err s"
proof (induction m arbitrary: s)
  case (Cons x m)
  obtain k j where x: "x = (k, j)" by fastforce
  let ?s = "print_msg (dec (pid j) @ '': '' @ original_cmd (cmd j)) s"
  have "pid j \<in> alive ?s" using Cons.prems x by (auto simp: jobs_ok_def alive_def print_msg_def)
  then have sk: "skill (pid j) SIGKILL ?s = (0, ?s\<lparr>procs := (procs ?s)(pid j \<mapsto> Zombie)\<rparr>)"
    using skill_ok signal_effects(1) by blast
  let ?t = "removeJobById k (?s\<lparr>procs := (procs ?s)(pid j \<mapsto> Zombie)\<rparr>)"
  have k: "k \<notin> set (ids m)" using Cons.prems x sorted_less_distinct [of "ids (jobs s)"] by (auto simp: jobs_ok_def)
  have t: "jobs ?t = m" "foreground ?t = None" "err ?t = err s" "procs ?t = (procs s)(pid j \<mapsto> Zombie)"
    using Cons.prems x k by (simp_all add: removeJobById_def print_msg_def map_erase_Cons erase_mid)
  have "jobs_ok ?t" using Cons.prems x t by (auto simp: jobs_ok_def)
  moreover have "kill_loop (x # m) s = kill_loop m ?t" using sk x by simp
  moreover have "pid j \<notin> set (pids m)" using Cons.prems x by (auto simp: jobs_ok_def)
  ultimately show ?case using Cons.IH [OF t(1)] t x by simp
qed simp

text \<open>C36: \<open>removeFinishedJobs\<close> removes exactly the jobs whose process has ended, in one pass over the
  map it erases from: the others stay with their ids, order and states, the ended children are
  reaped and no other, no \<open>waitpid\<close> fails, and the number of the remaining jobs is
  returned.\<close>

theorem removeFinishedJobs_exact:
  assumes "jobs_ok s" "removeFinishedJobs s = (n, s1)"
  shows "jobs s1 = filter (\<lambda>(k, j). procs s (pid j) \<noteq> Some Zombie) (jobs s) \<and> n = length (jobs s1) \<and>
    (\<forall>p. procs s1 p = (if p \<in> set (pids (jobs s)) \<and> procs s p = Some Zombie then None else procs s p)) \<and>
    err s1 = err s \<and> out s1 = out s"
proof -
  have "s1 = snd (removeFinishedJobs s)" "n = fst (removeFinishedJobs s)" using assms(2) by simp_all
  moreover have "is_live s = (\<lambda>(k, j). procs s (pid j) \<noteq> Some Zombie)"
    by (auto simp: is_live_def fun_eq_iff)
  ultimately show ?thesis using removeFinishedJobs_spec [OF assms(1)] by (simp add: reaped_def)
qed

definition demo_cmd :: command where
  "demo_cmd = \<lparr>args = [''sleep'', ''9''], original_cmd = ''sleep 9'', background = False, kind = ExternalCommand False\<rparr>"

definition demo_shell :: shell where
  "demo_shell = \<lparr>quit = False, display_prompt = ''smash'', last_pwd = [],
     jobs = [(1, \<lparr>pid = 100, state = Stopped, entry_time = 0, cmd = demo_cmd\<rparr>),
             (3, \<lparr>pid = 102, state = Background, entry_time = 0, cmd = demo_cmd\<rparr>)],
     foreground = None, procs = [100 \<mapsto> Stop_reported, 102 \<mapsto> Zombie], events = [Ctrl_Z], clock = 7,
     shell_pid = 99, cwd = ''/'', cwd_ok = True, chdir_to = (\<lambda>d p. Some p), forks = [103], sig_effect = (\<lambda>_. None),
     fds = [0 \<mapsto> ''tty'', 1 \<mapsto> ''tty'', 2 \<mapsto> ''tty''], can_open = (\<lambda>_. True), opened = [], out = [], err = []\<rparr>"

lemma demo_shell_ok: "jobs_ok demo_shell"
  by (simp add: demo_shell_def jobs_ok_def)

theorem removeFinishedJobs_exact_witness:
  "\<exists>n s1. removeFinishedJobs demo_shell = (n, s1) \<and> ids (jobs s1) = [1] \<and> n = 1"
proof -
  obtain n s1 where r: "removeFinishedJobs demo_shell = (n, s1)" by fastforce
  then show ?thesis using removeFinishedJobs_exact [OF demo_shell_ok r] by (simp add: demo_shell_def)
qed

end
