(* ===== verification/Shell.thy ===== *)
theory Shell
  imports Jobs
begin

text \<open>
  The commands of \<^verbatim>\<open>skeleton_smash/Commands.cpp\<close> and the main loop of \<^verbatim>\<open>smash.cpp\<close>, over the state of
  \<open>Jobs\<close>. A child process is known to the shell by its pid; what it executes is \<open>external_argv\<close>, and the
  descriptors with which the first command of a pipe runs are \<open>pipe_child\<close>. Output is not buffered.
\<close>

section \<open>Descriptors\<close>

text \<open>\<open>dup\<close>, \<open>open\<close> and \<open>pipe\<close> take the lowest descriptors that are free; -1 when there is none.\<close>

definition OPEN_MAX :: nat where "OPEN_MAX = 1024"

definition lowest_free :: "(nat \<Rightarrow> string option) \<Rightarrow> nat option" where
  "lowest_free f = List.find (\<lambda>i. f i = None) [0..<OPEN_MAX]"

text \<open>For evaluation: the search stops at the first free descriptor.\<close>

fun first_free :: "nat \<Rightarrow> nat \<Rightarrow> (nat \<Rightarrow> string option) \<Rightarrow> nat option" where
  "first_free n i f = (if n = 0 then None else if f i = None then Some i else first_free (n - 1) (i + 1) f)"

declare first_free.simps [simp del]

lemma first_free_find: "first_free n i f = List.find (\<lambda>i. f i = None) [i..<i + n]"
proof (induction n arbitrary: i)
  case (Suc n)
  have "[i..<i + Suc n] = i # [Suc i..<Suc i + n]" by (simp add: upt_conv_Cons)
  then show ?case using Suc.IH [of "Suc i"] by (subst first_free.simps) simp
qed (simp add: first_free.simps)

lemma lowest_free_code [code]: "lowest_free f = first_free OPEN_MAX 0 f"
  by (simp only: lowest_free_def first_free_find) simp

definition is_open :: "int \<Rightarrow> shell \<Rightarrow> bool" where
  "is_open fd s \<longleftrightarrow> 0 \<le> fd \<and> fds s (nat fd) \<noteq> None"

definition sdup :: "int \<Rightarrow> shell \<Rightarrow> int \<times> shell" where
  "sdup fd s = (case lowest_free (fds s) of
     Some n \<Rightarrow> if is_open fd s then (int n, s\<lparr>fds := (fds s)(n := fds s (nat fd))\<rparr>)
               else (-1, print_syscall_fail ''dup2'' s)
   | None \<Rightarrow> (-1, print_syscall_fail ''dup2'' s))"

definition sdup2 :: "int \<Rightarrow> nat \<Rightarrow> shell \<Rightarrow> shell" where
  "sdup2 fd fd2 s = (if is_open fd s then s\<lparr>fds := (fds s)(fd2 := fds s (nat fd))\<rparr>
     else print_syscall_fail ''dup2'' s)"

definition sclose :: "int \<Rightarrow> shell \<Rightarrow> shell" where
  "sclose fd s = (if is_open fd s then s\<lparr>fds := (fds s)(nat fd := None)\<rparr>
     else print_syscall_fail ''close'' s)"

definition sopen :: "string \<Rightarrow> bool \<Rightarrow> shell \<Rightarrow> int \<times> shell" where
  "sopen path app s = (case lowest_free (fds s) of
     Some n \<Rightarrow> if can_open s path then (int n, s\<lparr>fds := (fds s)(n \<mapsto> path), opened := opened s @ [(path, app)]\<rparr>)
               else (-1, print_syscall_fail ''open'' s)
   | None \<Rightarrow> (-1, print_syscall_fail ''open'' s))"

definition open_pipe :: "shell \<Rightarrow> (nat \<times> nat \<times> shell) option" where
  "open_pipe s = (case lowest_free (fds s) of None \<Rightarrow> None
     | Some r \<Rightarrow> (let f = (fds s)(r \<mapsto> ''pipe, read end'') in
         case lowest_free f of None \<Rightarrow> None
         | Some w \<Rightarrow> Some (r, w, s\<lparr>fds := f(w \<mapsto> ''pipe, write end'')\<rparr>)))"

section \<open>Built-in commands\<close>

definition print_red_error :: "command \<Rightarrow> string \<Rightarrow> shell \<Rightarrow> shell res" where
  "print_red_error c m s = (case args c of [] \<Rightarrow> Inl Ub
     | a # _ \<Rightarrow> Inr (s\<lparr>err := err s @ [''smash error: '' @ a @ '': '' @ m]\<rparr>))"

definition DEFAULT_PROMPT :: string where "DEFAULT_PROMPT = ''smash''"

definition execute_chprompt :: "command \<Rightarrow> shell \<Rightarrow> shell" where
  "execute_chprompt c s = s\<lparr>display_prompt := (if length (args c) < 2 then DEFAULT_PROMPT else args c ! 1)\<rparr>"

definition sgetcwd :: "shell \<Rightarrow> string option \<times> shell" where
  "sgetcwd s = (if cwd_ok s then (Some (cwd s), s) else (None, print_syscall_fail ''getcwd'' s))"

definition execute_cd :: "command \<Rightarrow> shell \<Rightarrow> shell res" where
  "execute_cd c s =
     (if length (args c) = 1 then Inr s
      else if length (args c) > 2 then print_red_error c ''too many arguments'' s
      else if args c = [] then Inl Ub
      else if args c ! 1 = ''-'' \<and> last_pwd s = [] then print_red_error c ''OLDPWD not set'' s
      else (let new_dir = (if args c ! 1 = ''-'' then last_pwd s else args c ! 1) in
        case sgetcwd s of
          (None, s1) \<Rightarrow> Inr s1
        | (Some dir, s1) \<Rightarrow> (case chdir_to s1 (cwd s1) new_dir of
              Some d \<Rightarrow> Inr (s1\<lparr>last_pwd := dir, cwd := d\<rparr>)
            | None \<Rightarrow> Inr (print_syscall_fail ''chdir'' s1))))"

definition execute_pwd :: "shell \<Rightarrow> shell" where
  "execute_pwd s = (case sgetcwd s of (dir, s1) \<Rightarrow> print_msg (case dir of None \<Rightarrow> [] | Some d \<Rightarrow> d) s1)"

definition execute_showpid :: "shell \<Rightarrow> shell" where
  "execute_showpid s = print_msg (''smash pid is '' @ dec (shell_pid s)) s"

definition ARG_KILL :: string where "ARG_KILL = ''kill''"

definition execute_quit :: "command \<Rightarrow> shell \<Rightarrow> shell" where
  "execute_quit c s0 = (let s = s0\<lparr>quit := True\<rparr> in
     if length (args c) > 1 \<and> args c ! 1 = ARG_KILL then killAllJobs s else s)"

definition execute_jobs :: "shell \<Rightarrow> shell" where
  "execute_jobs s = printJobsList s"

definition no_job :: "int \<Rightarrow> string" where
  "no_job k = ''job-id '' @ dec k @ '' does not exist''"

text \<open>The last part of \<open>fg\<close>: the job is printed, continued and waited for.\<close>

definition bring_foreground :: "int \<Rightarrow> shell \<Rightarrow> shell res" where
  "bring_foreground k s = rbind (job_at k s) (\<lambda>j.
     case kill_proc (pid j) SIGCONT (print_msg (original_cmd (cmd j) @ '' : '' @ dec (pid j)) s) of (e, s1) \<Rightarrow>
       if e = 0 then swaitpid_untraced (pid j)
           (s1\<lparr>jobs := set_state k (\<lambda>j. j\<lparr>state := Foreground\<rparr>) (jobs s1), foreground := Some k\<rparr>)
       else Inr (print_syscall_fail ''kill'' s1))"

definition execute_fg :: "command \<Rightarrow> shell \<Rightarrow> shell res" where
  "execute_fg c s =
     (case (if length (args c) = 2 then strToInt (args c ! 1) else None) of
        Some job_id \<Rightarrow> (case getJobById job_id s of
            (None, s1) \<Rightarrow> print_red_error c (no_job job_id) s1
          | (Some k, s1) \<Rightarrow> bring_foreground k s1)
      | None \<Rightarrow>
          if length (args c) = 1 then (case getLastJob s of
              (None, s1) \<Rightarrow> print_red_error c ''jobs list is empty'' s1
            | (Some k, s1) \<Rightarrow> bring_foreground k s1)
          else print_red_error c ''invalid arguments'' s)"

definition resume_background :: "int \<Rightarrow> shell \<Rightarrow> shell res" where
  "resume_background k s = rbind (job_at k s) (\<lambda>j.
     case kill_proc (pid j) SIGCONT (print_msg (original_cmd (cmd j) @ '' : '' @ dec (pid j)) s) of (e, s1) \<Rightarrow>
       if e = 0 then Inr (s1\<lparr>jobs := set_state k (\<lambda>j. j\<lparr>entry_time := clock s1, state := Background\<rparr>) (jobs s1)\<rparr>)
       else Inr (print_syscall_fail ''kill'' s1))"

definition execute_bg :: "command \<Rightarrow> shell \<Rightarrow> shell res" where
  "execute_bg c s =
     (case (if length (args c) = 2 then strToInt (args c ! 1) else None) of
        Some job_id \<Rightarrow> (case getJobById job_id s of
            (None, s1) \<Rightarrow> print_red_error c (no_job job_id) s1
          | (Some k, s1) \<Rightarrow> rbind (job_at k s1) (\<lambda>j.
              if state j = Background
              then print_red_error c (''job-id '' @ dec job_id @ '' is already running in the background'') s1
              else resume_background k s1))
      | None \<Rightarrow>
          if length (args c) = 1 then (case getLastStoppedJob s of
              (None, s1) \<Rightarrow> print_red_error c ''there is no stopped jobs to resume'' s1
            | (Some k, s1) \<Rightarrow> resume_background k s1)
          else print_red_error c ''invalid arguments'' s)"

text \<open>The two numbers of \<open>kill -<signal> <job>\<close>; the tests are made from left to right.\<close>

definition kill_args :: "string list \<Rightarrow> (int \<times> int) option" where
  "kill_args a =
     (if length a = 3 \<and> a ! 1 \<noteq> [] \<and> hd (a ! 1) = CHR ''-'' then
        (case strToInt (tl (a ! 1)) of None \<Rightarrow> None
         | Some signal \<Rightarrow> map_option (\<lambda>job_id. (signal, job_id)) (strToInt (a ! 2)))
      else None)"

definition execute_kill :: "command \<Rightarrow> shell \<Rightarrow> shell res" where
  "execute_kill c s = (case kill_args (args c) of
     Some (signal, job_id) \<Rightarrow> (case getJobById job_id s of
         (None, s1) \<Rightarrow> print_red_error c (no_job job_id) s1
       | (Some k, s1) \<Rightarrow> rbind (job_at k s1) (\<lambda>j.
           case skill (pid j) signal s1 of (e, s2) \<Rightarrow>
             if e = 0 then Inr (print_msg (''signal number '' @ dec signal @ '' was sent to pid '' @ dec (pid j)) s2)
             else Inr s2))
   | None \<Rightarrow> print_red_error c ''invalid arguments'' s)"

section \<open>External commands\<close>

text \<open>Storing into an array of \<open>n\<close> pointers.\<close>

definition store :: "nat \<Rightarrow> nat \<Rightarrow> 'a \<Rightarrow> (nat \<Rightarrow> 'a) \<Rightarrow> (nat \<Rightarrow> 'a) res" where
  "store n i v a = (if i < n then Inr (a(i := v)) else Inl Ub)"

fun store_all :: "nat \<Rightarrow> nat \<Rightarrow> string list \<Rightarrow> (nat \<Rightarrow> string option) \<Rightarrow> (nat \<Rightarrow> string option) res" where
  "store_all n i [] a = Inr a"
| "store_all n i (x # xs) a = rbind (store n i (Some x) a) (store_all n (i + 1) xs)"

text \<open>The program and its arguments, as the child prepares them: a null pointer is \<open>None\<close>.\<close>

definition external_argv :: "command \<Rightarrow> (string \<times> (nat \<Rightarrow> string option)) res" where
  "external_argv c =
     (if kind c = ExternalCommand True then
        Inr (''/bin/bash'', [0 \<mapsto> ''/bin/bash'', 1 \<mapsto> ''-c'', 2 \<mapsto> concat (map (\<lambda>a. a @ '' '') (args c))])
      else rbind (store_all (length (args c)) 0 (args c) Map.empty) (\<lambda>a.
           rbind (store (length (args c)) (length (args c)) None a) (\<lambda>a.
             Inr (args c ! 0, a))))"

definition execute_external :: "command \<Rightarrow> shell \<Rightarrow> shell res" where
  "execute_external c s = rbind (sfork c s) (\<lambda>(p, s1). Inr s1)"

section \<open>Pipes and redirections\<close>

text \<open>\<open>substr\<close> throws when it starts past the end.\<close>

definition substr :: "string \<Rightarrow> nat \<Rightarrow> nat \<Rightarrow> string res" where
  "substr s pos n = (if pos \<le> length s then Inr (take n (drop pos s)) else Inl Ub)"

definition right_part :: "string \<Rightarrow> nat \<Rightarrow> bool \<Rightarrow> string res" where
  "right_part s sep two = substr s (sep + (if two then 2 else 1)) (length s - sep - 1)"

text \<open>The descriptors of the child that runs the first command of a pipe.\<close>

definition pipe_child :: "bool \<Rightarrow> nat \<Rightarrow> nat \<Rightarrow> shell \<Rightarrow> shell" where
  "pipe_child ampersand r w s =
     sclose (int w) ((sdup2 (int w) (if ampersand then 2 else 1) s)
       \<lparr>fds := (fds (sdup2 (int w) (if ampersand then 2 else 1) s))(r := None)\<rparr>)"

lemma CreateCommand_original: "CreateCommand s = Inr (Some c) \<Longrightarrow> original_cmd c = s"
  by (auto simp: CreateCommand_def new_Pipe_def new_Redirection_def BuiltInCommand_def new_External_def Let_def
    res_simps dest: Command_Inr [THEN conjunct1] split: option.splits if_splits prod.splits)

lemma right_part_shorter: "right_part s sep two = Inr t \<Longrightarrow> length t < length s"
  by (auto simp: right_part_def substr_def split: if_splits)

text \<open>A built-in command or an external one.\<close>

definition execute_simple :: "command \<Rightarrow> shell \<Rightarrow> shell res" where
  "execute_simple c s = (case kind c of
     ChangePrompt \<Rightarrow> Inr (execute_chprompt c s)
   | GetCurrDirCommand \<Rightarrow> Inr (execute_pwd s)
   | ShowPidCommand \<Rightarrow> Inr (execute_showpid s)
   | ChangeDirCommand \<Rightarrow> execute_cd c s
   | ForegroundCommand \<Rightarrow> execute_fg c s
   | BackgroundCommand \<Rightarrow> execute_bg c s
   | JobsCommand \<Rightarrow> Inr (execute_jobs s)
   | KillCommand \<Rightarrow> execute_kill c s
   | QuitCommand \<Rightarrow> Inr (execute_quit c s)
   | ExternalCommand _ \<Rightarrow> execute_external c s
   | PipeCommand _ _ \<Rightarrow> Inl Ub
   | RedirectionCommand _ _ \<Rightarrow> Inl Ub)"

function execute :: "command \<Rightarrow> shell \<Rightarrow> shell res" where
  "execute c s = (case kind c of
     PipeCommand sep ampersand \<Rightarrow>
       (case open_pipe s of
          None \<Rightarrow> Inr (print_syscall_fail ''pipe'' s)
        | Some (r, w, s) \<Rightarrow>
            rbind (CreateCommand (take sep (original_cmd c))) (\<lambda>cmd1.
            rbind (right_part (original_cmd c) sep ampersand) (\<lambda>right.
            rbind (CreateCommand right) (\<lambda>cmd2.
              case (cmd1, cmd2) of
                (Some c1, Some c2) \<Rightarrow>
                  rbind (sfork (c1\<lparr>background := False\<rparr>) s) (\<lambda>(pid2, s).
                  case sdup 0 s of (stdin_copy, s) \<Rightarrow>
                  rbind (execute (c2\<lparr>background := False\<rparr>)
                      (sclose (int w) (sclose (int r) (sdup2 (int r) 0 s)))) (\<lambda>s.
                  Inr (sclose stdin_copy (sdup2 stdin_copy 0 s))))
              | _ \<Rightarrow> Inl Segv))))
   | RedirectionCommand sep app \<Rightarrow>
       rbind (CreateCommand (take sep (original_cmd c))) (\<lambda>cmd.
         case cmd of None \<Rightarrow> Inl Segv
         | Some c1 \<Rightarrow>
             if length (original_cmd c) \<le> sep then Inl Ub
             else rbind (right_part (original_cmd c) sep app) (\<lambda>right.
             case sopen (trim right) app s of (file, s) \<Rightarrow>
               if file = -1 then Inr s
               else (case sdup 1 s of (stdout_copy, s) \<Rightarrow>
                 rbind (execute (c1\<lparr>background := False\<rparr>) (sdup2 file 1 s)) (\<lambda>s.
                 Inr (sclose stdout_copy (sdup2 stdout_copy 1 (sclose file s)))))))
   | _ \<Rightarrow> execute_simple c s)"
  by pat_completeness auto

termination
  by (relation "measure (\<lambda>(c, s). length (original_cmd c))")
    (auto dest!: CreateCommand_original right_part_shorter)

declare execute.simps [simp del]

definition executeCommand :: "string \<Rightarrow> shell \<Rightarrow> shell res" where
  "executeCommand cmd_line s = rbind (CreateCommand cmd_line) (\<lambda>c.
     case c of None \<Rightarrow> Inr s | Some c \<Rightarrow> execute c s)"

text \<open>The shell when it starts, over a kernel state \<open>k\<close>.\<close>

definition SmallShell :: "shell \<Rightarrow> shell" where
  "SmallShell k = k\<lparr>quit := False, display_prompt := DEFAULT_PROMPT, last_pwd := [], jobs := [], foreground := None\<rparr>"

text \<open>The main loop. At the end of the input \<open>getline\<close> leaves an empty line.\<close>

fun smash_loop :: "nat \<Rightarrow> string list \<Rightarrow> shell \<Rightarrow> shell res" where
  "smash_loop n lines s =
     (if quit s then Inr s
      else if n = 0 then Inl Fuel
      else rbind (executeCommand (c_str (case lines of [] \<Rightarrow> [] | l # _ \<Rightarrow> l))
             (print_msg (display_prompt s @ ''> '') s))
           (smash_loop (n - 1) (case lines of [] \<Rightarrow> [] | _ # ls \<Rightarrow> ls)))"

declare smash_loop.simps [simp del]

end
