(* ===== verification/Shell_Keeps.thy ===== *)
theory Shell_Keeps
  imports Shell
begin

text \<open>
  What every command of the shell keeps: the operations that leave the descriptors and the results of
  \<open>fork\<close> alone, the invariant of the jobs list and the processes, pipes and redirections taken apart
  into their steps, and the descriptors while they run.
\<close>

section \<open>What the operations leave alone\<close>

text \<open>No operation but \<open>sfork\<close> makes a process, and only pipes and redirections touch the descriptors.\<close>

definition keeps :: "shell \<Rightarrow> shell \<Rightarrow> bool" where
  "keeps s s1 \<longleftrightarrow> forks s1 = forks s \<and> fds s1 = fds s \<and> (\<forall>p. procs s p = None \<longrightarrow> procs s1 p = None)"

lemma keeps_refl [intro, simp]: "keeps s s"
  by (simp add: keeps_def)

lemma keeps_trans: "keeps s s1 \<Longrightarrow> keeps s1 s2 \<Longrightarrow> keeps s s2"
  by (auto simp: keeps_def)

lemma keeps_print [simp]:
  "keeps s (print_msg m s1) = keeps s s1" "keeps s (print_smash m s1) = keeps s s1"
  "keeps s (print_syscall_fail n s1) = keeps s s1" "keeps s (s1\<lparr>jobs := m1\<rparr>) = keeps s s1"
  "keeps s (s1\<lparr>foreground := f\<rparr>) = keeps s s1" "keeps s (s1\<lparr>events := es\<rparr>) = keeps s s1"
  "keeps s (s1\<lparr>quit := q\<rparr>) = keeps s s1" "keeps s (s1\<lparr>display_prompt := d\<rparr>) = keeps s s1"
  "keeps s (s1\<lparr>err := e\<rparr>) = keeps s s1" "keeps s (s1\<lparr>cwd := d\<rparr>) = keeps s s1"
  "keeps s (s1\<lparr>last_pwd := d\<rparr>) = keeps s s1" "keeps s (removeJobById k s1) = keeps s s1"
  "keeps s (printJob i j s1) = keeps s s1"
  by (simp_all add: keeps_def print_msg_def print_smash_def print_syscall_fail_def removeJobById_def printJob_def)

lemma keeps_printed [simp]:
  "keeps (print_msg m s) s1 = keeps s s1" "keeps (print_smash m s) s1 = keeps s s1"
  "keeps (print_syscall_fail n s) s1 = keeps s s1" "keeps (s\<lparr>jobs := m1\<rparr>) s1 = keeps s s1"
  "keeps (s\<lparr>foreground := f\<rparr>) s1 = keeps s s1" "keeps (s\<lparr>quit := q\<rparr>) s1 = keeps s s1"
  "keeps (removeJobById k s) s1 = keeps s s1"
  by (simp_all add: keeps_def print_msg_def print_smash_def print_syscall_fail_def removeJobById_def)

lemma keeps_procs [simp]:
  "procs s p \<noteq> None \<Longrightarrow> keeps s (s\<lparr>procs := (procs s)(p := v)\<rparr>)" "keeps s (s\<lparr>procs := (procs s)(p := None)\<rparr>)"
  by (auto simp: keeps_def)

lemma keeps_kill: "kill_proc p sig s = (e, s1) \<Longrightarrow> keeps s s1"
  by (auto simp: kill_proc_def split: option.splits)

lemma keeps_skill: "skill p sig s = (e, s1) \<Longrightarrow> keeps s s1"
  by (auto simp: skill_def split: prod.splits if_splits dest: keeps_kill)

lemma keeps_deliver: "deliver e s = Inr s1 \<Longrightarrow> keeps s s1"
proof -
  have sk: "keeps s (snd (skill p sig (print_smash m s)))" for p sig m
    using keeps_skill [of p sig "print_smash m s"] by (metis keeps_printed(2) prod.collapse)
  assume "deliver e s = Inr s1"
  then show ?thesis
    by (cases e) (auto simp: deliver_def ctrlCHandler_def ctrlZHandler_def alarmHandler_def Let_def res_simps
      case_prod_beta sk split: option.splits if_splits)
qed

lemma keeps_wait: "wait_untraced p evs s = Inr (b, s1) \<Longrightarrow> keeps s s1"
proof (induction evs arbitrary: s)
  case (Cons e es)
  then show ?case
    by (auto simp: res_simps split: option.splits pstate.splits intro: keeps_trans [OF keeps_deliver])
qed (auto split: option.splits pstate.splits)

lemma keeps_swaitpid: "swaitpid_untraced p s = Inr s1 \<Longrightarrow> keeps s s1"
proof -
  assume a: "swaitpid_untraced p s = Inr s1"
  then obtain b s2 where w: "wait_untraced p (events s) s = Inr (b, s2)"
    by (auto simp: swaitpid_untraced_def res_simps)
  from keeps_wait [OF w] a show ?thesis
    by (auto simp: swaitpid_untraced_def w res_simps split: option.splits bool.splits)
qed

lemma keeps_nohang: "keeps s (snd (swaitpid_nohang p s))"
  by (auto simp: swaitpid_nohang_def split: option.splits pstate.splits)

lemma keeps_reap: "keeps s (reap m s)"
proof (induction m arbitrary: s)
  case (Cons x m)
  obtain k j where x: "x = (k, j)" by fastforce
  have "keeps s (snd (swaitpid_nohang (pid j) s))" by (rule keeps_nohang)
  from keeps_trans [OF this] Cons.IH show ?case
    by (simp add: x case_prod_beta) (metis keeps_printed(7))
qed simp

lemma keeps_removeFinished: "keeps s (snd (removeFinishedJobs s))"
  by (simp add: removeFinishedJobs_def Let_def keeps_reap)

lemma keeps_lookup:
  "keeps s (snd (getJobById k s))" "keeps s (snd (getLastJob s))" "keeps s (snd (getLastStoppedJob s))"
  by (simp_all add: getJobById_def getLastJob_def getLastStoppedJob_def Let_def keeps_removeFinished)

lemma keeps_addJob: "keeps s (addJob c p b s)"
  using keeps_removeFinished by (simp add: addJob_def Let_def)

lemma keeps_kill_loop: "keeps s (kill_loop m s)"
proof (induction m arbitrary: s)
  case (Cons x m)
  obtain k j where x: "x = (k, j)" by fastforce
  let ?m = "dec (pid j) @ '': '' @ original_cmd (cmd j)"
  have "keeps s (snd (skill (pid j) SIGKILL (print_msg ?m s)))"
    using keeps_skill [of "pid j" SIGKILL "print_msg ?m s"] by (metis keeps_printed(1) prod.collapse)
  from keeps_trans [OF this] Cons.IH show ?case
    by (simp add: x case_prod_beta Let_def) (metis keeps_printed(7))
qed simp

lemma keeps_killAllJobs: "keeps s (killAllJobs s)"
  using keeps_trans [OF keeps_removeFinished [of s]] keeps_kill_loop
  by (simp add: killAllJobs_def case_prod_beta) (metis keeps_printed(2))

lemma keeps_printJobsList: "keeps s (printJobsList s)"
proof -
  obtain o' where "printJobsList s = (snd (removeFinishedJobs s))\<lparr>out := o'\<rparr>" using printJobsList_only_prints by blast
  then show ?thesis using keeps_removeFinished [of s] by (simp add: keeps_def)
qed

section \<open>The invariant of the shell\<close>

text \<open>The jobs list is well formed, and the processes that \<open>fork\<close> will return are new; -1 is a failure.\<close>

definition shell_ok :: "shell \<Rightarrow> bool" where
  "shell_ok s \<longleftrightarrow> jobs_ok s \<and> distinct (filter (\<lambda>p. p \<noteq> -1) (forks s)) \<and>
     (\<forall>p\<in>set (forks s). p \<noteq> -1 \<longrightarrow> 0 < p \<and> procs s p = None)"

text \<open>
  A command that is run by itself may go on for ever only when it waits for a child, and is undefined only
  without arguments, or when a child cannot be made for it.
\<close>

definition waits :: "command \<Rightarrow> bool" where
  "waits c \<longleftrightarrow> (case kind c of ForegroundCommand \<Rightarrow> True | ExternalCommand _ \<Rightarrow> True | _ \<Rightarrow> False)"

definition forks_child :: "command \<Rightarrow> bool" where
  "forks_child c \<longleftrightarrow> (case kind c of ExternalCommand _ \<Rightarrow> True | _ \<Rightarrow> False)"

definition good :: "command \<Rightarrow> shell res \<Rightarrow> bool" where
  "good c r \<longleftrightarrow> (case r of Inr s \<Rightarrow> shell_ok s
     | Inl e \<Rightarrow> e = Fuel \<and> waits c \<or> e = Ub \<and> (args c = [] \<or> forks_child c))"

lemma good_simps [simp]:
  "good c (Inr s) = shell_ok s"
  "good c (Inl e) = (e = Fuel \<and> waits c \<or> e = Ub \<and> (args c = [] \<or> forks_child c))"
  by (simp_all add: good_def)

lemma shell_okD: "shell_ok s \<Longrightarrow> jobs_ok s"
  by (simp add: shell_ok_def)

lemma keeps_shell_ok: "shell_ok s \<Longrightarrow> keeps s s1 \<Longrightarrow> jobs_ok s1 \<Longrightarrow> shell_ok s1"
  by (simp add: shell_ok_def keeps_def)

lemma jobs_ok_other [simp]:
  "jobs_ok (print_msg m s) = jobs_ok s" "jobs_ok (print_smash m s) = jobs_ok s"
  "jobs_ok (print_syscall_fail n s) = jobs_ok s" "jobs_ok (s\<lparr>fds := f\<rparr>) = jobs_ok s"
  "jobs_ok (s\<lparr>opened := fl\<rparr>) = jobs_ok s" "jobs_ok (s\<lparr>quit := q\<rparr>) = jobs_ok s"
  "jobs_ok (s\<lparr>display_prompt := d\<rparr>) = jobs_ok s" "jobs_ok (s\<lparr>cwd := d\<rparr>) = jobs_ok s"
  "jobs_ok (s\<lparr>last_pwd := d\<rparr>) = jobs_ok s"
  by (simp_all add: jobs_ok_def print_msg_def print_smash_def print_syscall_fail_def)

lemma shell_ok_other [simp]:
  "shell_ok (print_msg m s) = shell_ok s" "shell_ok (print_smash m s) = shell_ok s"
  "shell_ok (print_syscall_fail n s) = shell_ok s" "shell_ok (s\<lparr>fds := f\<rparr>) = shell_ok s"
  "shell_ok (s\<lparr>opened := fl\<rparr>) = shell_ok s" "shell_ok (s\<lparr>quit := q\<rparr>) = shell_ok s"
  "shell_ok (s\<lparr>display_prompt := d\<rparr>) = shell_ok s" "shell_ok (s\<lparr>cwd := d\<rparr>) = shell_ok s"
  "shell_ok (s\<lparr>last_pwd := d\<rparr>) = shell_ok s" "shell_ok (s\<lparr>err := e\<rparr>) = shell_ok s"
  by (simp_all add: shell_ok_def print_msg_def print_smash_def print_syscall_fail_def)

lemma good_red_error: "shell_ok s \<Longrightarrow> good c (print_red_error c m s)"
  by (auto simp: print_red_error_def split: list.split)

text \<open>The jobs that are looked up are in the list.\<close>

lemma lookup_ok:
  assumes "shell_ok s"
  shows "shell_ok (snd (getJobById k s))" "shell_ok (snd (getLastJob s))" "shell_ok (snd (getLastStoppedJob s))"
    "getJobById k s = (Some k1, s1) \<Longrightarrow> k1 \<in> set (ids (jobs s1))"
    "getLastJob s = (Some k1, s1) \<Longrightarrow> k1 \<in> set (ids (jobs s1))"
    "getLastStoppedJob s = (Some k1, s1) \<Longrightarrow> k1 \<in> set (ids (jobs s1))"
proof -
  note ok = shell_okD [OF assms]
  show "shell_ok (snd (getJobById k s))" "shell_ok (snd (getLastJob s))" "shell_ok (snd (getLastStoppedJob s))"
    using keeps_shell_ok [OF assms] keeps_lookup getJobById_ok [OF ok] getLastJob_ok [OF ok] getLastStoppedJob_ok [OF ok]
    by blast+
  show "k1 \<in> set (ids (jobs s1))" if "getJobById k s = (Some k1, s1)"
    using that by (auto simp: getJobById_def Let_def ids_def map_of_eq_None_iff split: if_splits)
  show "k1 \<in> set (ids (jobs s1))" if "getLastJob s = (Some k1, s1)"
    using that by (auto simp: getLastJob_def Let_def ids_def split: if_splits)
  show "k1 \<in> set (ids (jobs s1))" if g: "getLastStoppedJob s = (Some k1, s1)"
  proof -
    obtain j m where "filter (\<lambda>(k, j). state j = Stopped) (rev (jobs s1)) = (k1, j) # m"
      using g by (auto simp: getLastStoppedJob_def Let_def split: list.splits)
    then have "(k1, j) \<in> set (rev (jobs s1))" by (metis filter_eq_ConsD in_set_conv_decomp)
    then show ?thesis by (force simp: ids_def)
  qed
qed

lemma job_at_ids: "k \<in> set (ids (jobs s)) \<Longrightarrow> \<exists>j. job_at k s = Inr j \<and> map_of (jobs s) k = Some j"
  by (cases "map_of (jobs s) k") (auto simp: job_at_def ids_def map_of_eq_None_iff)

lemma job_alive: "jobs_ok s \<Longrightarrow> map_of (jobs s) k = Some j \<Longrightarrow> pid j \<in> alive s"
  using pid_at_mem [of s k "pid j"] by (auto simp: pid_at_def jobs_ok_def alive_def)

text \<open>Continuing a job of the list: its process is there, so \<open>kill\<close> succeeds.\<close>

lemma continue_ok:
  assumes "shell_ok s" "map_of (jobs s) k = Some j"
  obtains st where "procs s (pid j) = Some st"
    "kill_proc (pid j) SIGCONT s = (0, s\<lparr>procs := (procs s)(pid j \<mapsto> (if st = Zombie then Zombie else Running))\<rparr>)"
  using job_alive [OF shell_okD [OF assms(1)] assms(2)] that
  by (auto simp: alive_def kill_proc_def signal_effects)

lemma jobs_ok_update:
  "jobs_ok s \<Longrightarrow> (\<And>j. pid (f j) = pid j) \<Longrightarrow> procs s p \<noteq> None \<Longrightarrow> fg = foreground s \<or> fg = Some k \<and> k \<in> set (ids (jobs s)) \<Longrightarrow>
   jobs_ok (s\<lparr>procs := (procs s)(p \<mapsto> v), jobs := set_state k f (jobs s), foreground := fg\<rparr>)"
  by (auto simp: jobs_ok_def pids_set_state)

lemma lookup_pair:
  assumes "shell_ok s"
  shows "getJobById k s = (r, s1) \<Longrightarrow> shell_ok s1 \<and> (\<forall>k1. r = Some k1 \<longrightarrow> k1 \<in> set (ids (jobs s1)))"
    "getLastJob s = (r, s1) \<Longrightarrow> shell_ok s1 \<and> (\<forall>k1. r = Some k1 \<longrightarrow> k1 \<in> set (ids (jobs s1)))"
    "getLastStoppedJob s = (r, s1) \<Longrightarrow> shell_ok s1 \<and> (\<forall>k1. r = Some k1 \<longrightarrow> k1 \<in> set (ids (jobs s1)))"
  using lookup_ok [OF assms] by (metis snd_conv)+

lemma printed_fields [simp]:
  "jobs (print_msg m s) = jobs s" "procs (print_msg m s) = procs s" "foreground (print_msg m s) = foreground s"
  "quit (print_msg m s) = quit s" "fds (print_msg m s) = fds s" "events (print_msg m s) = events s"
  "jobs (print_smash m s) = jobs s" "procs (print_smash m s) = procs s" "foreground (print_smash m s) = foreground s"
  "quit (print_smash m s) = quit s" "fds (print_smash m s) = fds s" "events (print_smash m s) = events s"
  "fds (print_syscall_fail n s) = fds s" "jobs (print_syscall_fail n s) = jobs s"
  by (simp_all add: print_msg_def print_smash_def print_syscall_fail_def)

lemma bring_foreground_ok:
  assumes "shell_ok s" "k \<in> set (ids (jobs s))" "waits c"
  shows "good c (bring_foreground k s)"
proof -
  obtain j where j: "job_at k s = Inr j" "map_of (jobs s) k = Some j" using job_at_ids [OF assms(2)] by blast
  let ?m = "original_cmd (cmd j) @ '' : '' @ dec (pid j)"
  let ?s = "print_msg ?m s"
  have s: "shell_ok ?s" "map_of (jobs ?s) k = Some j" using assms(1) j(2) by simp_all
  obtain v where v: "procs ?s (pid j) \<noteq> None" "kill_proc (pid j) SIGCONT ?s = (0, ?s\<lparr>procs := (procs ?s)(pid j \<mapsto> v)\<rparr>)"
    using continue_ok [OF s] by blast
  let ?t = "?s\<lparr>procs := (procs ?s)(pid j \<mapsto> v), jobs := set_state k (\<lambda>j. j\<lparr>state := Foreground\<rparr>) (jobs ?s),
      foreground := Some k\<rparr>"
  have k: "k \<in> set (ids (jobs ?s))" using assms(2) by simp
  have t: "jobs_ok ?t" using jobs_ok_update [OF shell_okD [OF s(1)] _ v(1)] k by simp
  have run: "bring_foreground k s = swaitpid_untraced (pid j) ?t"
    using j(1) v(2) by (simp add: bring_foreground_def)
  have "pid_at ?t k = Some (pid j)" using s(2) by (simp add: pid_at_def map_of_set_state)
  from swaitpid_untraced_ok [OF t _ this] have
    "swaitpid_untraced (pid j) ?t = Inl Fuel \<or> (\<exists>s2. swaitpid_untraced (pid j) ?t = Inr s2 \<and> jobs_ok s2)" by auto
  then show ?thesis
  proof (elim disjE exE conjE)
    fix s2 assume s2: "swaitpid_untraced (pid j) ?t = Inr s2" "jobs_ok s2"
    have "keeps ?s ?t" using v(1) by (simp add: keeps_def)
    then have "shell_ok s2"
      using keeps_shell_ok [OF s(1) keeps_trans [OF _ keeps_swaitpid [OF s2(1)]] s2(2)] by blast
    then show ?thesis using run s2(1) by simp
  qed (use run assms(3) in simp)
qed

lemma resume_background_ok:
  assumes "shell_ok s" "k \<in> set (ids (jobs s))"
  shows "good c (resume_background k s)"
proof -
  obtain j where j: "job_at k s = Inr j" "map_of (jobs s) k = Some j" using job_at_ids [OF assms(2)] by blast
  let ?s = "print_msg (original_cmd (cmd j) @ '' : '' @ dec (pid j)) s"
  have s: "shell_ok ?s" "map_of (jobs ?s) k = Some j" using assms(1) j(2) by simp_all
  obtain v where v: "procs ?s (pid j) \<noteq> None" "kill_proc (pid j) SIGCONT ?s = (0, ?s\<lparr>procs := (procs ?s)(pid j \<mapsto> v)\<rparr>)"
    using continue_ok [OF s] by blast
  let ?f = "\<lambda>j. j\<lparr>entry_time := clock ?s, state := Background\<rparr>"
  let ?t = "?s\<lparr>procs := (procs ?s)(pid j \<mapsto> v), jobs := set_state k ?f (jobs ?s)\<rparr>"
  have "jobs_ok (?t\<lparr>foreground := foreground ?s\<rparr>)" using jobs_ok_update [OF shell_okD [OF s(1)] _ v(1)] by simp
  then have t: "jobs_ok ?t" by (simp add: jobs_ok_def)
  have "keeps ?s ?t" using v(1) by (simp add: keeps_def)
  then have "shell_ok ?t" using keeps_shell_ok [OF s(1) _ t] by blast
  then show ?thesis using j(1) v(2) by (simp add: resume_background_def)
qed

lemma execute_fg_ok: "shell_ok s \<Longrightarrow> waits c \<Longrightarrow> good c (execute_fg c s)"
  by (auto simp: execute_fg_def good_red_error bring_foreground_ok split: option.splits prod.splits
    dest: lookup_pair)

lemma execute_bg_ok: "shell_ok s \<Longrightarrow> good c (execute_bg c s)"
proof -
  assume s: "shell_ok s"
  have "good c (rbind (job_at k s1) (\<lambda>j. if state j = Background then print_red_error c m s1 else resume_background k s1))"
    if "shell_ok s1" "k \<in> set (ids (jobs s1))" for k s1 m
    using job_at_ids [OF that(2)] that by (auto simp: good_red_error resume_background_ok)
  then show ?thesis using s
    by (auto simp: execute_bg_def good_red_error resume_background_ok split: option.splits prod.splits
      dest: lookup_pair)
qed

lemma skill_jobs_ok: "jobs_ok s \<Longrightarrow> skill p sig s = (e, s1) \<Longrightarrow> jobs_ok s1"
  by (auto simp: skill_def kill_proc_def split: option.splits if_splits) (auto simp: jobs_ok_def)

lemma execute_kill_ok: "shell_ok s \<Longrightarrow> good c (execute_kill c s)"
proof -
  assume s: "shell_ok s"
  have "good c (rbind (job_at k s1) (\<lambda>j. case skill (pid j) sig s1 of (e, s2) \<Rightarrow>
      if e = 0 then Inr (print_msg (''signal number '' @ dec sig @ '' was sent to pid '' @ dec (pid j)) s2)
      else Inr s2))"
    if s1: "shell_ok s1" "k \<in> set (ids (jobs s1))" for k s1 sig
  proof -
    obtain j where j: "job_at k s1 = Inr j" using job_at_ids [OF s1(2)] by blast
    obtain e s2 where e: "skill (pid j) sig s1 = (e, s2)" by fastforce
    have "shell_ok s2" using keeps_shell_ok [OF s1(1) keeps_skill [OF e] skill_jobs_ok [OF shell_okD [OF s1(1)] e]] .
    then show ?thesis using j e by simp
  qed
  then show ?thesis using s
    by (auto simp: execute_kill_def good_red_error split: option.splits prod.splits dest: lookup_pair)
qed

lemma execute_cd_ok: "shell_ok s \<Longrightarrow> good c (execute_cd c s)"
  by (auto simp: execute_cd_def good_red_error sgetcwd_def Let_def split: option.splits prod.splits)

lemma execute_jobs_ok: "shell_ok s \<Longrightarrow> shell_ok (execute_jobs s)"
proof -
  assume s: "shell_ok s"
  obtain o' where "printJobsList s = (snd (removeFinishedJobs s))\<lparr>out := o'\<rparr>" using printJobsList_only_prints by blast
  then have "jobs_ok (printJobsList s)" using removeFinishedJobs_ok [OF shell_okD [OF s]] by simp
  then show ?thesis using keeps_shell_ok [OF s keeps_printJobsList] by (simp add: execute_jobs_def)
qed

text \<open>\<open>kill\<close> of the jobs when the shell ends.\<close>

lemma no_jobs_no_foreground: "jobs_ok s \<Longrightarrow> jobs s = [] \<Longrightarrow> foreground s = None"
  by (cases "foreground s") (auto simp: jobs_ok_def)

lemma killAllJobs_spec:
  assumes "jobs_ok s"
  shows "jobs (killAllJobs s) = []" "foreground (killAllJobs s) = None" "err (killAllJobs s) = err s"
    "procs (killAllJobs s) p = (if p \<in> set (pids (live_jobs s)) then Some Zombie
       else if p \<in> set (pids (jobs s)) \<and> procs s p = Some Zombie then None else procs s p)"
proof -
  obtain n s1 where r: "removeFinishedJobs s = (n, s1)" by fastforce
  let ?t = "print_smash (''sending SIGKILL signal to '' @ dec (int n) @ '' jobs:'') s1"
  note spec = removeFinishedJobs_spec(1) [OF assms, unfolded r snd_conv]
  have t: "jobs ?t = live_jobs s" "foreground ?t = None" "procs ?t = reaped (jobs s) s" "err ?t = err s"
    using spec no_jobs_no_foreground [OF assms]
    by (auto simp: live_jobs_def print_smash_def print_msg_def)
  have ok: "jobs_ok ?t" using removeFinishedJobs_ok [OF assms] r by simp
  have "killAllJobs s = kill_loop (jobs ?t) ?t" using r by (simp add: killAllJobs_def)
  then show "jobs (killAllJobs s) = []" "foreground (killAllJobs s) = None" "err (killAllJobs s) = err s"
    "procs (killAllJobs s) p = (if p \<in> set (pids (live_jobs s)) then Some Zombie
       else if p \<in> set (pids (jobs s)) \<and> procs s p = Some Zombie then None else procs s p)"
    using kill_loop_ok [OF refl ok t(2)] unfolding t(1,3,4) by (simp_all add: reaped_def)
qed

lemma execute_quit_ok: "shell_ok s \<Longrightarrow> shell_ok (execute_quit c s)"
proof -
  assume s: "shell_ok s"
  let ?s = "s\<lparr>quit := True\<rparr>"
  have "jobs_ok ?s" using shell_okD [OF s] by simp
  from killAllJobs_spec(1,2) [OF this] have "jobs_ok (killAllJobs ?s)" by (simp add: jobs_ok_def)
  then have "shell_ok (killAllJobs ?s)" using s keeps_shell_ok [OF _ keeps_killAllJobs [of ?s]] by simp
  then show ?thesis using s by (simp add: execute_quit_def Let_def)
qed

definition fork_fails :: "shell \<Rightarrow> bool" where
  "fork_fails s \<longleftrightarrow> (case forks s of p # _ \<Rightarrow> p = -1 | [] \<Rightarrow> False)"

text \<open>\<open>sfork\<close> makes a process, and uses one result of \<open>fork\<close>.\<close>

lemma sfork_shell_ok:
  assumes "shell_ok s"
  shows "sfork c s = Inl Fuel \<or> sfork c s = Inl Ub \<and> fork_fails s \<or> (\<exists>p s1. sfork c s = Inr (p, s1) \<and> shell_ok s1 \<and> fds s1 = fds s)"
proof (cases "forks s")
  case (Cons p ps)
  show ?thesis
  proof (cases "p = -1")
    case False
    let ?s = "s\<lparr>forks := ps, procs := (procs s)(p \<mapsto> Running)\<rparr>"
    have p: "0 < p" "procs s p = None" "p \<notin> set (filter (\<lambda>p. p \<noteq> -1) ps)"
      using assms Cons False by (auto simp: shell_ok_def)
    have k: "keeps ?s (addJob c p False ?s)" by (rule keeps_addJob)
    have s: "keeps ?s s1" if "sfork c s = Inr (q, s1)" for q s1
      using that Cons False k keeps_trans [OF k keeps_swaitpid]
      by (auto simp: sfork_def Let_def res_simps split: if_splits)
    have ok: "shell_ok s1" if "keeps ?s s1" "jobs_ok s1" for s1
    proof -
      have "procs s1 q = None" if "q \<in> set ps" "q \<noteq> -1" for q
      proof -
        have "procs ?s q = None" using that assms Cons p(3) by (auto simp: shell_ok_def)
        then show ?thesis using \<open>keeps ?s s1\<close> unfolding keeps_def by blast
      qed
      then show ?thesis using that assms Cons False by (simp add: shell_ok_def keeps_def)
    qed
    from sfork_ok [OF shell_okD [OF assms] Cons False _ p(2), of c] p(1) s ok show ?thesis
      by (auto simp: keeps_def)
  qed (simp add: sfork_def Cons fork_fails_def)
qed (simp add: sfork_def)

lemma execute_external_ok:
  assumes "shell_ok s"
  shows "waits c \<Longrightarrow> forks_child c \<Longrightarrow> good c (execute_external c s)"
    "\<not> fork_fails s \<Longrightarrow> execute_external c s = Inl Fuel \<or> (\<exists>s1. execute_external c s = Inr s1)"
  using sfork_shell_ok [OF assms, of c] by (auto simp: execute_external_def)

definition is_composite :: "kind \<Rightarrow> bool" where
  "is_composite k \<longleftrightarrow> (case k of PipeCommand _ _ \<Rightarrow> True | RedirectionCommand _ _ \<Rightarrow> True | _ \<Rightarrow> False)"

lemma execute_simple_ok: "shell_ok s \<Longrightarrow> \<not> is_composite (kind c) \<Longrightarrow> good c (execute_simple c s)"
  by (cases "kind c")
    (simp_all add: execute_simple_def execute_chprompt_def execute_pwd_def execute_showpid_def execute_cd_ok execute_fg_ok
      execute_bg_ok execute_kill_ok execute_jobs_ok execute_quit_ok execute_external_ok sgetcwd_def waits_def forks_child_def is_composite_def)

lemma shell_ok_descriptors [simp]:
  "shell_ok (sdup2 fd n s) = shell_ok s" "shell_ok (sclose fd s) = shell_ok s"
  "shell_ok (snd (sdup fd s)) = shell_ok s" "shell_ok (snd (sopen path app s)) = shell_ok s"
  by (simp_all add: sdup2_def sclose_def sdup_def sopen_def split: option.split)

lemma open_pipe_ok: "open_pipe s = Some (r, w, s1) \<Longrightarrow> shell_ok s1 = shell_ok s"
  by (auto simp: open_pipe_def Let_def split: option.splits)

section \<open>Pipes and redirections\<close>

lemma execute_simple_eq: "\<not> is_composite (kind c) \<Longrightarrow> execute c s = execute_simple c s"
  by (subst execute.simps) (simp add: is_composite_def split: kind.splits)

text \<open>A pipe that returns, taken apart into its steps.\<close>

lemma pipe_cases:
  assumes "kind c = PipeCommand sep amp" "execute c s = Inr s1"
  obtains (failed) "open_pipe s = None" "s1 = print_syscall_fail ''pipe'' s"
  | (ran) r w s2 c1 c2 p s3 fd s4 s5 where "open_pipe s = Some (r, w, s2)"
    "original_cmd c2 = original_cmd (c2\<lparr>background := False\<rparr>)"
    "length (original_cmd c2) < length (original_cmd c)"
    "sfork (c1\<lparr>background := False\<rparr>) s2 = Inr (p, s3)" "sdup 0 s3 = (fd, s4)"
    "execute (c2\<lparr>background := False\<rparr>) (sclose (int w) (sclose (int r) (sdup2 (int r) 0 s4))) = Inr s5"
    "s1 = sclose fd (sdup2 fd 0 s5)"
proof (cases "open_pipe s")
  case None
  then show thesis using assms failed by (simp add: execute.simps [of c s])
next
  case (Some x)
  obtain r w s2 where x: "x = (r, w, s2)" by (cases x) auto
  note run = assms(2) [unfolded execute.simps [of c s] assms(1) kind.case Some x option.case prod.case]
  obtain m1 right m2 where m: "CreateCommand (take sep (original_cmd c)) = Inr m1"
      "right_part (original_cmd c) sep amp = Inr right" "CreateCommand right = Inr m2"
    using run by (auto simp: res_simps)
  obtain c1 c2 where c: "m1 = Some c1" "m2 = Some c2"
    using run by (cases m1; cases m2) (auto simp: m)
  obtain p s3 where f: "sfork (c1\<lparr>background := False\<rparr>) s2 = Inr (p, s3)"
    using run by (auto simp: m c res_simps)
  obtain fd s4 where d: "sdup 0 s3 = (fd, s4)" by fastforce
  obtain s5 where e: "execute (c2\<lparr>background := False\<rparr>) (sclose (int w) (sclose (int r) (sdup2 (int r) 0 s4))) = Inr s5"
    using run by (auto simp: m c f d res_simps)
  have "length (original_cmd c2) < length (original_cmd c)"
    using CreateCommand_original [OF m(3) [unfolded c(2)]] right_part_shorter [OF m(2)] by simp
  then show thesis using run x Some by (intro ran [OF _ _ _ f d e]) (simp_all add: m c f d e)
qed

lemma redirection_cases:
  assumes "kind c = RedirectionCommand sep app" "execute c s = Inr s1"
  obtains (failed) path where "sopen path app s = (-1, s1)"
  | (ran) path fl s2 c1 fd s3 s4 where "sopen path app s = (fl, s2)" "fl \<noteq> -1"
    "length (original_cmd c1) < length (original_cmd c)" "sdup 1 s2 = (fd, s3)"
    "execute (c1\<lparr>background := False\<rparr>) (sdup2 fl 1 s3) = Inr s4"
    "s1 = sclose fd (sdup2 fd 1 (sclose fl s4))"
proof -
  note run = assms(2) [unfolded execute.simps [of c s] assms(1) kind.case]
  obtain m1 where m1: "CreateCommand (take sep (original_cmd c)) = Inr m1" using run by (auto simp: res_simps)
  obtain c1 where c1: "m1 = Some c1" using run by (cases m1) (auto simp: m1)
  have sep: "sep < length (original_cmd c)" using run by (auto simp: m1 c1 split: if_splits)
  obtain right where right: "right_part (original_cmd c) sep app = Inr right"
    using run sep by (auto simp: m1 c1 res_simps)
  obtain fl s2 where f: "sopen (trim right) app s = (fl, s2)" by fastforce
  show thesis
  proof (cases "fl = -1")
    case True
    then show thesis using run sep f by (intro failed [of "trim right"]) (simp add: m1 c1 right)
  next
    case False
    obtain fd s3 where d: "sdup 1 s2 = (fd, s3)" by fastforce
    obtain s4 where e: "execute (c1\<lparr>background := False\<rparr>) (sdup2 fl 1 s3) = Inr s4"
      using run sep False by (auto simp: m1 c1 right f d res_simps)
    have "length (original_cmd c1) < length (original_cmd c)"
      using CreateCommand_original [OF m1 [unfolded c1]] sep by simp
    then show thesis using run sep False by (intro ran [OF f False _ d e]) (simp_all add: m1 c1 right f d e del: One_nat_def)
  qed
qed

lemma execute_shell_ok: "shell_ok s \<Longrightarrow> execute c s = Inr s1 \<Longrightarrow> shell_ok s1"
proof (induction "length (original_cmd c)" arbitrary: c s s1 rule: less_induct)
  case less
  show ?case
  proof (cases "kind c")
    case (PipeCommand sep amp)
    from PipeCommand less.prems(2) show ?thesis
    proof (cases rule: pipe_cases)
      case (ran r w s2 c1 c2 p s3 fd s4 s5)
      have "shell_ok s3" using sfork_shell_ok [of s2 "c1\<lparr>background := False\<rparr>"] ran(4) open_pipe_ok [OF ran(1)] less.prems(1) by auto
      then have "shell_ok s4" using shell_ok_descriptors(3) [of 0 s3] ran(5) by simp
      then have "shell_ok s5" using less.hyps [of "c2\<lparr>background := False\<rparr>", OF _ _ ran(6)] ran(3) by simp
      then show ?thesis using ran(7) by simp
    qed (use less.prems in simp)
  next
    case (RedirectionCommand sep app)
    from RedirectionCommand less.prems(2) show ?thesis
    proof (cases rule: redirection_cases)
      case (failed path)
      then show ?thesis using shell_ok_descriptors(4) [of path app s] less.prems(1) by simp
    next
      case (ran path fl s2 c1 fd s3 s4)
      have "shell_ok s2" using shell_ok_descriptors(4) [of path app s] ran(1) less.prems(1) by simp
      then have "shell_ok s3" using shell_ok_descriptors(3) [of 1 s2] ran(4) by simp
      then have "shell_ok s4" using less.hyps [of "c1\<lparr>background := False\<rparr>", OF _ _ ran(5)] ran(3) by simp
      then show ?thesis using ran(6) by simp
    qed
  qed (use less.prems execute_simple_ok [of s c] in \<open>simp_all add: execute_simple_eq is_composite_def\<close>)
qed

section \<open>Descriptors\<close>

text \<open>The number of descriptors in use.\<close>

definition used :: "(nat \<Rightarrow> string option) \<Rightarrow> nat" where
  "used f = card {i. i < OPEN_MAX \<and> f i \<noteq> None}"

lemma finite_used: "finite {i. i < OPEN_MAX \<and> P i}"
  by simp

lemma used_upd: "used (f(n := v)) \<le> Suc (used f)" "f n \<noteq> None \<Longrightarrow> used (f(n := v)) \<le> used f"
proof -
  have "{i. i < OPEN_MAX \<and> (f(n := v)) i \<noteq> None} \<subseteq> insert n {i. i < OPEN_MAX \<and> f i \<noteq> None}" by auto
  then have "used (f(n := v)) \<le> card (insert n {i. i < OPEN_MAX \<and> f i \<noteq> None})"
    unfolding used_def by (intro card_mono) simp_all
  also have "\<dots> \<le> Suc (used f)" unfolding used_def by (simp only: card_insert_if finite_used split: if_split) simp
  finally show "used (f(n := v)) \<le> Suc (used f)" .
  show "used (f(n := v)) \<le> used f" if "f n \<noteq> None"
    unfolding used_def using that by (intro card_mono) (auto split: if_splits)
qed

lemma used_free: "f n = None \<Longrightarrow> used (f(n := None)) = used f"
  by (simp add: fun_upd_idem)

lemma lowest_free_Some:
  assumes "used f < OPEN_MAX"
  obtains n where "lowest_free f = Some n" "f n = None"
proof (cases "lowest_free f")
  case None
  then have "{i. i < OPEN_MAX \<and> f i \<noteq> None} = {..<OPEN_MAX}" by (auto simp: lowest_free_def find_None_iff)
  then show thesis using assms by (simp add: used_def)
next
  case (Some n)
  then have "f n = None" by (auto simp: lowest_free_def find_Some_iff)
  then show thesis using that Some by blast
qed

lemma lowest_free_None: "lowest_free f = Some n \<Longrightarrow> f n = None"
  by (auto simp: lowest_free_def find_Some_iff)

lemma sdup_open:
  assumes "used (fds s) < OPEN_MAX" "fds s i \<noteq> None" "sdup (int i) s = (fd, s1)"
  obtains n where "fd = int n" "fds s n = None" "fds s1 = (fds s)(n := fds s i)"
proof -
  obtain n where n: "lowest_free (fds s) = Some n" "fds s n = None" using lowest_free_Some [OF assms(1)] .
  then show thesis using assms(2,3) by (intro that [of n]) (auto simp: sdup_def is_open_def)
qed

lemma fds_sdup2: "fds (sdup2 (int i) j s) = (if fds s i = None then fds s else (fds s)(j := fds s i))"
  by (simp add: sdup2_def is_open_def)

lemma fds_sclose: "fds (sclose (int i) s) = (fds s)(i := None)"
  by (auto simp: sclose_def is_open_def)

lemma open_pipe_fds:
  assumes "open_pipe s = Some (r, w, s1)"
  shows "fds s r = None" "fds s w = None" "r \<noteq> w"
    "fds s1 = (fds s)(r \<mapsto> ''pipe, read end'', w \<mapsto> ''pipe, write end'')"
  using assms by (auto simp: open_pipe_def Let_def split: option.splits if_splits dest!: lowest_free_None)

lemma sopen_fds:
  assumes "sopen path app s = (fl, s1)"
  shows "fl = -1 \<and> fds s1 = fds s \<or> (\<exists>n. fl = int n \<and> fds s n = None \<and> fds s1 = (fds s)(n \<mapsto> path))"
  using assms by (auto simp: sopen_def split: option.splits if_splits dest!: lowest_free_None)

lemma sfork_fds: "sfork c s = Inr (p, s1) \<Longrightarrow> fds s1 = fds s"
proof -
  assume a: "sfork c s = Inr (p, s1)"
  then obtain q qs where f: "forks s = q # qs" "q \<noteq> -1" by (cases "forks s") (auto simp: sfork_def split: if_splits)
  let ?s = "s\<lparr>forks := qs, procs := (procs s)(q \<mapsto> Running)\<rparr>"
  note k = keeps_addJob [of ?s c q False]
  have "keeps ?s s1" using a f k keeps_trans [OF k keeps_swaitpid]
    by (auto simp: sfork_def Let_def res_simps split: if_splits)
  then show ?thesis by (simp add: keeps_def)
qed

lemma red_error_fds: "print_red_error c m s = Inr s1 \<Longrightarrow> fds s1 = fds s"
  by (auto simp: print_red_error_def split: list.splits)

lemma lookup_fds:
  "getJobById k s = (r, s1) \<Longrightarrow> fds s1 = fds s" "getLastJob s = (r, s1) \<Longrightarrow> fds s1 = fds s"
  "getLastStoppedJob s = (r, s1) \<Longrightarrow> fds s1 = fds s"
  using keeps_lookup [of s] by (auto simp: keeps_def) (metis snd_conv)+

lemma kill_fds: "kill_proc p sig s = (e, s1) \<Longrightarrow> fds s1 = fds s" "skill p sig s = (e, s1) \<Longrightarrow> fds s1 = fds s"
  "swaitpid_untraced p s = Inr s1 \<Longrightarrow> fds s1 = fds s"
  using keeps_kill keeps_skill keeps_swaitpid by (auto simp: keeps_def)

lemma kill_fds_snd [simp]: "fds (snd (kill_proc p sig s)) = fds s" "fds (snd (skill p sig s)) = fds s"
  using kill_fds by (metis prod.collapse)+

lemma bring_foreground_fds: "bring_foreground k s = Inr s1 \<Longrightarrow> fds s1 = fds s"
  by (auto simp: bring_foreground_def res_simps case_prod_beta split: if_splits dest!: kill_fds(3))

lemma resume_background_fds: "resume_background k s = Inr s1 \<Longrightarrow> fds s1 = fds s"
  by (auto simp: resume_background_def res_simps case_prod_beta split: if_splits dest!: kill_fds(3))

lemma execute_fg_fds: "execute_fg c s = Inr s1 \<Longrightarrow> fds s1 = fds s"
  by (auto simp: execute_fg_def split: option.splits prod.splits if_splits
    dest!: red_error_fds bring_foreground_fds lookup_fds)

lemma execute_bg_fds: "execute_bg c s = Inr s1 \<Longrightarrow> fds s1 = fds s"
  by (auto simp: execute_bg_def res_simps split: option.splits prod.splits if_splits
    dest!: red_error_fds resume_background_fds lookup_fds)

lemma execute_kill_fds: "execute_kill c s = Inr s1 \<Longrightarrow> fds s1 = fds s"
proof -
  have lookup: "fds (snd (getJobById k s)) = fds s" for k using lookup_fds(1) by (metis prod.collapse)
  assume "execute_kill c s = Inr s1"
  then show ?thesis using lookup
    by (auto simp: execute_kill_def res_simps case_prod_beta split: option.splits if_splits dest!: red_error_fds)
qed

lemma execute_cd_fds: "execute_cd c s = Inr s1 \<Longrightarrow> fds s1 = fds s"
  by (auto simp: execute_cd_def sgetcwd_def Let_def split: option.splits prod.splits if_splits dest!: red_error_fds)

lemma execute_quit_fds: "fds (execute_quit c s) = fds s"
  using keeps_killAllJobs [of "s\<lparr>quit := True\<rparr>"] by (simp add: execute_quit_def Let_def keeps_def)

lemma execute_simple_fds: "execute_simple c s = Inr s1 \<Longrightarrow> fds s1 = fds s"
  using keeps_printJobsList [of s]
  by (auto simp: execute_simple_def execute_chprompt_def execute_pwd_def execute_showpid_def sgetcwd_def
    execute_jobs_def execute_quit_fds execute_external_def res_simps keeps_def split: kind.splits prod.splits if_splits
    dest!: execute_cd_fds execute_fg_fds execute_bg_fds execute_kill_fds sfork_fds)

text \<open>The descriptors while the second command of a pipe and the command of a redirection run, and after them.\<close>

lemma pipe_fds:
  assumes "open_pipe s = Some (r, w, s2)" "fds s3 = fds s2" "sdup 0 s3 = (fd, s4)"
    "fds s 0 \<noteq> None" "fds s 1 \<noteq> None" "used (fds s) + 2 < OPEN_MAX"
    and s5: "s5 = sclose (int w) (sclose (int r) (sdup2 (int r) 0 s4))"
  shows "fds s5 0 \<noteq> None \<and> fds s5 1 \<noteq> None \<and> used (fds s5) \<le> Suc (used (fds s))"
    and "fds s6 = fds s5 \<Longrightarrow> fds (sclose fd (sdup2 fd 0 s6)) = fds s"
proof -
  let ?f = "fds s"
  note p = open_pipe_fds [OF assms(1)]
  have s3: "fds s3 = ?f(r \<mapsto> ''pipe, read end'', w \<mapsto> ''pipe, write end'')" using p assms(2) by simp
  have ne: "r \<noteq> 0" "w \<noteq> 0" "r \<noteq> 1" "w \<noteq> 1" using p(1,2) assms(4,5) by metis+
  have "used (fds s3) \<le> Suc (used (?f(r \<mapsto> ''pipe, read end'')))" unfolding s3 by (rule used_upd)
  also have "\<dots> \<le> used ?f + 2" using used_upd(1) [of ?f r] by simp
  finally have u: "used (fds s3) < OPEN_MAX" using assms(6) by simp
  have "fds s3 0 \<noteq> None" "sdup (int 0) s3 = (fd, s4)" using s3 ne assms(3,4) by simp_all
  from sdup_open [OF u this] obtain n where n: "fd = int n" "fds s3 n = None" "fds s4 = (fds s3)(n := fds s3 0)" .
  then have "n \<noteq> r" "n \<noteq> w" "?f n = None" using s3 p(3) by (auto split: if_splits)
  then have nn: "n \<noteq> r" "n \<noteq> w" "n \<noteq> 0" "n \<noteq> 1" "?f n = None" using assms(4,5) by metis+
  have f4: "fds s4 r \<noteq> None" "fds s4 = ?f(r \<mapsto> ''pipe, read end'', w \<mapsto> ''pipe, write end'', n := ?f 0)"
    using n(3) s3 nn ne p(3) by simp_all
  have "fds s5 = (fds s4)(0 := fds s4 r, r := None, w := None)"
    unfolding s5 fds_sclose fds_sdup2 using f4(1) by auto
  then have f5: "fds s5 = ?f(n := ?f 0, 0 \<mapsto> ''pipe, read end'')"
    unfolding f4(2) using nn ne p(1-3) by (simp add: fun_eq_iff)
  show "fds s5 0 \<noteq> None \<and> fds s5 1 \<noteq> None \<and> used (fds s5) \<le> Suc (used ?f)"
    unfolding f5 using assms(4,5) nn used_upd(2) [of "?f(n := ?f 0)" 0] used_upd(1) [of ?f n]
    by (auto intro: order.trans)
  show "fds (sclose fd (sdup2 fd 0 s6)) = ?f" if "fds s6 = fds s5"
    using that nn assms(4) by (auto simp: n(1) f5 fds_sclose fds_sdup2 fun_eq_iff)
qed

lemma redirection_fds:
  assumes "sopen path app s = (fl, s2)" "fl \<noteq> -1" "sdup 1 s2 = (fd, s3)"
    "fds s 0 \<noteq> None" "fds s 1 \<noteq> None" "used (fds s) + 1 < OPEN_MAX" and s4: "s4 = sdup2 fl 1 s3"
  shows "fds s4 0 \<noteq> None \<and> fds s4 1 = Some path \<and> used (fds s4) \<le> used (fds s) + 2"
    and "fds s5 = fds s4 \<Longrightarrow> fds (sclose fd (sdup2 fd 1 (sclose fl s5))) = fds s"
proof -
  let ?f = "fds s"
  obtain m where m: "fl = int m" "?f m = None" "fds s2 = ?f(m \<mapsto> path)" using sopen_fds [OF assms(1)] assms(2) by auto
  have "used (fds s2) \<le> Suc (used ?f)" unfolding m(3) by (rule used_upd)
  then have u: "used (fds s2) < OPEN_MAX" using assms(6) by simp
  have m01: "m \<noteq> 0" "m \<noteq> 1" using m(2) assms(4,5) by metis+
  then have "fds s2 1 \<noteq> None" "sdup (int 1) s2 = (fd, s3)" using m(3) assms(3,5) by simp_all
  from sdup_open [OF u this] obtain n where n: "fd = int n" "fds s2 n = None" "fds s3 = (fds s2)(n := fds s2 1)" .
  then have "n \<noteq> m" "?f n = None" using m(3) by (auto split: if_splits)
  then have ne: "m \<noteq> 0" "m \<noteq> 1" "n \<noteq> m" "n \<noteq> 0" "n \<noteq> 1" "?f n = None"
    using m01 assms(4,5) by metis+
  have f4: "fds s4 = ?f(m \<mapsto> path, n := ?f 1, 1 \<mapsto> path)"
    using m n ne by (auto simp: s4 fds_sdup2 fun_eq_iff)
  have "used (fds s4) \<le> used (?f(m \<mapsto> path, n := ?f 1))"
    unfolding f4 using ne assms(5) by (intro used_upd(2)) simp
  also have "\<dots> \<le> Suc (used (?f(m \<mapsto> path)))" by (rule used_upd)
  also have "\<dots> \<le> used ?f + 2" using used_upd(1) [of ?f m] by simp
  finally show "fds s4 0 \<noteq> None \<and> fds s4 1 = Some path \<and> used (fds s4) \<le> used ?f + 2"
    unfolding f4 using ne assms(4) by simp
  show "fds (sclose fd (sdup2 fd 1 (sclose fl s5))) = ?f" if "fds s5 = fds s4"
    using that ne m(2) assms(5) by (auto simp: m(1) n(1) f4 fds_sclose fds_sdup2 fun_eq_iff)
qed

lemma execute_restores:
  "execute c s = Inr s1 \<Longrightarrow> fds s 0 \<noteq> None \<Longrightarrow> fds s 1 \<noteq> None \<Longrightarrow>
   used (fds s) + 2 * length (original_cmd c) + 3 \<le> OPEN_MAX \<Longrightarrow> fds s1 = fds s"
proof (induction "length (original_cmd c)" arbitrary: c s s1 rule: less_induct)
  case less
  show ?case
  proof (cases "kind c")
    case (PipeCommand sep amp)
    from PipeCommand less.prems(1) show ?thesis
    proof (cases rule: pipe_cases)
      case (ran r w s2 c1 c2 p s3 fd s4 s5)
      have "used (fds s) + 2 < OPEN_MAX" using less.prems(4) by simp
      note f = pipe_fds [OF ran(1) sfork_fds [OF ran(4)] ran(5) less.prems(2,3) this refl]
      have "fds s5 = fds (sclose (int w) (sclose (int r) (sdup2 (int r) 0 s4)))"
        using f(1) ran(3) less.prems(4) by (intro less.hyps [OF _ ran(6)]) auto
      then show ?thesis using f(2) ran(7) by simp
    qed simp
  next
    case (RedirectionCommand sep app)
    from RedirectionCommand less.prems(1) show ?thesis
    proof (cases rule: redirection_cases)
      case (failed path)
      then show ?thesis using sopen_fds [OF failed] by auto
    next
      case (ran path fl s2 c1 fd s3 s4)
      have "used (fds s) + 1 < OPEN_MAX" using less.prems(4) by simp
      note f = redirection_fds [OF ran(1,2,4) less.prems(2,3) this refl]
      have "fds s4 = fds (sdup2 fl 1 s3)"
        using f(1) ran(3) less.prems(4) by (intro less.hyps [OF _ ran(5)]) auto
      then show ?thesis using f(2) ran(6) by simp
    qed
  qed (use less.prems execute_simple_fds [of c s s1] in \<open>simp_all add: execute_simple_eq is_composite_def\<close>)
qed

end
