(* ===== verification/Redirect.thy ===== *)
theory Redirect
  imports Shell_Keeps
begin

text \<open>
  What a redirection means: a command behaves the same whatever the file behind its standard output is, except
  that its lines go there. Every operation of the shell commutes with moving the output (\<open>moved\<close>), and a
  redirected command is the plain command with the output moved to the file. No other descriptor
  matters to a command, and so a pipe is the sequential composition of its two commands.
\<close>

named_theorems moves "operations that commute with moving the output"

section \<open>Moving the output\<close>

text \<open>The lines of \<open>s\<close> went to descriptor 1 of the descriptors \<open>f\<close>, after the lines \<open>pre\<close>.\<close>

definition moved :: "(string option \<times> string) list \<Rightarrow> (nat \<Rightarrow> string option) \<Rightarrow> shell \<Rightarrow> shell" where
  "moved pre f s = s\<lparr>fds := f, out := pre @ map (\<lambda>x. (f 1, snd x)) (out s)\<rparr>"

lemma moved_fields [simp]:
  "quit (moved d f s) = quit s" "display_prompt (moved d f s) = display_prompt s" "last_pwd (moved d f s) = last_pwd s"
  "jobs (moved d f s) = jobs s" "foreground (moved d f s) = foreground s" "procs (moved d f s) = procs s"
  "events (moved d f s) = events s" "clock (moved d f s) = clock s" "shell_pid (moved d f s) = shell_pid s"
  "cwd (moved d f s) = cwd s" "cwd_ok (moved d f s) = cwd_ok s" "chdir_to (moved d f s) = chdir_to s"
  "forks (moved d f s) = forks s" "sig_effect (moved d f s) = sig_effect s" "err (moved d f s) = err s"
  "fds (moved d f s) = f" "opened (moved d f s) = opened s"
  by (simp_all add: moved_def)

lemma moved_updates [simp]:
  "(moved d f s)\<lparr>quit := q\<rparr> = moved d f (s\<lparr>quit := q\<rparr>)"
  "(moved d f s)\<lparr>display_prompt := w\<rparr> = moved d f (s\<lparr>display_prompt := w\<rparr>)"
  "(moved d f s)\<lparr>last_pwd := w\<rparr> = moved d f (s\<lparr>last_pwd := w\<rparr>)"
  "(moved d f s)\<lparr>jobs := m\<rparr> = moved d f (s\<lparr>jobs := m\<rparr>)"
  "(moved d f s)\<lparr>foreground := g\<rparr> = moved d f (s\<lparr>foreground := g\<rparr>)"
  "(moved d f s)\<lparr>procs := p\<rparr> = moved d f (s\<lparr>procs := p\<rparr>)"
  "(moved d f s)\<lparr>events := es\<rparr> = moved d f (s\<lparr>events := es\<rparr>)"
  "(moved d f s)\<lparr>cwd := w\<rparr> = moved d f (s\<lparr>cwd := w\<rparr>)"
  "(moved d f s)\<lparr>forks := ps\<rparr> = moved d f (s\<lparr>forks := ps\<rparr>)"
  "(moved d f s)\<lparr>err := x\<rparr> = moved d f (s\<lparr>err := x\<rparr>)"
  by (simp_all add: moved_def)

lemma moved_print [moves]:
  "print_msg m (moved d f s) = moved d f (print_msg m s)"
  "print_smash m (moved d f s) = moved d f (print_smash m s)"
  "print_syscall_fail w (moved d f s) = moved d f (print_syscall_fail w s)"
  by (simp_all add: print_smash_def print_msg_def print_syscall_fail_def moved_def)

text \<open>Results of functions that may fail, and that return a value beside the state.\<close>

abbreviation rmap :: "('a \<Rightarrow> 'b) \<Rightarrow> 'a res \<Rightarrow> 'b res" where
  "rmap g r \<equiv> rbind r (\<lambda>x. Inr (g x))"

abbreviation moved2 :: "(string option \<times> string) list \<Rightarrow> (nat \<Rightarrow> string option) \<Rightarrow> 'a \<times> shell \<Rightarrow> 'a \<times> shell" where
  "moved2 d f x \<equiv> (fst x, moved d f (snd x))"

lemma rbind_cases [moves]:
  "rbind (if b then x else y) g = (if b then rbind x g else rbind y g)"
  "rbind (case m of None \<Rightarrow> x | Some a \<Rightarrow> h a) g = (case m of None \<Rightarrow> rbind x g | Some a \<Rightarrow> rbind (h a) g)"
  "rbind (case b of True \<Rightarrow> x | False \<Rightarrow> y) g = (case b of True \<Rightarrow> rbind x g | False \<Rightarrow> rbind y g)"
  by (simp_all split: option.split bool.split)

lemmas deep_cong = rbind_cong if_cong option.case_cong bool.case_cong

lemma moved_job_at [moves]: "job_at k (moved d f s) = job_at k s"
  by (simp add: job_at_def)

lemma moved_signal_effect [moves]: "signal_effect sig (moved d f s) = signal_effect sig s"
  by (simp add: signal_effect_def)

lemma moved_kill [moves]:
  "kill_proc p sig (moved d f s) = moved2 d f (kill_proc p sig s)"
  "skill p sig (moved d f s) = moved2 d f (skill p sig s)"
proof -
  show "kill_proc p sig (moved d f s) = moved2 d f (kill_proc p sig s)"
    by (simp add: kill_proc_def moves split: option.split)
  then show "skill p sig (moved d f s) = moved2 d f (skill p sig s)"
    by (simp add: skill_def moves case_prod_beta)
qed

section \<open>Signals, waiting and the jobs list\<close>

lemma moved_handlers [moves]:
  "ctrlCHandler (moved d f s) = rmap (moved d f) (ctrlCHandler s)"
  "ctrlZHandler (moved d f s) = rmap (moved d f) (ctrlZHandler s)"
  "alarmHandler (moved d f s) = moved d f (alarmHandler s)"
  by (simp_all add: ctrlCHandler_def ctrlZHandler_def alarmHandler_def Let_def moves case_prod_beta rbind_assoc
    split: option.split cong: deep_cong)

lemma moved_deliver [moves]: "deliver e (moved d f s) = rmap (moved d f) (deliver e s)"
  by (simp add: deliver_def moves split: event.split)

lemma moved_wait [moves]: "wait_untraced p es (moved d f s) = rmap (moved2 d f) (wait_untraced p es s)"
proof (induction es arbitrary: s)
  case (Cons e es)
  then show ?case by (simp add: moves rbind_assoc split: option.split pstate.split)
qed (simp split: option.split pstate.split)

lemma moved_removeJob [moves]: "removeJobById k (moved d f s) = moved d f (removeJobById k s)"
  by (simp add: removeJobById_def)

lemma moved_waitpid [moves]:
  "swaitpid_untraced p (moved d f s) = rmap (moved d f) (swaitpid_untraced p s)"
  "swaitpid_nohang p (moved d f s) = moved2 d f (swaitpid_nohang p s)"
  by (simp_all add: swaitpid_untraced_def swaitpid_nohang_def moves rbind_assoc case_prod_beta
    split: option.split bool.split pstate.split cong: deep_cong)

lemma moved_reap [moves]: "reap m (moved d f s) = moved d f (reap m s)"
proof (induction m arbitrary: s)
  case (Cons x m)
  then show ?case by (cases x) (simp add: moves case_prod_beta)
qed simp

lemma moved_removeFinished [moves]: "removeFinishedJobs (moved d f s) = moved2 d f (removeFinishedJobs s)"
  by (simp add: removeFinishedJobs_def Let_def moves)

lemma moved_jobs_list [moves]:
  "addJob c p b (moved d f s) = moved d f (addJob c p b s)"
  "getJobById k (moved d f s) = moved2 d f (getJobById k s)"
  "getLastJob (moved d f s) = moved2 d f (getLastJob s)"
  "getLastStoppedJob (moved d f s) = moved2 d f (getLastStoppedJob s)"
  by (simp_all add: addJob_def getJobById_def getLastJob_def getLastStoppedJob_def Let_def moves)

lemma moved_printJob [moves]: "printJob k j (moved d f s) = moved d f (printJob k j s)"
  by (simp add: printJob_def moves)

lemma moved_printJobsList [moves]: "printJobsList (moved d f s) = moved d f (printJobsList s)"
proof -
  have "fold (\<lambda>(k, j). if state j \<noteq> Foreground then printJob k j else id) m (moved d f t) =
      moved d f (fold (\<lambda>(k, j). if state j \<noteq> Foreground then printJob k j else id) m t)" for m t
    by (induction m arbitrary: t) (auto simp: moves)
  then show ?thesis by (simp add: printJobsList_def Let_def moves)
qed

lemma moved_kill_loop [moves]: "kill_loop m (moved d f s) = moved d f (kill_loop m s)"
proof (induction m arbitrary: s)
  case (Cons x m)
  then show ?case by (cases x) (simp add: moves Let_def case_prod_beta)
qed simp

lemma moved_killAllJobs [moves]: "killAllJobs (moved d f s) = moved d f (killAllJobs s)"
  by (simp add: killAllJobs_def moves case_prod_beta)

lemma moved_sfork [moves]: "sfork c (moved d f s) = rmap (moved2 d f) (sfork c s)"
  by (simp add: sfork_def moves Let_def rbind_assoc split: list.split)

section \<open>Commands\<close>

lemma moved_red_error [moves]: "print_red_error c m (moved d f s) = rmap (moved d f) (print_red_error c m s)"
  by (simp add: print_red_error_def split: list.split)

lemma moved_getcwd [moves]: "sgetcwd (moved d f s) = moved2 d f (sgetcwd s)"
  by (simp add: sgetcwd_def moves)

lemma moved_cd [moves]: "execute_cd c (moved d f s) = rmap (moved d f) (execute_cd c s)"
  by (simp add: execute_cd_def moves Let_def case_prod_beta split: option.split)

lemma moved_resume [moves]:
  "bring_foreground k (moved d f s) = rmap (moved d f) (bring_foreground k s)"
  "resume_background k (moved d f s) = rmap (moved d f) (resume_background k s)"
  by (simp_all add: bring_foreground_def resume_background_def moves case_prod_beta rbind_assoc cong: deep_cong)

lemma moved_fg [moves]: "execute_fg c (moved d f s) = rmap (moved d f) (execute_fg c s)"
  by (simp add: execute_fg_def moves case_prod_beta split: option.split)

lemma moved_bg [moves]: "execute_bg c (moved d f s) = rmap (moved d f) (execute_bg c s)"
  by (simp add: execute_bg_def moves case_prod_beta rbind_assoc split: option.split cong: deep_cong)

lemma moved_execute_kill [moves]: "execute_kill c (moved d f s) = rmap (moved d f) (execute_kill c s)"
  by (simp add: execute_kill_def moves case_prod_beta rbind_assoc split: option.split cong: deep_cong)

lemma moved_external [moves]: "execute_external c (moved d f s) = rmap (moved d f) (execute_external c s)"
  by (simp add: execute_external_def moves case_prod_beta rbind_assoc)

lemma moved_simple [moves]: "execute_simple c (moved d f s) = rmap (moved d f) (execute_simple c s)"
  by (simp add: execute_simple_def execute_chprompt_def execute_pwd_def execute_showpid_def execute_jobs_def
    execute_quit_def Let_def moves case_prod_beta split: kind.split)

section \<open>Redirections\<close>

text \<open>The descriptors of the command of a redirection, and closing them again.\<close>

lemma open_file:
  assumes "can_open s path" "used (fds s) + 1 < OPEN_MAX" "fds s 1 \<noteq> None"
  obtains m n where "sopen path app s = (int m, s\<lparr>fds := (fds s)(m \<mapsto> path), opened := opened s @ [(path, app)]\<rparr>)"
    "sdup 1 (s\<lparr>fds := (fds s)(m \<mapsto> path), opened := opened s @ [(path, app)]\<rparr>) =
      (int n, s\<lparr>fds := (fds s)(m \<mapsto> path, n := fds s 1), opened := opened s @ [(path, app)]\<rparr>)"
    "fds s m = None" "fds s n = None" "m \<noteq> n" "m \<noteq> 1" "n \<noteq> 1"
proof -
  have "used (fds s) < OPEN_MAX" using assms(2) by simp
  from lowest_free_Some [OF this] obtain m where m: "lowest_free (fds s) = Some m" "fds s m = None" .
  have "used ((fds s)(m \<mapsto> path)) < OPEN_MAX" using used_upd(1) [of "fds s" m "Some path"] assms(2) by simp
  from lowest_free_Some [OF this] obtain n where n: "lowest_free ((fds s)(m \<mapsto> path)) = Some n" "((fds s)(m \<mapsto> path)) n = None" .
  have "n \<noteq> m" "fds s n = None" using n(2) by (auto split: if_splits)
  moreover have "m \<noteq> 1" using m(2) assms(3) by metis
  moreover have "n \<noteq> 1" using calculation(2) assms(3) by metis
  ultimately show thesis using m n assms(1,3) by (intro that [of m n]) (auto simp: sopen_def sdup_def is_open_def)
qed

lemma redirected_run:
  assumes "fds s m = None" "fds s n = None" "m \<noteq> n" "m \<noteq> 1" "n \<noteq> 1" "fds s 1 \<noteq> None" "\<not> is_composite (kind c)"
    "t = s\<lparr>fds := (fds s)(m \<mapsto> path, n := fds s 1), opened := fl\<rparr>"
  shows "rmap (\<lambda>s. sclose (int n) (sdup2 (int n) 1 (sclose (int m) s))) (execute c (sdup2 (int m) 1 t)) =
    rmap (\<lambda>s1. s1\<lparr>fds := fds s, out := out s @ map (\<lambda>x. (Some path, snd x)) (out s1)\<rparr>)
      (execute c (s\<lparr>opened := fl, out := []\<rparr>))"
proof -
  let ?f = "(fds s)(m \<mapsto> path, n := fds s 1, 1 \<mapsto> path)"
  have start: "sdup2 (int m) 1 t = moved (out s) ?f (s\<lparr>opened := fl, out := []\<rparr>)"
    using assms(3) by (simp add: assms(8) sdup2_def is_open_def moved_def)
  have restored: "?f(m := None, 1 := fds s 1, n := None) = fds s"
    using assms(1-5) by (auto simp: fun_eq_iff)
  have stop: "sclose (int n) (sdup2 (int n) 1 (sclose (int m) (moved (out s) ?f s1))) =
      s1\<lparr>fds := fds s, out := out s @ map (\<lambda>x. (Some path, snd x)) (out s1)\<rparr>" for s1
  proof -
    have "sclose (int m) (moved (out s) ?f s1) =
        s1\<lparr>fds := ?f(m := None), out := out s @ map (\<lambda>x. (Some path, snd x)) (out s1)\<rparr>"
      using assms(3,4) by (simp add: sclose_def is_open_def) (simp add: moved_def)
    moreover have "sdup2 (int n) 1 (s1\<lparr>fds := ?f(m := None), out := y\<rparr>) =
        s1\<lparr>fds := ?f(m := None, 1 := fds s 1), out := y\<rparr>" for y
      using assms(3,5,6) by (auto simp: sdup2_def is_open_def)
    moreover have "sclose (int n) (s1\<lparr>fds := ?f(m := None, 1 := fds s 1), out := y\<rparr>) =
        s1\<lparr>fds := ?f(m := None, 1 := fds s 1, n := None), out := y\<rparr>" for y
      using assms(3,5,6) by (auto simp: sclose_def is_open_def)
    ultimately show ?thesis unfolding restored by simp
  qed
  show ?thesis unfolding start execute_simple_eq [OF assms(7)] moved_simple rbind_assoc by (simp add: stop del: One_nat_def)
qed

lemma right_part_split:
  assumes "split_at c s u v"
  shows "right_part s (length u) (follows d v) = Inr (if follows d v then tl v else v)"
  using assms by (cases v) (auto simp: split_at_def right_part_def substr_def follows_def)

lemma simple_left:
  assumes "CHR ''|'' \<notin> set u" "CHR ''>'' \<notin> set u" "CreateCommand u = Inr (Some c1)"
  shows "\<not> is_composite (kind (c1\<lparr>background := False\<rparr>))"
  using CreateCommand_cases(3) [OF assms(3,1,2)]
  by (auto simp: is_composite_def is_builtin_def split: option.splits kind.splits dest: builtin_is_builtin)

lemma redirection_spec:
  assumes "CHR ''|'' \<notin> set l" "split_at (CHR ''>'') l u v" "CreateCommand l = Inr (Some c)"
    "CreateCommand u = Inr (Some c1)" "fds s 1 \<noteq> None" "used (fds s) + 1 < OPEN_MAX"
  defines "path \<equiv> trim (if follows (CHR ''>'') v then tl v else v)"
  shows "executeCommand l s =
    (if can_open s path
     then rmap (\<lambda>s1. s1\<lparr>fds := fds s, out := out s @ map (\<lambda>x. (Some path, snd x)) (out s1)\<rparr>)
       (execute (c1\<lparr>background := False\<rparr>) (s\<lparr>opened := opened s @ [(path, follows (CHR ''>'') v)], out := []\<rparr>))
     else Inr (print_syscall_fail ''open'' s))"
proof -
  have c: "kind c = RedirectionCommand (length u) (follows (CHR ''>'') v)" "original_cmd c = l"
    using CreateCommand_cases(2) [OF assms(3,1,2)] by auto
  have l: "take (length u) l = u" "length u < length l" using assms(2) by (auto simp: split_at_def)
  have "CHR ''|'' \<notin> set u" "CHR ''>'' \<notin> set u" using assms(1,2) by (auto simp: split_at_def)
  then have s: "\<not> is_composite (kind (c1\<lparr>background := False\<rparr>))" using simple_left assms(4) by blast
  have run: "executeCommand l s = (case sopen path (follows (CHR ''>'') v) s of (file, s) \<Rightarrow>
      if file = -1 then Inr s
      else (case sdup 1 s of (fd, s) \<Rightarrow>
        rmap (\<lambda>s. sclose fd (sdup2 fd 1 (sclose file s))) (execute (c1\<lparr>background := False\<rparr>) (sdup2 file 1 s))))"
    using l right_part_split [OF assms(2)]
    by (simp add: executeCommand_def assms(3,4) execute.simps [of c s] c path_def del: One_nat_def)
  show ?thesis
  proof (cases "can_open s path")
    case True
    obtain m n where o: "sopen path (follows (CHR ''>'') v) s =
        (int m, s\<lparr>fds := (fds s)(m \<mapsto> path), opened := opened s @ [(path, follows (CHR ''>'') v)]\<rparr>)"
      "sdup 1 (s\<lparr>fds := (fds s)(m \<mapsto> path), opened := opened s @ [(path, follows (CHR ''>'') v)]\<rparr>) =
        (int n, s\<lparr>fds := (fds s)(m \<mapsto> path, n := fds s 1), opened := opened s @ [(path, follows (CHR ''>'') v)]\<rparr>)"
      "fds s m = None" "fds s n = None" "m \<noteq> n" "m \<noteq> 1" "n \<noteq> 1"
      using open_file [OF True assms(6,5)] .
    have "int m \<noteq> -1" by simp
    then show ?thesis unfolding run o(1,2) prod.case
      by (simp only: if_False True if_True redirected_run [OF o(3-7) assms(5) s refl])
  next
    case False
    then show ?thesis using lowest_free_Some [of "fds s"] assms(6) unfolding run
      by (auto simp: sopen_def split: option.split)
  qed
qed

section \<open>Pipes\<close>

text \<open>Other descriptors than the standard output do not matter to an operation that commutes with moving it.\<close>

lemma as_moved:
  "s\<lparr>fds := f\<rparr> = moved (out s) f (s\<lparr>out := []\<rparr>)" "s = moved (out s) (fds s) (s\<lparr>out := []\<rparr>)"
  "f 1 = g 1 \<Longrightarrow> (moved d g s)\<lparr>fds := f\<rparr> = moved d f s"
  by (simp_all add: moved_def)

lemma other_fds:
  assumes "f 1 = fds s 1"
  shows "execute_simple c (s\<lparr>fds := f\<rparr>) = rmap (\<lambda>s1. s1\<lparr>fds := f\<rparr>) (execute_simple c s)"
    "sfork c (s\<lparr>fds := f\<rparr>) = rmap (\<lambda>x. (fst x, (snd x)\<lparr>fds := f\<rparr>)) (sfork c s)"
proof -
  let ?s0 = "s\<lparr>out := []\<rparr>"
  note m = as_moved(3) [of f "fds s", OF assms]
  have "execute_simple c s = rmap (moved (out s) (fds s)) (execute_simple c ?s0)"
    "sfork c s = rmap (moved2 (out s) (fds s)) (sfork c ?s0)"
    using moved_simple moved_sfork as_moved(2) [of s] by metis+
  then have "rmap (\<lambda>s1. s1\<lparr>fds := f\<rparr>) (execute_simple c s) = rmap (moved (out s) f) (execute_simple c ?s0)"
    "rmap (\<lambda>x. (fst x, (snd x)\<lparr>fds := f\<rparr>)) (sfork c s) = rmap (moved2 (out s) f) (sfork c ?s0)"
    by (simp_all add: rbind_assoc m del: One_nat_def)
  then show "execute_simple c (s\<lparr>fds := f\<rparr>) = rmap (\<lambda>s1. s1\<lparr>fds := f\<rparr>) (execute_simple c s)"
    "sfork c (s\<lparr>fds := f\<rparr>) = rmap (\<lambda>x. (fst x, (snd x)\<lparr>fds := f\<rparr>)) (sfork c s)"
    unfolding as_moved(1) moved_simple moved_sfork by simp_all
qed

definition pipe_ends :: "nat \<Rightarrow> nat \<Rightarrow> (nat \<Rightarrow> string option) \<Rightarrow> (nat \<Rightarrow> string option)" where
  "pipe_ends r w f = f(r \<mapsto> ''pipe, read end'', w \<mapsto> ''pipe, write end'')"

lemma open_pipe_spare:
  assumes "used (fds s) + 2 < OPEN_MAX" "fds s 0 \<noteq> None" "fds s 1 \<noteq> None"
  obtains r w n where "open_pipe s = Some (r, w, s\<lparr>fds := pipe_ends r w (fds s)\<rparr>)"
    "lowest_free (pipe_ends r w (fds s)) = Some n" "fds s r = None" "fds s w = None" "fds s n = None"
    "distinct [0, 1, r, w, n]"
proof -
  have "used (fds s) < OPEN_MAX" using assms(1) by simp
  from lowest_free_Some [OF this] obtain r where r: "lowest_free (fds s) = Some r" "fds s r = None" .
  let ?f = "(fds s)(r \<mapsto> ''pipe, read end'')"
  have u: "used ?f \<le> used (fds s) + 1" using used_upd(1) [of "fds s" r] by simp
  then have "used ?f < OPEN_MAX" using assms(1) by simp
  from lowest_free_Some [OF this] obtain w where w: "lowest_free ?f = Some w" "?f w = None" .
  have "used (pipe_ends r w (fds s)) \<le> Suc (used ?f)" unfolding pipe_ends_def by (rule used_upd)
  then have "used (pipe_ends r w (fds s)) < OPEN_MAX" using u assms(1) by simp
  from lowest_free_Some [OF this] obtain n where
    n: "lowest_free (pipe_ends r w (fds s)) = Some n" "pipe_ends r w (fds s) n = None" .
  have free: "fds s w = None" "w \<noteq> r" "fds s n = None" "n \<noteq> r" "n \<noteq> w"
    using w(2) n(2) by (auto simp: pipe_ends_def split: if_splits)
  have "x \<noteq> 0 \<and> x \<noteq> 1" if "fds s x = None" for x using that assms(2,3) by metis
  then have "r \<noteq> 0" "r \<noteq> 1" "w \<noteq> 0" "w \<noteq> 1" "n \<noteq> 0" "n \<noteq> 1" using r(2) free by blast+
  then show thesis using r w(1) n(1) free
    by (intro that [of r w n]) (auto simp: open_pipe_def Let_def pipe_ends_def)
qed

text \<open>What happens to the second command of a pipe, between the descriptors that are set up and taken down.\<close>

lemma piped_run:
  assumes "lowest_free (pipe_ends r w (fds s)) = Some n" "fds s r = None" "fds s w = None" "fds s n = None"
    "distinct [0, 1, r, w, n]" "fds s 0 \<noteq> None" "\<not> is_composite (kind c)"
  shows "(case sdup 0 (s\<lparr>fds := pipe_ends r w (fds s)\<rparr>) of (fd, s) \<Rightarrow>
      rmap (\<lambda>s. sclose fd (sdup2 fd 0 s)) (execute c (sclose (int w) (sclose (int r) (sdup2 (int r) 0 s))))) =
    execute c s"
proof -
  let ?f = "fds s"
  let ?g = "?f(0 \<mapsto> ''pipe, read end'', n := ?f 0)"
  have d: "sdup 0 (s\<lparr>fds := pipe_ends r w ?f\<rparr>) = (int n, s\<lparr>fds := (pipe_ends r w ?f)(n := ?f 0)\<rparr>)"
    using assms(1,5,6) by (auto simp: sdup_def is_open_def pipe_ends_def)
  have e: "(pipe_ends r w ?f)(n := ?f 0, 0 \<mapsto> ''pipe, read end'', r := None, w := None) = ?g"
    using assms(2,3,5) by (auto simp: pipe_ends_def fun_eq_iff)
  have "sclose (int w) (sclose (int r) (sdup2 (int r) 0 (s\<lparr>fds := (pipe_ends r w ?f)(n := ?f 0)\<rparr>))) =
      s\<lparr>fds := (pipe_ends r w ?f)(n := ?f 0, 0 \<mapsto> ''pipe, read end'', r := None, w := None)\<rparr>"
    using assms(5) by (simp add: sdup2_def sclose_def is_open_def pipe_ends_def)
  then have start: "sclose (int w) (sclose (int r) (sdup2 (int r) 0 (s\<lparr>fds := (pipe_ends r w ?f)(n := ?f 0)\<rparr>))) =
      s\<lparr>fds := ?g\<rparr>" unfolding e .
  have g: "?g(0 := ?f 0, n := None) = ?f" using assms(4) by (auto simp: fun_eq_iff)
  have stop: "sclose (int n) (sdup2 (int n) 0 (s1\<lparr>fds := ?g\<rparr>)) = s1\<lparr>fds := ?f\<rparr>" for s1
  proof -
    have "sclose (int n) (sdup2 (int n) 0 (s1\<lparr>fds := ?g\<rparr>)) = s1\<lparr>fds := ?g(0 := ?f 0, n := None)\<rparr>"
      using assms(5,6) by (auto simp: sdup2_def sclose_def is_open_def)
    then show ?thesis unfolding g .
  qed
  have "?g 1 = ?f 1" using assms(5) by simp
  then have "execute_simple c (s\<lparr>fds := ?g\<rparr>) = rmap (\<lambda>s1. s1\<lparr>fds := ?g\<rparr>) (execute_simple c s)"
    by (rule other_fds)
  then have run: "rmap (\<lambda>s. sclose (int n) (sdup2 (int n) 0 s)) (execute_simple c (s\<lparr>fds := ?g\<rparr>)) =
      rmap (\<lambda>s1. s1\<lparr>fds := ?f\<rparr>) (execute_simple c s)"
    by (simp add: rbind_assoc stop)
  have "rmap (\<lambda>s1. s1\<lparr>fds := ?f\<rparr>) (execute_simple c s) = execute_simple c s"
    by (cases "execute_simple c s") (auto dest: execute_simple_fds)
  then show ?thesis unfolding d prod.case start execute_simple_eq [OF assms(7)] run .
qed

lemma pipe_spec:
  assumes "split_at (CHR ''|'') l u v" "CreateCommand l = Inr (Some c)" "CreateCommand u = Inr (Some c1)"
    "right = (if follows (CHR ''&'') v then tl v else v)" "CreateCommand right = Inr (Some c2)"
    "CHR ''|'' \<notin> set right" "CHR ''>'' \<notin> set right"
    "fds s 0 \<noteq> None" "fds s 1 \<noteq> None" "used (fds s) + 2 < OPEN_MAX"
  shows "executeCommand l s =
    rbind (sfork (c1\<lparr>background := False\<rparr>) s) (\<lambda>(p, s1). execute (c2\<lparr>background := False\<rparr>) s1)"
proof -
  let ?c1 = "c1\<lparr>background := False\<rparr>" and ?c2 = "c2\<lparr>background := False\<rparr>"
  have c: "kind c = PipeCommand (length u) (follows (CHR ''&'') v)" "original_cmd c = l"
    using CreateCommand_cases(1) [OF assms(2,1)] by auto
  have l: "take (length u) l = u" using assms(1) by (auto simp: split_at_def)
  obtain r w n where o: "open_pipe s = Some (r, w, s\<lparr>fds := pipe_ends r w (fds s)\<rparr>)"
    "lowest_free (pipe_ends r w (fds s)) = Some n" "fds s r = None" "fds s w = None" "fds s n = None"
    "distinct [0, 1, r, w, n]"
    using open_pipe_spare [OF assms(10,8,9)] .
  have "pipe_ends r w (fds s) 1 = fds s 1" using o(6) by (simp add: pipe_ends_def)
  note fork = other_fds(2) [of "pipe_ends r w (fds s)", OF this, of ?c1]
  have "executeCommand l s = rbind (sfork ?c1 (s\<lparr>fds := pipe_ends r w (fds s)\<rparr>)) (\<lambda>(p, s).
      case sdup 0 s of (fd, s) \<Rightarrow>
      rmap (\<lambda>s. sclose fd (sdup2 fd 0 s)) (execute ?c2 (sclose (int w) (sclose (int r) (sdup2 (int r) 0 s)))))"
    using l right_part_split [OF assms(1)]
    by (simp add: executeCommand_def assms(2,3,5) assms(4) [symmetric] execute.simps [of c s] c o(1) case_prod_beta)
  also have "\<dots> = rbind (sfork ?c1 s) (\<lambda>x. case sdup 0 ((snd x)\<lparr>fds := pipe_ends r w (fds s)\<rparr>) of (fd, s) \<Rightarrow>
      rmap (\<lambda>s. sclose fd (sdup2 fd 0 s)) (execute ?c2 (sclose (int w) (sclose (int r) (sdup2 (int r) 0 s)))))"
    unfolding fork rbind_assoc by (simp add: case_prod_beta)
  also have "\<dots> = rbind (sfork ?c1 s) (\<lambda>(p, s1). execute ?c2 s1)"
  proof (intro rbind_cong refl)
    fix x
    assume "sfork ?c1 s = Inr x"
    then have f: "fds (snd x) = fds s" using sfork_fds [of ?c1 s "fst x" "snd x"] by simp
    show "(case sdup 0 ((snd x)\<lparr>fds := pipe_ends r w (fds s)\<rparr>) of (fd, s) \<Rightarrow>
        rmap (\<lambda>s. sclose fd (sdup2 fd 0 s)) (execute ?c2 (sclose (int w) (sclose (int r) (sdup2 (int r) 0 s))))) =
      (case x of (p, s1) \<Rightarrow> execute ?c2 s1)"
      using piped_run [of r w "snd x" n ?c2] o(2-6) assms(8) simple_left [OF assms(6,7,5)] unfolding f
      by (simp add: case_prod_beta)
  qed
  finally show ?thesis .
qed

end
