(* ===== verification/Session.thy ===== *)
theory Session
  imports Redirect
begin

text \<open>
  The properties of whole commands and sessions of the shell: the invariant after every command, what
  the signals of the terminal do to the command in the foreground, descriptors, \<open>bg\<close>, \<open>kill\<close>, \<open>quit\<close> and
  the main loop, and runs that show where the commands fall short.
\<close>

section \<open>The properties of commands\<close>

lemma demo_ok: "shell_ok demo_shell"
  using demo_shell_ok by (simp add: shell_ok_def) (simp add: demo_shell_def)

lemma executeCommand_shell_ok: "shell_ok s \<Longrightarrow> executeCommand l s = Inr s1 \<Longrightarrow> shell_ok s1"
  by (auto simp: executeCommand_def res_simps split: option.splits dest: execute_shell_ok)

lemma smash_loop_shell_ok: "shell_ok s \<Longrightarrow> smash_loop n ls s = Inr s1 \<Longrightarrow> shell_ok s1 \<and> quit s1"
proof (induction n arbitrary: ls s)
  case (Suc n)
  show ?case
  proof (cases "quit s")
    case False
    let ?l = "c_str (case ls of [] \<Rightarrow> [] | l # _ \<Rightarrow> l)" and ?p = "print_msg (display_prompt s @ ''> '') s"
    obtain s2 where s2: "executeCommand ?l ?p = Inr s2" "smash_loop n (case ls of [] \<Rightarrow> [] | _ # ls \<Rightarrow> ls) s2 = Inr s1"
      using Suc.prems(2) False by (auto simp: smash_loop.simps [of "Suc n"] res_simps)
    have "shell_ok s2" using executeCommand_shell_ok [OF _ s2(1)] Suc.prems(1) by simp
    then show ?thesis using Suc.IH [OF _ s2(2)] by blast
  qed (use Suc.prems in \<open>simp add: smash_loop.simps\<close>)
qed (simp add: smash_loop.simps split: if_splits)

lemma SmallShell_ok:
  "distinct (filter (\<lambda>p. p \<noteq> -1) (forks k)) \<Longrightarrow> \<forall>p\<in>set (forks k). p \<noteq> -1 \<longrightarrow> 0 < p \<and> procs k p = None \<Longrightarrow>
   shell_ok (SmallShell k)"
  by (simp add: SmallShell_def shell_ok_def jobs_ok_def)

text \<open>C4: No command leaves the jobs list or the table of processes inconsistent, whatever happens while
  it runs: ids stay positive and increasing, the jobs are different children that have not been
  reaped, and the pointer to the foreground job never dangles. A command that is neither a pipe nor
  a redirection never follows a null or a dangling pointer. The same holds after a whole session,
  which only ends by \<open>quit\<close>.\<close>

theorem execute_keeps_jobs:
  assumes "shell_ok s"
  shows "(\<forall>s1. execute c s = Inr s1 \<longrightarrow> shell_ok s1) \<and> (is_composite (kind c) \<or> execute c s \<noteq> Inl Segv) \<and>
    (\<forall>n ls s1. smash_loop n ls s = Inr s1 \<longrightarrow> shell_ok s1 \<and> quit s1)"
  using execute_shell_ok [OF assms] execute_simple_ok [OF assms, of c] smash_loop_shell_ok [OF assms]
  by (auto simp: execute_simple_eq)

lemma demo_run:
  "case execute demo_cmd demo_shell of
     Inr s1 \<Rightarrow> map (\<lambda>(k, j). (k, state j)) (jobs s1) = [(1, Stopped), (2, Stopped)] | Inl _ \<Rightarrow> False"
  by code_simp

theorem execute_keeps_jobs_witness:
  "\<exists>s1. execute demo_cmd demo_shell = Inr s1 \<and> shell_ok s1 \<and> map (\<lambda>(k, j). (k, state j)) (jobs s1) = [(1, Stopped), (2, Stopped)]"
proof (cases "execute demo_cmd demo_shell")
  case (Inr s1)
  have "shell_ok s1" by (rule execute_keeps_jobs [OF demo_ok, THEN conjunct1, rule_format, OF Inr])
  moreover have "map (\<lambda>(k, j). (k, state j)) (jobs s1) = [(1, Stopped), (2, Stopped)]"
    using demo_run unfolding Inr by (simp only: sum.case)
  ultimately show ?thesis using Inr by (intro exI [of _ s1] conjI)
next
  case (Inl e)
  show ?thesis using demo_run unfolding Inl by (simp only: sum.case)
qed

text \<open>Well-formed commands do not go wrong.\<close>

lemma command_progress:
  assumes "shell_ok s" "command_ok c" "\<not> is_composite (kind c)" "\<not> (forks_child c \<and> fork_fails s)"
  shows "(\<exists>s1. execute c s = Inr s1 \<and> shell_ok s1) \<or> waits c \<and> execute c s = Inl Fuel"
proof (cases "forks_child c")
  case True
  then have "execute c s = execute_external c s" "waits c"
    using assms(3) by (auto simp: forks_child_def waits_def execute_simple_eq execute_simple_def split: kind.splits)
  then show ?thesis using execute_external_ok [OF assms(1)] True assms(4) execute_shell_ok [OF assms(1)] by metis
next
  case False
  then have "args c \<noteq> []" using assms(2,3)
    by (auto simp: command_ok_def is_builtin_def is_composite_def forks_child_def split: kind.splits)
  then show ?thesis using execute_simple_ok [OF assms(1,3)] False
    by (cases "execute_simple c s") (auto simp: execute_simple_eq [OF assms(3)])
qed



text \<open>A command in the foreground while the first thing that happens is a signal of the terminal.\<close>

definition entry :: "int \<Rightarrow> jobState \<Rightarrow> command \<Rightarrow> shell \<Rightarrow> job_entry" where
  "entry p st c s = \<lparr>pid = p, state = st, entry_time = clock s, cmd = c\<rparr>"

definition said :: "string list \<Rightarrow> shell \<Rightarrow> (string option \<times> string) list" where
  "said ms s = out s @ map (\<lambda>m. (fds s 1, ''smash: '' @ m)) ms"

lemma sfork_foreground:
  assumes "shell_ok s" "forks s = p # ps" "p \<noteq> -1" "\<not> background c"
  defines "k \<equiv> next_id (live_jobs s)"
  defines "t \<equiv> s\<lparr>forks := ps, procs := (reaped (jobs s) s)(p \<mapsto> Running),
      jobs := live_jobs s @ [(k, entry p Foreground c s)], foreground := Some k\<rparr>"
  shows "sfork c s = rbind (swaitpid_untraced p t) (\<lambda>s2. Inr (p, s2))" "map_of (jobs t) k = Some (entry p Foreground c s)"
    "k \<notin> set (ids (live_jobs s))" "p \<notin> set (pids (jobs s))"
proof -
  let ?s = "s\<lparr>forks := ps, procs := (procs s)(p \<mapsto> Running)\<rparr>"
  have p: "0 < p" "procs s p = None" "p \<notin> set (pids (jobs s))"
    using assms(1-3) by (auto simp: shell_ok_def jobs_ok_def)
  show "p \<notin> set (pids (jobs s))" by (rule p(3))
  have live: "live_jobs ?s = live_jobs s"
    unfolding live_jobs_def using p(3) by (intro filter_cong) (auto simp: is_live_def pids_def)
  have reap: "reaped (jobs ?s) ?s = (reaped (jobs s) s)(p \<mapsto> Running)"
    using p(3) by (auto simp: reaped_def fun_eq_iff)
  have ok: "jobs_ok ?s" using shell_okD [OF assms(1)] by (auto simp: jobs_ok_def)
  have "addJob c p False ?s = t"
    unfolding addJob_spec [OF ok] reap live t_def k_def entry_def using assms(4) by (simp add: job_state_def)
  then show "sfork c s = rbind (swaitpid_untraced p t) (\<lambda>s2. Inr (p, s2))"
    using assms(2-4) by (simp add: sfork_def Let_def)
  have free: "map_of (live_jobs s) k = None"
    unfolding k_def by (rule next_id_free [OF live_jobs_ok(1) [OF shell_okD [OF assms(1)]]])
  then show "k \<notin> set (ids (live_jobs s))" by (simp add: ids_def map_of_eq_None_iff)
  from free show "map_of (jobs t) k = Some (entry p Foreground c s)" by (simp add: t_def map_add_def)
qed

lemma interrupt_foreground:
  assumes "shell_ok s" "forks s = p # ps" "p \<noteq> -1" "\<not> background c" "events s = e # es" "e = Ctrl_C \<or> e = Ctrl_Z"
  shows "\<exists>s1. sfork c s = Inr (p, s1) \<and> foreground s1 = None \<and> events s1 = es \<and> err s1 = err s \<and>
    (if e = Ctrl_C then jobs s1 = live_jobs s \<and> procs s1 p = None \<and>
        out s1 = said [''got ctrl-C'', ''process '' @ dec p @ '' was killed''] s
     else jobs s1 = live_jobs s @ [(next_id (live_jobs s), entry p Stopped c s)] \<and> procs s1 p = Some Stop_reported \<and>
        out s1 = said [''got ctrl-Z'', ''process '' @ dec p @ '' was stopped''] s)"
proof -
  note run = sfork_foreground [OF assms(1-4)]
  let ?k = "next_id (live_jobs s)"
  let ?t = "s\<lparr>forks := ps, procs := (reaped (jobs s) s)(p \<mapsto> Running),
      jobs := live_jobs s @ [(?k, entry p Foreground c s)], foreground := Some ?k\<rparr>"
  have m: "map_of (live_jobs s) ?k = None" using run(3) by (simp add: ids_def map_of_eq_None_iff)
  have erase: "map_erase ?k (live_jobs s @ [(?k, x)]) = live_jobs s" for x
    using erase_mid [OF run(3)] by (simp add: map_erase_append) (simp add: map_erase_def)
  have upd: "set_state ?k f (live_jobs s @ [(?k, x)]) = live_jobs s @ [(?k, f x)]" for f x
  proof -
    have "set_state ?k f m = m" if "?k \<notin> set (ids m)" for m
      using that by (induction m) (auto simp: set_state_def ids_def)
    then show ?thesis using run(3) by (simp add: set_state_def)
  qed
  have said: "out (print_smash m1 (print_smash m2 s)) = said [m2, m1] s" for m1 m2
    by (simp add: said_def print_smash_def print_msg_def)
  note sims = run(1,2) swaitpid_untraced_def deliver_def ctrlCHandler_def ctrlZHandler_def Let_def job_at_def skill_def
    kill_proc_def signal_effects assms(5) entry_def m map_add_def wait_step(1,2) after_wait_def erase upd removeJobById_def print_smash_def print_msg_def said_def
  from assms(6) show ?thesis
  proof
    assume "e = Ctrl_C"
    then show ?thesis by (simp add: sims)
  next
    assume "e = Ctrl_Z"
    then show ?thesis by (simp add: sims)
  qed
qed

text \<open>C11: Ctrl-C while a command runs in the foreground kills that process and nothing else: the shell reaps
  it, takes it off the jobs list and goes on, having said so. Ctrl-Z stops it instead, and it stays
  in the jobs list as a stopped job with the next id. Either way the signal is consumed, nothing is
  left in the foreground and no call fails.\<close>

theorem terminal_signals:
  assumes "shell_ok s" "forks s = p # ps" "p \<noteq> -1" "\<not> background c" "events s = e # es" "e = Ctrl_C \<or> e = Ctrl_Z"
  shows "\<exists>s1. sfork c s = Inr (p, s1) \<and> foreground s1 = None \<and> events s1 = es \<and> err s1 = err s \<and>
    (if e = Ctrl_C then jobs s1 = live_jobs s \<and> procs s1 p = None \<and>
        out s1 = said [''got ctrl-C'', ''process '' @ dec p @ '' was killed''] s
     else jobs s1 = live_jobs s @ [(next_id (live_jobs s), entry p Stopped c s)] \<and> procs s1 p = Some Stop_reported \<and>
        out s1 = said [''got ctrl-Z'', ''process '' @ dec p @ '' was stopped''] s)"
  using interrupt_foreground [OF assms] .

theorem terminal_signals_witness:
  "\<exists>s1. sfork demo_cmd demo_shell = Inr (103, s1) \<and> ids (jobs s1) = [1, 2] \<and> procs s1 103 = Some Stop_reported"
proof -
  have p: "forks demo_shell = 103 # []" "(103::int) \<noteq> -1" "\<not> background demo_cmd" "events demo_shell = Ctrl_Z # []"
    by (simp_all add: demo_shell_def demo_cmd_def)
  have l: "ids (live_jobs demo_shell) = [1]" "next_id (live_jobs demo_shell) = 2"
    by (simp_all add: live_jobs_def is_live_def demo_shell_def next_id_def)
  obtain s1 where "sfork demo_cmd demo_shell = Inr (103, s1)" "procs s1 103 = Some Stop_reported"
    "jobs s1 = live_jobs demo_shell @ [(next_id (live_jobs demo_shell), entry 103 Stopped demo_cmd demo_shell)]"
    using terminal_signals [OF demo_ok p, simplified] by blast
  then show ?thesis using l by simp
qed

text \<open>C8: Whatever a command line does, pipes and redirections included and nested, the shell's descriptors
  are afterwards what they were: its standard input and output are restored and both ends of every
  pipe, every opened file and every saved copy are closed. There must be enough free descriptors for the
  length of the line.\<close>

theorem executeCommand_restores_descriptors:
  assumes "executeCommand cmd_line s = Inr s1" "fds s 0 \<noteq> None" "fds s 1 \<noteq> None"
    "used (fds s) + 2 * length cmd_line + 3 \<le> OPEN_MAX"
  shows "fds s1 = fds s"
proof -
  obtain m where m: "CreateCommand cmd_line = Inr m" using assms(1) by (auto simp: executeCommand_def res_simps)
  show ?thesis
  proof (cases m)
    case (Some c)
    then show ?thesis using assms m CreateCommand_original [of cmd_line c]
      by (intro execute_restores [of c]) (auto simp: executeCommand_def)
  qed (use assms(1) m in \<open>simp add: executeCommand_def\<close>)
qed

lemma demo_redirect:
  "case executeCommand ''pwd > f'' demo_shell of
     Inr s1 \<Rightarrow> out s1 = [(Some ''f'', ''/'')] \<and> opened s1 = [(''f'', False)] | Inl _ \<Rightarrow> False"
  by code_simp

lemma demo_used: "used (fds demo_shell) \<le> 3"
proof -
  have "{i. i < OPEN_MAX \<and> fds demo_shell i \<noteq> None} \<subseteq> {0, 1, 2}"
    by (auto simp: demo_shell_def split: if_splits)
  from card_mono [OF _ this] show ?thesis by (simp add: used_def)
qed

theorem executeCommand_restores_descriptors_witness:
  "\<exists>s1. executeCommand ''pwd > f'' demo_shell = Inr s1 \<and> out s1 = [(Some ''f'', ''/'')] \<and> fds s1 = fds demo_shell"
proof (cases "executeCommand ''pwd > f'' demo_shell")
  case (Inr s1)
  have "fds demo_shell 0 \<noteq> None" "fds demo_shell 1 \<noteq> None" by (simp_all add: demo_shell_def)
  from executeCommand_restores_descriptors [OF Inr this] have "fds s1 = fds demo_shell"
    using demo_used by (simp add: OPEN_MAX_def)
  moreover have "out s1 = [(Some ''f'', ''/'')]" using demo_redirect unfolding Inr sum.case by blast
  ultimately show ?thesis using Inr by (intro exI [of _ s1] conjI)
next
  case (Inl e)
  show ?thesis using demo_redirect unfolding Inl by (simp only: sum.case)
qed




lemma demo_piped:
  "case sfork demo_cmd demo_shell of Inl _ \<Rightarrow> False
   | Inr (p, s1) \<Rightarrow> p = 103 \<and> fds s1 1 = Some ''tty'' \<and> cwd s1 = ''/'' \<and> cwd_ok s1 \<and>
       map (\<lambda>(k, j). (k, state j)) (jobs s1) = [(1, Stopped), (2, Stopped)]"
  by code_simp


lemma quit_skill [simp]: "quit (snd (skill p sig s)) = quit s"
  by (auto simp: skill_def kill_proc_def print_syscall_fail_def split: option.splits)

lemma quit_kill_loop: "quit (kill_loop m s) = quit s"
proof (induction m arbitrary: s)
  case (Cons x m)
  then show ?case by (cases x) (simp add: case_prod_beta Let_def removeJobById_def)
qed simp

lemma quit_killAllJobs: "jobs_ok s \<Longrightarrow> quit (killAllJobs s) = quit s"
  using removeFinishedJobs_spec(1) [of s] by (simp add: killAllJobs_def case_prod_beta quit_kill_loop)

text \<open>C34: \<open>quit kill\<close> sends SIGKILL to the process of every job that is still there and to no other
  process, after reaping the ones that have ended, and empties the jobs list; no call fails.\<close>

theorem quit_kill_ends_jobs:
  assumes "shell_ok s" "length (args c) > 1" "args c ! 1 = ARG_KILL" "execute_quit c s = s1"
  shows "quit s1 \<and> jobs s1 = [] \<and> foreground s1 = None \<and> err s1 = err s \<and>
    (\<forall>p. procs s1 p = (if p \<in> set (pids (live_jobs s)) then Some Zombie
       else if p \<in> set (pids (jobs s)) \<and> procs s p = Some Zombie then None else procs s p))"
proof -
  let ?s = "s\<lparr>quit := True\<rparr>"
  have "jobs_ok ?s" using shell_okD [OF assms(1)] by simp
  note spec = killAllJobs_spec [OF this]
  have "live_jobs ?s = live_jobs s" unfolding live_jobs_def by (intro filter_cong) (auto simp: is_live_def)
  moreover have "quit (killAllJobs ?s) = quit ?s" using quit_killAllJobs [OF \<open>jobs_ok ?s\<close>] .
  moreover have "s1 = killAllJobs ?s" using assms(2-4) by (simp add: execute_quit_def Let_def)
  ultimately show ?thesis using spec by simp
qed

definition quit_cmd :: command where
  "quit_cmd = \<lparr>args = [''quit'', ''kill''], original_cmd = ''quit kill'', background = False, kind = QuitCommand\<rparr>"

theorem quit_kill_ends_jobs_witness:
  "\<exists>s1. execute_quit quit_cmd demo_shell = s1 \<and> jobs s1 = [] \<and> procs s1 100 = Some Zombie \<and> procs s1 102 = None"
proof -
  have a: "length (args quit_cmd) > 1" "args quit_cmd ! 1 = ARG_KILL" by (simp_all add: quit_cmd_def ARG_KILL_def)
  have l: "100 \<in> set (pids (live_jobs demo_shell))" "102 \<notin> set (pids (live_jobs demo_shell))"
    "102 \<in> set (pids (jobs demo_shell))" "procs demo_shell 102 = Some Zombie"
    by (simp_all add: live_jobs_def is_live_def demo_shell_def)
  from quit_kill_ends_jobs [OF demo_ok a refl] l show ?thesis by simp
qed

lemma quit_line: "executeCommand ''quit'' s = Inr (s\<lparr>quit := True\<rparr>)"
proof -
  have "CreateCommand ''quit'' = Inr (Some \<lparr>args = [''quit''], original_cmd = ''quit'', background = False, kind = QuitCommand\<rparr>)"
    by code_simp
  then show ?thesis
    by (simp add: executeCommand_def execute_simple_eq is_composite_def execute_simple_def execute_quit_def Let_def)
qed

lemma empty_line: "executeCommand [] s = Inr s"
proof -
  have "CreateCommand [] = Inr None" by code_simp
  then show ?thesis by (simp add: executeCommand_def)
qed

lemma smash_loop_eof: "\<not> quit s \<Longrightarrow> smash_loop n [] s = Inl Fuel"
proof (induction n arbitrary: s)
  case (Suc n)
  have "c_str [] = []" by (simp add: c_str_def)
  then show ?case using Suc by (simp add: smash_loop.simps [of "Suc n"] empty_line)
qed (simp add: smash_loop.simps)

text \<open>C35: The main loop reads one line per prompt and ends at a line \<open>quit\<close>, without touching the jobs or
  their processes; at the end of the input it never ends: it goes on prompting and
  executing empty lines, however long it is run.\<close>

theorem smash_loop_ends:
  assumes "\<not> quit s"
  shows "smash_loop n [] s = Inl Fuel \<and>
    smash_loop (Suc n) (''quit'' # ls) s = Inr ((print_msg (display_prompt s @ ''> '') s)\<lparr>quit := True\<rparr>)"
proof
  show "smash_loop n [] s = Inl Fuel" by (rule smash_loop_eof [OF assms])
  have "c_str ''quit'' = ''quit''" by code_simp
  then show "smash_loop (Suc n) (''quit'' # ls) s = Inr ((print_msg (display_prompt s @ ''> '') s)\<lparr>quit := True\<rparr>)"
    using assms by (simp add: smash_loop.simps quit_line)
qed

theorem smash_loop_ends_witness:
  "smash_loop 5 [] demo_shell = Inl Fuel \<and>
   smash_loop 5 [''quit'', ''jobs''] demo_shell = Inr (demo_shell\<lparr>out := [(Some ''tty'', ''smash> '')], quit := True\<rparr>)"
proof -
  have q: "\<not> quit demo_shell" by (simp add: demo_shell_def)
  have p: "print_msg (display_prompt demo_shell @ ''> '') demo_shell = demo_shell\<lparr>out := [(Some ''tty'', ''smash> '')]\<rparr>"
    by (simp add: demo_shell_def print_msg_def)
  from smash_loop_ends [OF q, of 5 "[]"] smash_loop_ends [OF q, of 4 "[''jobs'']"] show ?thesis
    unfolding p by (simp add: eval_nat_numeral)
qed

text \<open>C33: \<open>kill -<signal> <job>\<close> sends that signal to the process of exactly that job and says so; a job
  that does not exist, or has ended, is reported, and so is a signal the kernel refuses. In every
  case the only other effect is that the ended jobs are reaped and removed.\<close>

theorem kill_signals_one_job:
  assumes "shell_ok s" "kill_args (args c) = Some (sig, k)"
  shows "case map_of (live_jobs s) k of
      None \<Rightarrow> \<exists>s1. execute_kill c s = Inr s1 \<and> jobs s1 = live_jobs s \<and> procs s1 = reaped (jobs s) s \<and> out s1 = out s \<and>
        err s1 = err s @ [''smash error: '' @ hd (args c) @ '': '' @ no_job k]
    | Some j \<Rightarrow> \<exists>s1 st. execute_kill c s = Inr s1 \<and> jobs s1 = live_jobs s \<and> procs s (pid j) = Some st \<and>
       (case signal_effect sig s of
          None \<Rightarrow> procs s1 = reaped (jobs s) s \<and> out s1 = out s \<and> err s1 = err s @ [''smash error: kill failed'']
        | Some f \<Rightarrow> procs s1 = (reaped (jobs s) s)(pid j \<mapsto> f st) \<and> err s1 = err s \<and>
            out s1 = out s @ [(fds s 1, ''signal number '' @ dec sig @ '' was sent to pid '' @ dec (pid j))])"
proof -
  let ?t = "snd (removeFinishedJobs s)"
  note spec = removeFinishedJobs_spec(1) [OF shell_okD [OF assms(1)], folded live_jobs_def]
  obtain a as where args: "args c = a # as" using assms(2) by (cases "args c") (auto simp: kill_args_def)
  show ?thesis
  proof (cases "map_of (live_jobs s) k")
    case None
    then show ?thesis using assms(2) args spec
      by (simp add: execute_kill_def getJobById_def Let_def print_red_error_def)
  next
    case (Some j)
    have live: "procs s (pid j) \<noteq> Some Zombie \<and> procs s (pid j) \<noteq> None"
      using live_jobs_ok(4) [OF shell_okD [OF assms(1)]] map_of_SomeD [OF Some] by (force simp: pids_def)
    then obtain st where st: "procs s (pid j) = Some st" "st \<noteq> Zombie" by auto
    have eff: "signal_effect sig ?t = signal_effect sig s" by (simp add: spec signal_effect_def)
    have proc: "procs ?t (pid j) = Some st" using st by (simp add: spec reaped_def)
    have "execute_kill c s = (case skill (pid j) sig ?t of (e, s2) \<Rightarrow>
        if e = 0 then Inr (print_msg (''signal number '' @ dec sig @ '' was sent to pid '' @ dec (pid j)) s2) else Inr s2)"
      using assms(2) Some by (simp add: execute_kill_def getJobById_def Let_def spec job_at_def)
    then show ?thesis using Some st eff proc
      by (cases "signal_effect sig s")
        (auto simp: skill_def kill_proc_def spec print_msg_def print_syscall_fail_def)
  qed
qed

text \<open>The state after \<open>bg\<close> of a job.\<close>

definition resumed :: "int \<Rightarrow> job_entry \<Rightarrow> shell \<Rightarrow> shell" where
  "resumed k j s = s\<lparr>jobs := set_state k (\<lambda>j. j\<lparr>entry_time := clock s, state := Background\<rparr>) (live_jobs s),
     foreground := None, procs := (reaped (jobs s) s)(pid j \<mapsto> Running),
     out := out s @ [(fds s 1, original_cmd (cmd j) @ '' : '' @ dec (pid j))]\<rparr>"

lemma live_job:
  assumes "shell_ok s" "map_of (live_jobs s) k = Some j"
  obtains st where "procs s (pid j) = Some st" "st \<noteq> Zombie"
  using live_jobs_ok(4) [OF shell_okD [OF assms(1)]] map_of_SomeD [OF assms(2)] that by (force simp: pids_def)

lemma resume_background_spec:
  assumes "shell_ok s" "map_of (live_jobs s) k = Some j"
  shows "resume_background k (snd (removeFinishedJobs s)) = Inr (resumed k j s)"
proof -
  note spec = removeFinishedJobs_spec(1) [OF shell_okD [OF assms(1)], folded live_jobs_def]
  obtain st where st: "procs s (pid j) = Some st" "st \<noteq> Zombie" using live_job [OF assms] .
  have "jobs s \<noteq> []" using assms(2) by (auto simp: live_jobs_def)
  then show ?thesis using assms(2) st
    by (simp add: resume_background_def spec job_at_def kill_proc_def reaped_def signal_effects resumed_def print_msg_def)
qed

definition refused :: "string \<Rightarrow> string \<Rightarrow> shell \<Rightarrow> shell" where
  "refused w m s = s\<lparr>err := err s @ [''smash error: '' @ w @ '': '' @ m]\<rparr>"

lemma last_stopped:
  assumes "shell_ok s" "rev (filter (\<lambda>(k, j). state j = Stopped) (live_jobs s)) = (k, j) # r"
  shows "map_of (live_jobs s) k = Some j"
proof -
  have "(k, j) \<in> set (rev (filter (\<lambda>(k, j). state j = Stopped) (live_jobs s)))" unfolding assms(2) by simp
  then have "(k, j) \<in> set (live_jobs s)" by simp
  moreover have "distinct (map fst (live_jobs s))"
    using sorted_less_distinct [OF live_jobs_ok(1) [OF shell_okD [OF assms(1)]]] by (simp add: ids_def)
  ultimately show ?thesis by (rule map_of_is_SomeI [rotated])
qed

text \<open>C32: \<open>bg\<close> continues the last stopped job, or the job of the given id, as a background job whose time
  starts again: its process runs, and no other process or job changes except that the ended ones
  are removed. Without a stopped job, for an unknown id, for a job already in the background and
  for anything that is not a number it says what is wrong and changes no job.\<close>

theorem bg_resumes:
  assumes "shell_ok s" "args c = w # as"
  defines "t \<equiv> snd (removeFinishedJobs s)"
  shows "execute_bg c s = Inr (case as of
      [] \<Rightarrow> (case rev (filter (\<lambda>(k, j). state j = Stopped) (live_jobs s)) of
          [] \<Rightarrow> refused w ''there is no stopped jobs to resume'' t | (k, j) # _ \<Rightarrow> resumed k j s)
    | [a] \<Rightarrow> (case strToInt a of
          None \<Rightarrow> refused w ''invalid arguments'' s
        | Some k \<Rightarrow> (case map_of (live_jobs s) k of
              None \<Rightarrow> refused w (no_job k) t
            | Some j \<Rightarrow> if state j = Background
                then refused w (''job-id '' @ dec k @ '' is already running in the background'') t
                else resumed k j s))
    | _ \<Rightarrow> refused w ''invalid arguments'' s)"
proof -
  note spec = removeFinishedJobs_spec(1) [OF shell_okD [OF assms(1)], folded live_jobs_def]
  have jobs: "jobs t = live_jobs s" by (simp add: t_def spec)
  have red: "print_red_error c m s' = Inr (refused w m s')" for m s'
    using assms(2) by (simp add: print_red_error_def refused_def)
  have resume: "map_of (live_jobs s) k = Some j \<Longrightarrow> resume_background k t = Inr (resumed k j s)" for k j
    using resume_background_spec [OF assms(1)] by (simp add: t_def)
  have stopped: "getLastStoppedJob s = (case rev (filter (\<lambda>(k, j). state j = Stopped) (live_jobs s)) of
      [] \<Rightarrow> None | (k, j) # _ \<Rightarrow> Some k, t)"
    by (simp add: getLastStoppedJob_def Let_def t_def [symmetric] jobs rev_filter)
  have byid: "getJobById k s = (if map_of (live_jobs s) k = None then None else Some k, t)" for k
    by (simp add: getJobById_def Let_def t_def [symmetric] jobs)
  consider "as = []" | a where "as = [a]" | a b r where "as = a # b # r" by (cases as; cases "tl as") auto
  then show ?thesis
  proof cases
    case 1
    show ?thesis
    proof (cases "rev (filter (\<lambda>(k, j). state j = Stopped) (live_jobs s))")
      case Nil
      then show ?thesis using 1 assms(2) stopped by (simp add: execute_bg_def red)
    next
      case (Cons x r)
      obtain k j where x: "x = (k, j)" by fastforce
      show ?thesis using 1 assms(2) stopped Cons x resume [OF last_stopped [OF assms(1) Cons [unfolded x]]]
        by (simp add: execute_bg_def)
    qed
  next
    case (2 a)
    then show ?thesis using assms(2)
      by (auto simp: execute_bg_def red byid job_at_def jobs resume split: option.splits)
  next
    case 3
    then show ?thesis using assms(2) by (simp add: execute_bg_def red)
  qed
qed

text \<open>The state in which \<open>fg\<close> waits for its job.\<close>

definition continued :: "int \<Rightarrow> job_entry \<Rightarrow> shell \<Rightarrow> shell" where
  "continued k j s = s\<lparr>out := out s @ [(fds s 1, original_cmd (cmd j) @ '' : '' @ dec (pid j))],
     procs := (reaped (jobs s) s)(pid j \<mapsto> Running),
     jobs := set_state k (\<lambda>j. j\<lparr>state := Foreground\<rparr>) (live_jobs s), foreground := Some k\<rparr>"

lemma bring_foreground_spec:
  assumes "shell_ok s" "map_of (live_jobs s) k = Some j"
  shows "bring_foreground k (snd (removeFinishedJobs s)) = swaitpid_untraced (pid j) (continued k j s)"
proof -
  note spec = removeFinishedJobs_spec(1) [OF shell_okD [OF assms(1)], folded live_jobs_def]
  obtain st where st: "procs s (pid j) = Some st" "st \<noteq> Zombie" using live_job [OF assms] .
  have "jobs s \<noteq> []" using assms(2) by (auto simp: live_jobs_def)
  then show ?thesis using assms(2) st
    by (simp add: bring_foreground_def spec job_at_def kill_proc_def reaped_def signal_effects continued_def print_msg_def)
qed

text \<open>The first thing that happens to a job that \<open>fg\<close> brought back.\<close>

lemma set_state_twice: "set_state k f (set_state k g m) = set_state k (\<lambda>x. f (g x)) m"
  by (auto simp: set_state_def)

lemma erase_set_state: "map_erase k (set_state k f m) = map_erase k m"
  by (induction m) (auto simp: map_erase_def set_state_def)

lemma foreground_first_event:
  assumes "shell_ok s" "map_of (live_jobs s) k = Some j" "events s = e # es" "e = Ctrl_C \<or> e = Exits (pid j) \<or> e = Ctrl_Z"
  shows "\<exists>s1. swaitpid_untraced (pid j) (continued k j s) = Inr s1 \<and> foreground s1 = None \<and> events s1 = es \<and>
    (if e = Ctrl_Z then jobs s1 = set_state k (\<lambda>j. j\<lparr>state := Stopped\<rparr>) (live_jobs s) \<and>
        procs s1 (pid j) = Some Stop_reported
     else jobs s1 = map_erase k (live_jobs s) \<and> procs s1 (pid j) = None)"
proof -
  have m: "map_of (set_state k f (live_jobs s)) k = Some (f j)" for f
    using assms(2) by (simp add: map_of_set_state)
  note sims = continued_def swaitpid_untraced_def deliver_def ctrlCHandler_def ctrlZHandler_def Let_def job_at_def skill_def
    kill_proc_def signal_effects assms(3) m wait_step(1,2) after_wait_def erase_set_state set_state_twice
    removeJobById_def print_smash_def print_msg_def
  from assms(4) show ?thesis by (elim disjE) (simp_all add: sims)
qed

lemma last_live:
  assumes "shell_ok s" "rev (live_jobs s) = (k, j) # r"
  shows "map_of (live_jobs s) k = Some j" "fst (last (live_jobs s)) = k" "live_jobs s \<noteq> []"
proof -
  have l: "live_jobs s = rev r @ [(k, j)]" using assms(2) by (metis rev.simps(2) rev_rev_ident)
  show "fst (last (live_jobs s)) = k" "live_jobs s \<noteq> []" unfolding l by simp_all
  have "distinct (map fst (live_jobs s))"
    using sorted_less_distinct [OF live_jobs_ok(1) [OF shell_okD [OF assms(1)]]] by (simp add: ids_def)
  then show "map_of (live_jobs s) k = Some j" unfolding l by (intro map_of_is_SomeI) simp_all
qed

lemma fg_spec:
  assumes "shell_ok s" "args c = w # as"
  defines "t \<equiv> snd (removeFinishedJobs s)"
  shows "execute_fg c s = (case as of
      [] \<Rightarrow> (case rev (live_jobs s) of
          [] \<Rightarrow> Inr (refused w ''jobs list is empty'' t) | (k, j) # _ \<Rightarrow> swaitpid_untraced (pid j) (continued k j s))
    | [a] \<Rightarrow> (case strToInt a of
          None \<Rightarrow> Inr (refused w ''invalid arguments'' s)
        | Some k \<Rightarrow> (case map_of (live_jobs s) k of
              None \<Rightarrow> Inr (refused w (no_job k) t)
            | Some j \<Rightarrow> swaitpid_untraced (pid j) (continued k j s)))
    | _ \<Rightarrow> Inr (refused w ''invalid arguments'' s))"
proof -
  note spec = removeFinishedJobs_spec(1) [OF shell_okD [OF assms(1)], folded live_jobs_def]
  have jobs: "jobs t = live_jobs s" by (simp add: t_def spec)
  have red: "print_red_error c m s' = Inr (refused w m s')" for m s'
    using assms(2) by (simp add: print_red_error_def refused_def)
  have bring: "map_of (live_jobs s) k = Some j \<Longrightarrow>
      bring_foreground k t = swaitpid_untraced (pid j) (continued k j s)" for k j
    using bring_foreground_spec [OF assms(1)] by (simp add: t_def)
  have last: "getLastJob s = (if live_jobs s = [] then None else Some (fst (last (live_jobs s))), t)"
    by (simp add: getLastJob_def Let_def t_def [symmetric] jobs)
  have byid: "getJobById k s = (if map_of (live_jobs s) k = None then None else Some k, t)" for k
    by (simp add: getJobById_def Let_def t_def [symmetric] jobs)
  consider "as = []" | a where "as = [a]" | a b r where "as = a # b # r" by (cases as; cases "tl as") auto
  then show ?thesis
  proof cases
    case 1
    show ?thesis
    proof (cases "rev (live_jobs s)")
      case Nil
      then show ?thesis using 1 assms(2) last by (simp add: execute_fg_def red)
    next
      case (Cons x r)
      obtain k j where x: "x = (k, j)" by fastforce
      note l = last_live [OF assms(1) Cons [unfolded x]]
      show ?thesis using 1 assms(2) last l bring [OF l(1)] Cons x by (simp add: execute_fg_def)
    qed
  next
    case (2 a)
    then show ?thesis using assms(2) by (auto simp: execute_fg_def red byid bring split: option.splits)
  next
    case 3
    then show ?thesis using assms(2) by (simp add: execute_fg_def red)
  qed
qed

definition bg_cmd :: command where
  "bg_cmd = \<lparr>args = [''bg''], original_cmd = ''bg'', background = False, kind = BackgroundCommand\<rparr>"

theorem bg_resumes_witness:
  "\<exists>s1. execute_bg bg_cmd demo_shell = Inr s1 \<and> procs s1 100 = Some Running \<and>
     map (\<lambda>(k, j). (k, state j)) (jobs s1) = [(1, Background)]"
proof -
  have a: "args bg_cmd = ''bg'' # []" by (simp add: bg_cmd_def)
  have "live_jobs demo_shell = [(1, \<lparr>pid = 100, state = Stopped, entry_time = 0, cmd = demo_cmd\<rparr>)]"
    by (simp add: live_jobs_def is_live_def demo_shell_def)
  with bg_resumes [OF demo_ok a] show ?thesis by (simp add: resumed_def set_state_def)
qed

text \<open>C31: \<open>fg\<close> brings the last job of the list, or the job of the given id, back to the foreground: its
  process is continued and waited for, and no other job changes except that the ended ones are
  removed. If then the process ends or Ctrl-C is typed it is reaped and its job removed; if
  Ctrl-Z is typed it is again a stopped job of the same id. Without a job, for an unknown id and for
  anything that is not a number it says what is wrong and brings nothing back.\<close>

theorem fg_resumes:
  assumes "shell_ok s" "args c = w # as"
  defines "t \<equiv> snd (removeFinishedJobs s)"
  shows "execute_fg c s = (case as of
      [] \<Rightarrow> (case rev (live_jobs s) of
          [] \<Rightarrow> Inr (refused w ''jobs list is empty'' t) | (k, j) # _ \<Rightarrow> swaitpid_untraced (pid j) (continued k j s))
    | [a] \<Rightarrow> (case strToInt a of
          None \<Rightarrow> Inr (refused w ''invalid arguments'' s)
        | Some k \<Rightarrow> (case map_of (live_jobs s) k of
              None \<Rightarrow> Inr (refused w (no_job k) t)
            | Some j \<Rightarrow> swaitpid_untraced (pid j) (continued k j s)))
    | _ \<Rightarrow> Inr (refused w ''invalid arguments'' s)) \<and>
    (\<forall>k j e es. map_of (live_jobs s) k = Some j \<and> events s = e # es \<and> (e = Ctrl_C \<or> e = Exits (pid j) \<or> e = Ctrl_Z) \<longrightarrow>
      (\<exists>s1. swaitpid_untraced (pid j) (continued k j s) = Inr s1 \<and> foreground s1 = None \<and> events s1 = es \<and>
        (if e = Ctrl_Z then jobs s1 = set_state k (\<lambda>j. j\<lparr>state := Stopped\<rparr>) (live_jobs s) \<and>
            procs s1 (pid j) = Some Stop_reported
         else jobs s1 = map_erase k (live_jobs s) \<and> procs s1 (pid j) = None)))"
  unfolding t_def using fg_spec [OF assms(1,2)] foreground_first_event [OF assms(1)]
  by (intro conjI allI impI) blast+

definition fg_cmd :: command where
  "fg_cmd = \<lparr>args = [''fg''], original_cmd = ''fg'', background = False, kind = ForegroundCommand\<rparr>"

theorem fg_resumes_witness:
  "\<exists>s1. execute_fg fg_cmd demo_shell = Inr s1 \<and> procs s1 100 = Some Stop_reported \<and>
     map (\<lambda>(k, j). (k, state j)) (jobs s1) = [(1, Stopped)]"
proof -
  let ?j = "\<lparr>pid = 100, state = Stopped, entry_time = 0, cmd = demo_cmd\<rparr>"
  have a: "args fg_cmd = ''fg'' # []" by (simp add: fg_cmd_def)
  have l: "live_jobs demo_shell = [(1, ?j)]" by (simp add: live_jobs_def is_live_def demo_shell_def)
  have e: "map_of (live_jobs demo_shell) 1 = Some ?j \<and> events demo_shell = Ctrl_Z # [] \<and>
      (Ctrl_Z = Ctrl_C \<or> Ctrl_Z = Exits (pid ?j) \<or> Ctrl_Z = Ctrl_Z)"
    by (simp add: l) (simp add: demo_shell_def)
  note fg = fg_resumes [OF demo_ok a]
  from fg [THEN conjunct2, rule_format, OF e] obtain s1 where
    "swaitpid_untraced 100 (continued 1 ?j demo_shell) = Inr s1" "procs s1 100 = Some Stop_reported"
    "jobs s1 = set_state 1 (\<lambda>j. j\<lparr>state := Stopped\<rparr>) (live_jobs demo_shell)" by auto
  moreover have "execute_fg fg_cmd demo_shell = swaitpid_untraced 100 (continued 1 ?j demo_shell)"
    using fg [THEN conjunct1] by (simp add: l)
  ultimately show ?thesis by (simp add: l set_state_def)
qed

definition kill_cmd :: command where
  "kill_cmd = \<lparr>args = [''kill'', ''-9'', ''1''], original_cmd = ''kill -9 1'', background = False, kind = KillCommand\<rparr>"

theorem kill_signals_one_job_witness:
  "\<exists>s1. execute_kill kill_cmd demo_shell = Inr s1 \<and> procs s1 100 = Some Zombie \<and> ids (jobs s1) = [1]"
proof -
  have a: "kill_args (args kill_cmd) = Some (9, 1)" by code_simp
  have "live_jobs demo_shell = [(1, \<lparr>pid = 100, state = Stopped, entry_time = 0, cmd = demo_cmd\<rparr>)]"
    by (simp add: live_jobs_def is_live_def demo_shell_def)
  moreover have "signal_effect 9 demo_shell = Some (\<lambda>_. Zombie)" by (simp add: signal_effect_def SIGKILL_def)
  ultimately show ?thesis using kill_signals_one_job [OF demo_ok a] by auto
qed

section \<open>Where the commands fall short\<close>

text \<open>An external command that is run without bash gets an array of as many pointers as it has words, and
  the terminating null pointer is stored behind it.\<close>

lemma store_all_fits: "i + length xs \<le> n \<Longrightarrow> \<exists>b. store_all n i xs a = Inr b"
  by (induction xs arbitrary: i a) (auto simp: store_def)

lemma external_argv_overflows: "kind c \<noteq> ExternalCommand True \<Longrightarrow> external_argv c = Inl Ub"
  using store_all_fits [of 0 "args c" "length (args c)" Map.empty]
  by (auto simp: external_argv_def store_def)

lemma external_argv_bash:
  "kind c = ExternalCommand True \<Longrightarrow>
   external_argv c = Inr (''/bin/bash'', [0 \<mapsto> ''/bin/bash'', 1 \<mapsto> ''-c'', 2 \<mapsto> concat (map (\<lambda>a. a @ '' '') (args c))])"
  by (simp add: external_argv_def)

text \<open>A redirection without a command follows a null pointer.\<close>

lemma redirection_of_nothing_crashes: "executeCommand ''> f'' s = Inl Segv"
proof -
  have c: "CreateCommand ''> f'' = Inr (Some \<lparr>args = [''>'', ''f''], original_cmd = ''> f'', background = False,
      kind = RedirectionCommand 0 False\<rparr>)" and e: "CreateCommand [] = Inr None"
    by code_simp+
  show ?thesis unfolding executeCommand_def c by (simp add: execute.simps e)
qed

text \<open>A process that something else than Ctrl-Z stops while it runs in the foreground stays in the list as
  a foreground job, which \<open>jobs\<close> does not print.\<close>

lemma stopped_elsewhere_hidden:
  "case execute demo_cmd (demo_shell\<lparr>events := [Stops 103]\<rparr>) of
     Inr s1 \<Rightarrow> map (\<lambda>(k, j). (k, state j)) (jobs s1) = [(1, Stopped), (2, Foreground)] \<and>
       procs s1 103 = Some Stop_reported \<and> foreground s1 = None \<and>
       map snd (out (execute_jobs s1)) = [''[1] sleep 9 : 100 7 secs (stopped)'']
   | Inl _ \<Rightarrow> False"
  by code_simp

text \<open>The child of a pipe writes its output, or its errors, into the pipe and keeps neither end open.\<close>

lemma pipe_child_output:
  assumes "open_pipe s = Some (r, w, s1)" "fds s 1 \<noteq> None" "fds s 2 \<noteq> None"
  shows "fds (pipe_child amp r w s1) = (fds s)((if amp then 2 else 1) \<mapsto> ''pipe, write end'')"
proof -
  note p = open_pipe_fds [OF assms(1)]
  have "r \<noteq> 1" "w \<noteq> 1" "r \<noteq> 2" "w \<noteq> 2" using p(1,2) assms(2,3) by metis+
  then show ?thesis using p by (auto simp: pipe_child_def fds_sclose fds_sdup2 fun_eq_iff)
qed

end
