(* ===== verification/Spec2Isabelle.thy ===== *)
theory Spec2Isabelle
  imports Weights Malloc2 Alloc3 Debug Killer Cgi Session
begin

text \<open>
  A verification library for the programs of this repository, the exercises of an operating-systems
  course: a shell (\<^verbatim>\<open>src/skeleton_smash\<close>), system calls for process weights (\<^verbatim>\<open>src/process_weights\<close>), a
  multi-threaded web server with its clients (\<^verbatim>\<open>src/web_server\<close>) and three memory allocators
  (\<^verbatim>\<open>src/virtual_memory\<close>). The four programs do not call each other; inside the web server the layers
  do, and the library follows them.

  \<^bold>\<open>Theories and sources.\<close>
  \<^item> \<open>Prelude\<close>: outcomes of C code (\<open>res\<close>: a value, or \<open>Segv\<close>, \<open>Ub\<close>, \<open>Exit n\<close>, \<open>Fuel\<close>), sequencing by \<open>rbind\<close>,
    reading through pointers, the arithmetic of \<open>size_t\<close>.
  \<^item> \<open>Weights\<close>: \<^verbatim>\<open>process_weights/kernel/hw2.c\<close>, over a table of tasks whose weights are words of 32 bits.
  \<^item> \<open>Memory\<close>, \<open>Linked\<close>: the memory of the allocators (metadata structures, payload bytes, \<open>sbrk\<close>,
    \<open>mmap\<close>), the interface \<open>allocator\<close>, and doubly linked lists in that memory.
  \<^item> \<open>Malloc2\<close>: \<^verbatim>\<open>malloc_1.cpp\<close> and \<^verbatim>\<open>malloc_2.cpp\<close>. \<open>Malloc3\<close>: \<^verbatim>\<open>malloc_3.cpp\<close>, function by function; its
    invariant and proofs are in \<open>Heap3\<close>, \<open>Realloc3\<close> and \<open>Alloc3\<close>.
  \<^item> \<open>CString\<close>: what the programs use of the C string library. \<open>Wrappers\<close>, \<open>Rio\<close>: \<^verbatim>\<open>web_server/segel.c\<close>, the
    wrappers of system calls and the robust I/O package.
  \<^item> \<open>Request\<close>: \<^verbatim>\<open>request.c\<close>. \<open>Ring\<close>, \<open>Server\<close>: the queue, the overload policies, the master and the workers
    of \<^verbatim>\<open>server.c\<close>; \<open>Debug\<close>: what it prints of its queue in debug builds. \<open>Client\<close>: \<^verbatim>\<open>client.c\<close>. \<open>Killer\<close>: \<^verbatim>\<open>killer_client.c\<close>. \<open>Cgi\<close>: \<^verbatim>\<open>output.c\<close>.
  \<^item> \<open>Cmdline\<close>, \<open>Jobs\<close>, \<open>Shell\<close>: \<^verbatim>\<open>Commands.cpp\<close>, \<^verbatim>\<open>signals.cpp\<close> and \<^verbatim>\<open>smash.cpp\<close>: parsing and the choice of
    the command, the jobs list with waiting and signals, the commands and the main loop. \<open>Shell_Keeps\<close>
    proves what commands keep, \<open>Redirect\<close> that they behave the same wherever their output goes, and \<open>Session\<close>
    states what commands and sessions do.
  \<^item> This theory: the client and the server together.

  \<^bold>\<open>How code becomes definitions.\<close> A function keeps its name where that is free (a suffix \<open>_2\<close> or \<open>_3\<close> tells
  the allocators apart); structures are records, and every early return, failed call, null
  pointer and overflow of an array or of an \<open>int\<close> is a branch. Loops that follow data structures
  in memory or read from connections have fuel or a script: \<open>Fuel\<close> means the loop goes on. For the
  allocators the fuel is a parameter of the environment above every address \<open>sbrk\<close> can return (\<open>sane\<close>),
  which bounds the number of blocks, and the properties show that no run gives \<open>Fuel\<close>. The kernel is
  a parameter: results of system calls are arguments, \<open>sbrk\<close> and \<open>mmap\<close> are functions, a connection carries
  the list of what its reads and writes will do, the shell carries the results of \<open>fork\<close>, the files that can
  be opened and the events that arrive while it waits. A buffer nobody has written is \<open>None\<close>. Text
  written to standard output is taken to arrive at once.

  \<^bold>\<open>Interfaces.\<close> \<open>allocator\<close> (theory \<open>Memory\<close>) states what a client of either allocator may rely on; that
  live blocks are disjoint and keep their bytes is proved in it and holds for \<^verbatim>\<open>malloc_2.cpp\<close> and
  \<^verbatim>\<open>malloc_3.cpp\<close> by interpretation. \<open>bounded_fifo\<close> (theory \<open>Ring\<close>) is the queue the threads rely on,
  \<open>line_source\<close> (theory \<open>Rio\<close>) what a reader of lines relies on: the request handler and the client are
  proved against it. \<open>ordered_map\<close> (theory \<open>Jobs\<close>) is what the jobs list relies on of \<open>std::map\<close>.

  \<^bold>\<open>What is shown.\<close>
  \<^item> Weights: the calls compute what they promise on every process tree whose sums fit in an \<open>int\<close>.
  \<^item> Allocators: runs of requests refine first-fit and best-fit allocation on a list of blocks, with
    correct statistics; live blocks are disjoint; \<open>srealloc\<close> and \<open>scalloc\<close> keep and clear bytes; the
    free list stays sorted. For \<^verbatim>\<open>malloc_3.cpp\<close> this needs an anchored heap, where a block in use is not
    larger than any other block, because inserting a smallest block loses others (\<open>insert_smallest_drops\<close>).
  \<^item> Web server: lines are read independently of how the bytes arrive; a well-formed request gets
    exactly the specified reply and a file name cannot leave \<^verbatim>\<open>./public\<close>; in every reachable state of
    the threads, whatever the scheduler does, the counts agree with the queue, every open
    connection has one owner, no thread faults, requests are served in order and no wakeup is
    lost; what the client sends is what the server understands; the load generator loses no child.
  \<^item> Shell: a typed line is parsed into its words and made into a well-formed command; a well-formed simple
    command runs from every good state to a good state, and every command keeps the jobs list
    consistent with the processes; a redirected command is the plain one with its output in the file; a pipe is
    the sequential composition of its commands; Ctrl-C and Ctrl-Z act on exactly the
    foreground process; descriptors are restored after every line; \<open>fg\<close>, \<open>bg\<close>, \<open>kill\<close> and \<open>quit kill\<close> do
    what they say on every branch; a session keeps all this and ends only by \<open>quit\<close>.
  \<^item> Lemmas with concrete runs show where the code does not do what it means to: lost and corrupted
    blocks in \<open>Alloc3\<close>, overflows in \<open>Weights\<close>, \<open>Malloc2\<close>, \<open>Request\<close> and \<open>Cmdline\<close>, crashes of empty
    redirections and hidden jobs in \<open>Session\<close>, misplaced marks in \<open>Debug\<close>.

  \<^bold>\<open>Not modelled.\<close> The kernel headers and the system-call table, which are Linux's own but for the
  added lines; the single messages of the \<^verbatim>\<open>LOG\<close> macros; a failing \<^verbatim>\<open>signal\<close> at the start of the shell, which
  POSIX allows only for signals that cannot be caught; a request to \<open>sbrk\<close> whose increment is negative as an
  \<^verbatim>\<open>intptr_t\<close>, which \<^verbatim>\<open>malloc_3.cpp\<close> makes only when a free last block that is larger than the request was lost from
  its list, and which is taken to be refused or granted upwards like any other; the optional shell commands, whose bodies are empty
  and which are never created; the text \<open>perror\<close> adds after a message; what an external command does
  after \<open>exec\<close>; negative sizes on the command line of the server; test programs and scripts.
\<close>

section \<open>The client and the server together\<close>

definition plain :: "string \<Rightarrow> bool" where
  "plain w \<longleftrightarrow> w \<noteq> [] \<and> (\<forall>c\<in>set w. \<not> is_space c \<and> c \<noteq> CHR 0x00)"

lemma plain_no_newline: "plain w \<Longrightarrow> nl \<notin> set w"
  by (auto simp: plain_def is_space_def)

lemma sscanf3_request:
  assumes "plain f"
  shows "sscanf3 (c_str (''GET '' @ f @ '' HTTP/1.1\<newline>'')) = (Some ''GET'', Some f, Some ''HTTP/1.1'')"
proof -
  let ?l = "''GET '' @ f @ '' HTTP/1.1\<newline>''"
  have w: "f \<noteq> []" "\<forall>c\<in>set f. \<not> is_space c" "is_space (CHR '' '')"
    using assms by (auto simp: plain_def is_space_def)
  have "c_str ?l = ?l" using assms by (intro c_str_id) (auto simp: plain_def)
  moreover have "token ?l = (''GET'', CHR '' '' # f @ '' HTTP/1.1\<newline>'')"
    using token_word(1) [of "''GET''" "CHR '' ''" "f @ '' HTTP/1.1\<newline>''"] by (simp add: is_space_def)
  moreover have "token (CHR '' '' # f @ '' HTTP/1.1\<newline>'') = (f, '' HTTP/1.1\<newline>'')"
    using token_word(1) [OF w, of "''HTTP/1.1\<newline>''"]
      token_word(2) [OF w, of "CHR '' ''" "''HTTP/1.1\<newline>''"] by simp
  moreover have "token '' HTTP/1.1\<newline>'' = (''HTTP/1.1'', ''\<newline>'')" by (simp add: token_def is_space_def)
  ultimately show ?thesis using w by (simp add: sscanf3_def)
qed

lemma lines_of_request:
  assumes "plain f" "plain h" "length f \<le> 7900" "length h \<le> 255"
  shows "lines_of (MAXLINE - 1) (''GET '' @ f @ '' HTTP/1.1\<newline>host: '' @ h @ ''\<newline>'' @ CRLF) =
    (''GET '' @ f @ '' HTTP/1.1\<newline>'') # [''host: '' @ h @ ''\<newline>''] @ CRLF # []"
proof -
  have k: "MAXLINE - 1 = 8191" by (simp add: MAXLINE_def)
  have "lines_of 8191 CRLF = [CRLF]"
    using lines_of_whole [of "[cr]" 8191 "[]"] by (simp add: CRLF_def)
  moreover have "lines_of 8191 ((''host: '' @ h) @ nl # CRLF) = ((''host: '' @ h) @ ''\<newline>'') # lines_of 8191 CRLF"
    using plain_no_newline [OF assms(2)] assms(4) by (intro lines_of_whole) auto
  moreover have "lines_of 8191 ((''GET '' @ f @ '' HTTP/1.1'') @ nl # ''host: '' @ h @ ''\<newline>'' @ CRLF) =
      ((''GET '' @ f @ '' HTTP/1.1'') @ ''\<newline>'') # lines_of 8191 (''host: '' @ h @ ''\<newline>'' @ CRLF)"
    using plain_no_newline [OF assms(1)] assms(3) by (intro lines_of_whole) auto
  ultimately show ?thesis unfolding k by simp
qed

lemma clientSend_sends:
  assumes "sound_wrs (wrs c)" "length f \<le> 7900" "length h \<le> 255" "0 \<le> host_rc"
  shows "\<exists>c1. clientSend host_rc h f c = Inr c1 \<and>
    sent c1 = sent c @ ''GET '' @ f @ '' HTTP/1.1\<newline>host: '' @ h @ ''\<newline>'' @ CRLF"
proof -
  have "fits MAXLINE (''GET '' @ f @ '' HTTP/1.1\<newline>'') = Inr (''GET '' @ f @ '' HTTP/1.1\<newline>'')"
    using assms(2) by (intro fits_Inr) (simp add: MAXLINE_def)
  moreover have "fits MAXLINE ((''GET '' @ f @ '' HTTP/1.1\<newline>'') @ ''host: '' @ h @ ''\<newline>'' @ CRLF) =
      Inr ((''GET '' @ f @ '' HTTP/1.1\<newline>'') @ ''host: '' @ h @ ''\<newline>'' @ CRLF)"
    using assms(2,3) by (intro fits_Inr) (simp add: MAXLINE_def)
  ultimately show ?thesis
    using Rio_writen_sound [OF assms(1), of "(''GET '' @ f @ '' HTTP/1.1\<newline>'') @ ''host: '' @ h @ ''\<newline>'' @ CRLF"] assms(4)
    unfolding clientSend_def wrapper_defs by auto
qed

text \<open>C16: what \<open>clientSend\<close> writes is a request the server understands: for a file name and a host
  name without white space, a server that receives those bytes, cut in any way, answers with
  the reply specified for a GET of exactly that file name.\<close>

theorem client_request_served:
  assumes "sound_wrs (wrs c)" "0 \<le> host_rc" "plain f" "plain h" "length f \<le> 7900" "length h \<le> 255"
    "stats_ok stats" "calm os" "mappable os"
  shows "\<exists>c1. clientSend host_rc h f c = Inr c1 \<and>
    (\<forall>s. sound s \<and> sound_wrs (wrs s) \<and> sent c1 = sent c @ stream (rds s) \<longrightarrow>
      (\<exists>s1. requestHandle os 2 stats s = Inr (fst (reply os stats ''GET'' f), s1) \<and>
        sent s1 = sent s @ snd (reply os stats ''GET'' f)))"
proof -
  let ?r = "''GET '' @ f @ '' HTTP/1.1\<newline>host: '' @ h @ ''\<newline>'' @ CRLF"
  obtain c1 where c1: "clientSend host_rc h f c = Inr c1" "sent c1 = sent c @ ?r"
    using clientSend_sends [OF assms(1,5,6,2)] by blast
  have nb: "\<not> list_ex blank [''host: '' @ h @ ''\<newline>'']" by (simp add: blank_def c_str_def CRLF_def)
  have "\<exists>s1. requestHandle os 2 stats s = Inr (fst (reply os stats ''GET'' f), s1) \<and>
        sent s1 = sent s @ snd (reply os stats ''GET'' f)"
    if s: "sound s" "sound_wrs (wrs s)" "sent c1 = sent c @ stream (rds s)" for s
  proof -
    have st: "stream (rds s) = ?r" using s(3) c1(2) by (metis same_append_eq)
    from lines_of_request [OF assms(3-6), folded st] show ?thesis
      by (rule requestHandle_sends [OF s(1,2) assms(7-9) _ nb _ sscanf3_request [OF assms(3)] _ assms(5)]) simp_all
  qed
  then show ?thesis using c1(1) by blast
qed

theorem client_request_served_witness:
  "\<exists>c1. clientSend 0 ''h'' ''/x.gif'' demo_request = Inr c1 \<and>
    (\<exists>s1. requestHandle demo_os 2 demo_stats demo_request = Inr (fst (reply demo_os demo_stats ''GET'' ''/x.gif''), s1) \<and>
      sent s1 = snd (reply demo_os demo_stats ''GET'' ''/x.gif''))"
proof -
  have p: "plain ''/x.gif''" "plain ''h''" "length ''/x.gif'' \<le> 7900" "length ''h'' \<le> 255" "(0::int) \<le> 0"
    by (simp_all add: plain_def is_space_def)
  obtain c1 where c1: "clientSend 0 ''h'' ''/x.gif'' demo_request = Inr c1"
    "\<forall>s. sound s \<and> sound_wrs (wrs s) \<and> sent c1 = sent demo_request @ stream (rds s) \<longrightarrow>
      (\<exists>s1. requestHandle demo_os 2 demo_stats s = Inr (fst (reply demo_os demo_stats ''GET'' ''/x.gif''), s1) \<and>
        sent s1 = sent s @ snd (reply demo_os demo_stats ''GET'' ''/x.gif''))"
    using client_request_served [OF demo_request_ok(2) p(5,1-4) demo_os_ok(3,1,2)] by blast
  have "sent c1 = sent demo_request @ stream (rds demo_request)"
    using clientSend_sends [OF demo_request_ok(2) p(3-5)] c1(1) by (auto simp: demo_request_def)
  then show ?thesis using c1 demo_request_ok(1-3) by auto
qed

end
